(* ===== verification/Freeing_Bump.thy ===== *)
theory Freeing_Bump
  imports Prelude
begin

text \<open>
  The freeing-bump heap allocator of the wasm executor (\<open>client/allocator\<close>): orders, links and
  headers with their encoding in linear memory, the free lists, \<open>bump\<close>, \<open>allocate\<close> and
  \<open>deallocate\<close> with the poison bomb.  The linear memory is the \<open>Memory\<close> trait: its bytes, its
  number of pages, its page limit, and the host's answer to a request to grow.
\<close>

section \<open>Linear memory\<close>

definition PAGE_SIZE :: u32 where
  "PAGE_SIZE = 65536"

definition MAX_WASM_PAGES :: u32 where
  "MAX_WASM_PAGES = ucast ((4 * 1024 * 1024 * 1024 :: u64) div ucast PAGE_SIZE)"

text \<open>
  \<open>host_grow p n\<close> is the host's answer to growing a memory of \<open>p\<close> pages by \<open>n\<close> pages; the engine
  behind the trait may refuse.  Bytes past the reported size are out of reach of every access.
\<close>

record memory =
  mem_data :: "u32 \<Rightarrow> u8"
  mem_pages :: u32
  mem_max_pages :: "u32 option"
  host_grow :: "u32 \<Rightarrow> u32 \<Rightarrow> bool"

datatype alloc_error =
    RequestedAllocationTooLarge
  | AllocatorOutOfSpace
  | MemoryShrinked
  | Other string

definition mem_size :: "memory \<Rightarrow> u64" where
  "mem_size m = ucast (mem_pages m) * ucast PAGE_SIZE"

definition mem_grow :: "memory \<Rightarrow> u32 \<Rightarrow> memory option" where
  "mem_grow m additional =
     (if host_grow m (mem_pages m) additional
      then Some (m\<lparr>mem_pages := mem_pages m + additional,
                   mem_data := (\<lambda>a. if ucast a < mem_size m then mem_data m a else 0)\<rparr>)
      else None)"

definition heap_range :: "u32 \<Rightarrow> u32 \<Rightarrow> u64 \<Rightarrow> (u64 \<times> u64) option" where
  "heap_range offset len heap_len =
     (let start = ucast offset in
      case checked_add offset len of
        None \<Rightarrow> None
      | Some e \<Rightarrow> if ucast e \<le> heap_len then Some (start, ucast e) else None)"

text \<open>\<open>u64::to_le_bytes\<close> and \<open>u64::from_le_bytes\<close>.\<close>

definition to_le_bytes :: "u64 \<Rightarrow> u8 list" where
  "to_le_bytes v = map (\<lambda>i. ucast (drop_bit (8 * i) v)) [0..<8]"

definition from_le_bytes :: "u8 list \<Rightarrow> u64" where
  "from_le_bytes bs = foldr (\<lambda>b acc. ucast b OR push_bit 8 acc) bs 0"

definition read_le_u64 :: "memory \<Rightarrow> u32 \<Rightarrow> alloc_error + u64" where
  "read_le_u64 m ptr =
     (case heap_range ptr 8 (mem_size m) of
        None \<Rightarrow> Inl (Other ''read out of heap bounds'')
      | Some (s, e) \<Rightarrow>
          Inr (from_le_bytes (map (\<lambda>i. mem_data m (of_nat i)) [unat s..<unat e])))"

definition write_le_u64 :: "memory \<Rightarrow> u32 \<Rightarrow> u64 \<Rightarrow> alloc_error + memory" where
  "write_le_u64 m ptr v =
     (case heap_range ptr 8 (mem_size m) of
        None \<Rightarrow> Inl (Other ''write out of heap bounds'')
      | Some (s, e) \<Rightarrow>
          Inr (m\<lparr>mem_data := (\<lambda>a. if unat s \<le> unat a \<and> unat a < unat e
                                 then to_le_bytes v ! (unat a - unat s) else mem_data m a)\<rparr>))"

section \<open>Orders, links and headers\<close>

definition ALIGNMENT :: u32 where
  "ALIGNMENT = 8"

definition HEADER_SIZE :: u32 where
  "HEADER_SIZE = 8"

definition N_ORDERS :: nat where
  "N_ORDERS = 23"

definition MIN_POSSIBLE_ALLOCATION :: u32 where
  "MIN_POSSIBLE_ALLOCATION = 8"

definition MAX_POSSIBLE_ALLOCATION :: u32 where
  "MAX_POSSIBLE_ALLOCATION = 33554432"

text \<open>
  \<open>u32::next_power_of_two\<close> (zero when it would overflow, as in the release profile),
  \<open>u32::trailing_zeros\<close> and \<open>div_ceil\<close>.
\<close>

definition next_power_of_two :: "u32 \<Rightarrow> u32" where
  "next_power_of_two x =
     (case List.find (\<lambda>k. unat x \<le> 2 ^ k) [0..<32] of None \<Rightarrow> 0 | Some k \<Rightarrow> push_bit k 1)"

definition trailing_zeros :: "u32 \<Rightarrow> u32" where
  "trailing_zeros x = of_nat (length (takeWhile (\<lambda>i. \<not> bit x i) [0..<32]))"

definition div_ceil :: "'a::len word \<Rightarrow> 'a word \<Rightarrow> 'a word" where
  "div_ceil a b = (let q = a div b; r = a mod b in if r > 0 then q + 1 else q)"

datatype order = Order (order_into_raw: u32)

definition order_from_raw :: "u32 \<Rightarrow> alloc_error + order" where
  "order_from_raw ord =
     (if ord < of_nat N_ORDERS then Inr (Order ord) else Inl (Other ''invalid order''))"

definition order_from_size :: "u32 \<Rightarrow> alloc_error + order" where
  "order_from_size sz =
     (if sz > MAX_POSSIBLE_ALLOCATION then Inl RequestedAllocationTooLarge
      else
        let clamped_size = (if sz < MIN_POSSIBLE_ALLOCATION then MIN_POSSIBLE_ALLOCATION else sz);
            power_of_two_size = next_power_of_two clamped_size
        in Inr (Order (trailing_zeros power_of_two_size - trailing_zeros MIN_POSSIBLE_ALLOCATION)))"

definition order_size :: "order \<Rightarrow> u32" where
  "order_size ord = push_bit (unat (order_into_raw ord)) MIN_POSSIBLE_ALLOCATION"

definition NIL_MARKER :: u32 where
  "NIL_MARKER = - 1"

datatype link = Nil_link | Ptr u32

definition link_from_raw :: "u32 \<Rightarrow> link" where
  "link_from_raw raw = (if raw \<noteq> NIL_MARKER then Ptr raw else Nil_link)"

fun link_into_raw :: "link \<Rightarrow> u32" where
  "link_into_raw Nil_link = NIL_MARKER"
| "link_into_raw (Ptr ptr) = ptr"

datatype header = Free link | Occupied order

definition header_read_from :: "memory \<Rightarrow> u32 \<Rightarrow> alloc_error + header" where
  "header_read_from m header_ptr =
     rbind (read_le_u64 m header_ptr) (\<lambda>raw_header.
       let occupied = (raw_header AND 0x100000000 \<noteq> 0);
           header_data = ucast raw_header
       in if occupied then rbind (order_from_raw header_data) (\<lambda>ord. Inr (Occupied ord))
          else Inr (Free (link_from_raw header_data)))"

definition header_write_into :: "header \<Rightarrow> memory \<Rightarrow> u32 \<Rightarrow> alloc_error + memory" where
  "header_write_into h m header_ptr =
     (let (header_data, occupied_mask) =
            (case h of Occupied ord \<Rightarrow> (order_into_raw ord, 0x100000000)
             | Free lnk \<Rightarrow> (link_into_raw lnk, 0));
          raw_header = ucast header_data OR occupied_mask
      in write_le_u64 m header_ptr raw_header)"

fun into_occupied :: "header \<Rightarrow> order option" where
  "into_occupied (Occupied ord) = Some ord"
| "into_occupied (Free _) = None"

fun into_free :: "header \<Rightarrow> link option" where
  "into_free (Free lnk) = Some lnk"
| "into_free (Occupied _) = None"

section \<open>Free lists and the allocator\<close>

record free_lists =
  heads :: "link list"

definition free_lists_new :: free_lists where
  "free_lists_new = \<lparr>heads = replicate N_ORDERS Nil_link\<rparr>"

text \<open>
  Indexing by an order: every order in circulation is below \<open>N_ORDERS\<close> (\<open>order_from_raw_lt\<close>,
  \<open>order_from_size_lt\<close> below), so that the bounds check of the array access never fires.
\<close>

definition free_lists_index :: "free_lists \<Rightarrow> order \<Rightarrow> link" where
  "free_lists_index fl ord = heads fl ! unat (order_into_raw ord)"

definition free_lists_index_mut :: "free_lists \<Rightarrow> order \<Rightarrow> link \<Rightarrow> free_lists" where
  "free_lists_index_mut fl ord new = fl\<lparr>heads := (heads fl)[unat (order_into_raw ord) := new]\<rparr>"

definition free_lists_replace :: "free_lists \<Rightarrow> order \<Rightarrow> link \<Rightarrow> link \<times> free_lists" where
  "free_lists_replace fl ord new =
     (let prev = free_lists_index fl ord in (prev, free_lists_index_mut fl ord new))"

record allocation_stats =
  bytes_allocated :: u32
  bytes_allocated_peak :: u32
  bytes_allocated_sum :: u128
  address_space_used :: u32

definition allocation_stats_default :: allocation_stats where
  "allocation_stats_default =
     \<lparr>bytes_allocated = 0, bytes_allocated_peak = 0, bytes_allocated_sum = 0,
      address_space_used = 0\<rparr>"

definition pages_from_size :: "u64 \<Rightarrow> u32 option" where
  "pages_from_size sz =
     (let p = div_ceil sz (ucast PAGE_SIZE)
      in if p \<le> ucast (- 1 :: u32) then Some (ucast p) else None)"

record allocator =
  original_heap_base :: u32
  bumper :: u32
  free_lists :: free_lists
  poisoned :: bool
  last_observed_memory_size :: u64
  stats :: allocation_stats

definition allocator_new :: "u32 \<Rightarrow> allocator" where
  "allocator_new heap_base =
     (let aligned_heap_base = div_ceil heap_base ALIGNMENT * ALIGNMENT in
      \<lparr>original_heap_base = aligned_heap_base, bumper = aligned_heap_base,
       free_lists = free_lists_new, poisoned = False, last_observed_memory_size = 0,
       stats = allocation_stats_default\<rparr>)"

definition bump :: "u32 \<Rightarrow> u32 \<Rightarrow> memory \<Rightarrow> (alloc_error + u32) \<times> u32 \<times> memory" where
  "bump bmp sz m =
     (let required_size = ucast bmp + ucast sz :: u64 in
      if required_size > mem_size m then
        (case pages_from_size required_size of
           None \<Rightarrow> (Inl AllocatorOutOfSpace, bmp, m)
         | Some required_pages \<Rightarrow>
             let current_pages = mem_pages m;
                 max_pages = (case mem_max_pages m of None \<Rightarrow> MAX_WASM_PAGES | Some p \<Rightarrow> p)
             in if current_pages \<ge> max_pages then (Inl AllocatorOutOfSpace, bmp, m)
                else if required_pages > max_pages then (Inl AllocatorOutOfSpace, bmp, m)
                else
                  let next_pages = min (current_pages * 2) max_pages;
                      next_pages = max next_pages required_pages
                  in (case mem_grow m (next_pages - current_pages) of
                        None \<Rightarrow> (Inl AllocatorOutOfSpace, bmp, m)
                      | Some m' \<Rightarrow> (Inr bmp, bmp + sz, m')))
      else (Inr bmp, bmp + sz, m))"

definition observe_memory_size :: "u64 \<Rightarrow> memory \<Rightarrow> alloc_error + u64" where
  "observe_memory_size last_observed m =
     (if mem_size m < last_observed then Inl MemoryShrinked else Inr (mem_size m))"

text \<open>
  The poison bomb: it is armed at the start of an operation and disarmed just before its
  successful end, so that every early return raises the flag.
\<close>

definition poison_bomb ::
  "(alloc_error + 'r) \<times> allocator \<times> memory \<Rightarrow> (alloc_error + 'r) \<times> allocator \<times> memory" where
  "poison_bomb out =
     (case out of
        (Inl e, a, m) \<Rightarrow> (Inl e, a\<lparr>poisoned := True\<rparr>, m)
      | (Inr r, a, m) \<Rightarrow> (Inr r, a, m))"

text \<open>The header of the new allocation: popped off the free list of the order, or bumped.\<close>

definition allocate_header ::
  "allocator \<Rightarrow> memory \<Rightarrow> order \<Rightarrow> (alloc_error + u32) \<times> allocator \<times> memory" where
  "allocate_header a m ord =
     (case free_lists_index (free_lists a) ord of
        Ptr header_ptr \<Rightarrow>
          if (ucast header_ptr + ucast (order_size ord) + ucast HEADER_SIZE :: u64) > mem_size m
          then (Inl (Other ''Invalid header pointer detected''), a, m)
          else
            (case rbind (header_read_from m header_ptr)
                    (\<lambda>h. ok_or (Other ''free list points to a occupied header'') (into_free h)) of
               Inl e \<Rightarrow> (Inl e, a, m)
             | Inr next_free \<Rightarrow>
                 (Inr header_ptr,
                  a\<lparr>free_lists := free_lists_index_mut (free_lists a) ord next_free\<rparr>, m))
      | Nil_link \<Rightarrow>
          (case bump (bumper a) (order_size ord + HEADER_SIZE) m of
             (r, bmp, m') \<Rightarrow> (r, a\<lparr>bumper := bmp\<rparr>, m')))"

definition allocate_stats :: "allocator \<Rightarrow> order \<Rightarrow> allocation_stats" where
  "allocate_stats a ord =
     (let st = stats a;
          allocated = bytes_allocated st + (order_size ord + HEADER_SIZE)
      in \<lparr>bytes_allocated = allocated,
          bytes_allocated_peak = max (bytes_allocated_peak st) allocated,
          bytes_allocated_sum = bytes_allocated_sum st + ucast (order_size ord + HEADER_SIZE),
          address_space_used = bumper a - original_heap_base a\<rparr>)"

definition allocate_armed ::
  "allocator \<Rightarrow> memory \<Rightarrow> u32 \<Rightarrow> (alloc_error + u32) \<times> allocator \<times> memory" where
  "allocate_armed a m sz =
     (case observe_memory_size (last_observed_memory_size a) m of
        Inl e \<Rightarrow> (Inl e, a, m)
      | Inr observed \<Rightarrow>
          let a = a\<lparr>last_observed_memory_size := observed\<rparr> in
          (case order_from_size sz of
             Inl e \<Rightarrow> (Inl e, a, m)
           | Inr ord \<Rightarrow>
               (case allocate_header a m ord of
                  (Inl e, a, m) \<Rightarrow> (Inl e, a, m)
                | (Inr header_ptr, a, m) \<Rightarrow>
                    (case header_write_into (Occupied ord) m header_ptr of
                       Inl e \<Rightarrow> (Inl e, a, m)
                     | Inr m \<Rightarrow>
                         (Inr (header_ptr + HEADER_SIZE), a\<lparr>stats := allocate_stats a ord\<rparr>, m)))))"

definition allocate ::
  "allocator \<Rightarrow> memory \<Rightarrow> u32 \<Rightarrow> (alloc_error + u32) \<times> allocator \<times> memory" where
  "allocate a m sz =
     (if poisoned a then (Inl (Other ''the allocator has been poisoned''), a, m)
      else poison_bomb (allocate_armed a m sz))"

definition deallocate_armed ::
  "allocator \<Rightarrow> memory \<Rightarrow> u32 \<Rightarrow> (alloc_error + unit) \<times> allocator \<times> memory" where
  "deallocate_armed a m ptr =
     (case observe_memory_size (last_observed_memory_size a) m of
        Inl e \<Rightarrow> (Inl e, a, m)
      | Inr observed \<Rightarrow>
          let a = a\<lparr>last_observed_memory_size := observed\<rparr> in
          (case ok_or (Other ''Invalid pointer for deallocation'') (checked_sub ptr HEADER_SIZE) of
             Inl e \<Rightarrow> (Inl e, a, m)
           | Inr header_ptr \<Rightarrow>
               (case rbind (header_read_from m header_ptr)
                       (\<lambda>h. ok_or (Other ''the allocation points to an empty header'')
                              (into_occupied h)) of
                  Inl e \<Rightarrow> (Inl e, a, m)
                | Inr ord \<Rightarrow>
                    let (prev_head, fl) = free_lists_replace (free_lists a) ord (Ptr header_ptr);
                        a = a\<lparr>free_lists := fl\<rparr>
                    in (case header_write_into (Free prev_head) m header_ptr of
                          Inl e \<Rightarrow> (Inl e, a, m)
                        | Inr m \<Rightarrow>
                            (case ok_or (Other ''underflow of the currently allocated bytes count'')
                                    (checked_sub (bytes_allocated (stats a))
                                       (order_size ord + HEADER_SIZE)) of
                               Inl e \<Rightarrow> (Inl e, a, m)
                             | Inr n \<Rightarrow>
                                 (Inr (), a\<lparr>stats := (stats a)\<lparr>bytes_allocated := n\<rparr>\<rparr>, m))))))"

definition deallocate ::
  "allocator \<Rightarrow> memory \<Rightarrow> u32 \<Rightarrow> (alloc_error + unit) \<times> allocator \<times> memory" where
  "deallocate a m ptr =
     (if poisoned a then (Inl (Other ''the allocator has been poisoned''), a, m)
      else poison_bomb (deallocate_armed a m ptr))"

end
