(* ===== verification/Freeing_Bump_Header.thy ===== *)
theory Freeing_Bump_Header
  imports Freeing_Bump
begin

text \<open>
  Encoding facts of the allocator: little-endian bytes, reads after writes in linear memory,
  headers read back as they were written, and the arithmetic of orders.
\<close>

named_theorems alloc_consts \<open>constants of the allocator\<close>

declare PAGE_SIZE_def [alloc_consts] MAX_WASM_PAGES_def [alloc_consts] ALIGNMENT_def [alloc_consts]
  HEADER_SIZE_def [alloc_consts] N_ORDERS_def [alloc_consts]
  MIN_POSSIBLE_ALLOCATION_def [alloc_consts] MAX_POSSIBLE_ALLOCATION_def [alloc_consts]
  NIL_MARKER_def [alloc_consts]

subsection \<open>Bytes\<close>

lemma byte_or_rest: "(ucast (ucast w :: u8) :: u64) OR push_bit 8 (drop_bit 8 w) = w"
  proof (rule bit_word_eqI)
  fix n
  assume "n < LENGTH(64)"
  then show "bit ((ucast (ucast w :: u8) :: u64) OR push_bit 8 (drop_bit 8 w)) n \<longleftrightarrow> bit w n"
    by (cases "n < 8") (auto simp: bit_simps)
qed

lemma from_le_bytes_suffix:
  "j \<le> 8 \<Longrightarrow>
   from_le_bytes (map (\<lambda>i. ucast (drop_bit (8 * i) v)) [j..<8]) = drop_bit (8 * j) (v :: u64)"
proof (induction "8 - j" arbitrary: j)
  case 0
  then have "j = 8" by simp
  moreover have "drop_bit 64 v = (0 :: u64)"
    by (rule bit_word_eqI) (simp add: bit_simps)
  ultimately show ?case by (simp add: from_le_bytes_def)
next
  case (Suc n)
  then have "j < 8" by simp
  then have split: "[j..<8] = j # [Suc j..<8]" by (simp add: upt_rec)
  have "from_le_bytes (map (\<lambda>i. ucast (drop_bit (8 * i) v)) [Suc j..<8]) = drop_bit (8 * Suc j) v"
    using Suc by (intro Suc.hyps) auto
  then have "from_le_bytes (map (\<lambda>i. ucast (drop_bit (8 * i) v)) [j..<8]) =
      ucast (ucast (drop_bit (8 * j) v) :: u8) OR push_bit 8 (drop_bit 8 (drop_bit (8 * j) v))"
    by (simp add: split from_le_bytes_def drop_bit_drop_bit ac_simps)
  then show ?case by (simp only: byte_or_rest)
qed

lemma from_to_le_bytes [simp]: "from_le_bytes (to_le_bytes v) = v"
  using from_le_bytes_suffix [of 0 v] by (simp add: to_le_bytes_def)

lemma length_to_le_bytes [simp]: "length (to_le_bytes v) = 8"
  by (simp add: to_le_bytes_def)

subsection \<open>Accesses to linear memory\<close>

text \<open>The nat view of the memory size, and the bounds check of an eight-byte access.\<close>

definition mem_bytes :: "memory \<Rightarrow> nat" where
  "mem_bytes m = unat (mem_pages m) * 65536"

definition header_fits :: "memory \<Rightarrow> u32 \<Rightarrow> bool" where
  "header_fits m p \<longleftrightarrow> unat p + 8 < 2 ^ 32 \<and> unat p + 8 \<le> mem_bytes m"

lemma unat_ucast_u32_u64 [simp]: "unat (ucast (w :: u32) :: u64) = unat w"
  by (rule unat_ucast_up) simp

lemma unat_u32_lt: "unat (w :: u32) < 4294967296"
  using unat_lt_exp [of w] by simp

lemma unat_mem_size [simp]: "unat (mem_size m) = mem_bytes m"
proof -
  have "unat (ucast (mem_pages m) * ucast PAGE_SIZE :: u64) = unat (mem_pages m) * 65536"
    using unat_u32_lt [of "mem_pages m"]
    by (subst unat_mult_no_wrap) (simp_all add: PAGE_SIZE_def)
  then show ?thesis by (simp add: mem_size_def mem_bytes_def)
qed

lemma heap_range_eq:
  "heap_range p 8 (mem_size m) =
     (if header_fits m p then Some (ucast p, ucast (p + 8)) else None)"
proof -
  have "unat p + 8 < 2 ^ 32 \<Longrightarrow> unat (p + 8) = unat p + 8"
    by (subst unat_add_no_wrap) simp_all
  then show ?thesis
    by (auto simp: heap_range_def checked_add_def header_fits_def word_le_nat_alt)
qed

lemma read_le_u64_fits:
  "header_fits m p \<Longrightarrow>
   read_le_u64 m p = Inr (from_le_bytes (map (\<lambda>i. mem_data m (of_nat (unat p + i))) [0..<8]))"
proof -
  assume fits: "header_fits m p"
  then have e: "unat (p + 8) = unat p + 8"
    by (subst unat_add_no_wrap) (simp_all add: header_fits_def)
  have "[unat p..<unat p + 8] = map (\<lambda>i. i + unat p) [0..<8]"
    by (simp only: map_add_upt) (simp add: add.commute)
  then have "map (\<lambda>i. mem_data m (of_nat i)) [unat p..<unat p + 8] =
      map (\<lambda>i. mem_data m (of_nat (unat p + i))) [0..<8]"
    by (simp only: map_map) (simp add: add.commute)
  then show ?thesis
    using fits e by (simp add: read_le_u64_def heap_range_eq del: of_nat_add)
qed

definition write_at :: "memory \<Rightarrow> u32 \<Rightarrow> u64 \<Rightarrow> memory" where
  "write_at m p v =
     m\<lparr>mem_data := (\<lambda>a. if unat p \<le> unat a \<and> unat a < unat p + 8
                       then to_le_bytes v ! (unat a - unat p) else mem_data m a)\<rparr>"

lemma write_at_fields [simp]:
  "mem_pages (write_at m p v) = mem_pages m"
  "mem_max_pages (write_at m p v) = mem_max_pages m"
  "host_grow (write_at m p v) = host_grow m"
  "mem_bytes (write_at m p v) = mem_bytes m"
  "header_fits (write_at m p v) q = header_fits m q"
  by (simp_all add: write_at_def mem_bytes_def header_fits_def)

lemma write_le_u64_fits: "header_fits m p \<Longrightarrow> write_le_u64 m p v = Inr (write_at m p v)"
proof -
  assume fits: "header_fits m p"
  then have "unat (p + 8) = unat p + 8"
    by (subst unat_add_no_wrap) (simp_all add: header_fits_def)
  with fits show ?thesis
    by (simp add: write_le_u64_def heap_range_eq write_at_def cong: if_cong)
qed

lemma write_le_u64_Inl_iff: "(\<exists>e. write_le_u64 m p v = Inl e) \<longleftrightarrow> \<not> header_fits m p"
  by (auto simp: write_le_u64_fits) (simp add: write_le_u64_def heap_range_eq)

lemma read_write_same:
  assumes "header_fits m p"
  shows "read_le_u64 (write_at m p v) p = Inr v"
proof -
  have "map (\<lambda>i. mem_data (write_at m p v) (of_nat (unat p + i))) [0..<8] =
      map (\<lambda>i. to_le_bytes v ! i) [0..<8]"
  proof (rule map_cong [OF refl])
    fix i :: nat
    assume "i \<in> set [0..<8]"
    then have "unat (of_nat (unat p + i) :: u32) = unat p + i"
      using assms by (intro unat_of_nat_small) (auto simp: header_fits_def)
    with \<open>i \<in> set [0..<8]\<close> show "mem_data (write_at m p v) (of_nat (unat p + i)) = to_le_bytes v ! i"
      by (simp add: write_at_def del: of_nat_add)
  qed
  also have "\<dots> = to_le_bytes v"
    using map_nth [of "to_le_bytes v"] by simp
  finally show ?thesis
    using assms by (simp add: read_le_u64_fits del: of_nat_add)
qed

lemma read_le_u64_cong:
  assumes "header_fits m q" "mem_bytes m' = mem_bytes m"
    and "\<And>a. unat q \<le> unat a \<Longrightarrow> unat a < unat q + 8 \<Longrightarrow> mem_data m' a = mem_data m a"
  shows "read_le_u64 m' q = read_le_u64 m q"
proof -
  have "map (\<lambda>i. mem_data m' (of_nat (unat q + i))) [0..<8] =
      map (\<lambda>i. mem_data m (of_nat (unat q + i))) [0..<8]"
  proof (rule map_cong [OF refl])
    fix i :: nat
    assume i: "i \<in> set [0..<8]"
    then have "unat (of_nat (unat q + i) :: u32) = unat q + i"
      using assms by (intro unat_of_nat_small) (auto simp: header_fits_def)
    with i show "mem_data m' (of_nat (unat q + i)) = mem_data m (of_nat (unat q + i))"
      by (intro assms(3)) (auto simp del: of_nat_add)
  qed
  moreover have "header_fits m' q" using assms by (simp add: header_fits_def)
  ultimately show ?thesis using assms by (simp only: read_le_u64_fits)
qed

lemma read_write_apart:
  assumes "header_fits m q" "unat p + 8 \<le> unat q \<or> unat q + 8 \<le> unat p"
  shows "read_le_u64 (write_at m p v) q = read_le_u64 m q"
  using assms by (intro read_le_u64_cong) (auto simp: write_at_def mem_bytes_def)

subsection \<open>Orders\<close>

definition valid_order :: "order \<Rightarrow> bool" where
  "valid_order ord \<longleftrightarrow> unat (order_into_raw ord) < N_ORDERS"

text \<open>The bytes of a block of an order, and of the chunk that holds it behind its header.\<close>

definition block_len :: "order \<Rightarrow> nat" where
  "block_len ord = 8 * 2 ^ unat (order_into_raw ord)"

definition chunk_len :: "order \<Rightarrow> nat" where
  "chunk_len ord = 8 + block_len ord"

lemma block_len_ge: "8 \<le> block_len ord"
  by (simp add: block_len_def)

lemma block_len_le: "valid_order ord \<Longrightarrow> block_len ord \<le> 33554432"
proof -
  assume "valid_order ord"
  then have "(2 :: nat) ^ unat (order_into_raw ord) \<le> 2 ^ 22"
    by (intro power_increasing) (simp_all add: valid_order_def N_ORDERS_def)
  then show ?thesis by (simp add: block_len_def)
qed

lemma unat_order_size: "valid_order ord \<Longrightarrow> unat (order_size ord) = block_len ord"
proof -
  assume "valid_order ord"
  then have "block_len ord < 2 ^ 32" using block_len_le by fastforce
  moreover have "order_size ord = of_nat (block_len ord)"
    by (simp add: order_size_def block_len_def MIN_POSSIBLE_ALLOCATION_def push_bit_eq_mult)
  ultimately show ?thesis by (simp add: unat_of_nat_small)
qed

lemma unat_chunk_size: "valid_order ord \<Longrightarrow> unat (order_size ord + HEADER_SIZE) = chunk_len ord"
  using block_len_le [of ord]
  by (subst unat_add_no_wrap) (simp_all add: unat_order_size HEADER_SIZE_def chunk_len_def)

lemma order_from_raw_lt: "order_from_raw r = Inr ord \<longleftrightarrow> valid_order (Order r) \<and> ord = Order r"
  by (auto simp: order_from_raw_def valid_order_def N_ORDERS_def word_less_nat_alt)

lemma find_upt_Some_iff:
  "List.find P [0..<n] = Some k \<longleftrightarrow> k < n \<and> P k \<and> (\<forall>j < k. \<not> P j)"
  by (auto simp: find_Some_iff)

lemma find_upt_None_iff: "List.find P [0..<n] = None \<longleftrightarrow> (\<forall>k < n. \<not> P k)"
  by (auto simp: find_None_iff)

lemma next_power_of_two_eq:
  assumes "unat x \<le> 2 ^ 31"
  shows "\<exists>k < 32. next_power_of_two x = 2 ^ k \<and> unat x \<le> 2 ^ k \<and> (\<forall>j < k. 2 ^ j < unat x)"
proof (cases "List.find (\<lambda>k. unat x \<le> 2 ^ k) [0..<32]")
  case None
  then have "\<not> unat x \<le> 2 ^ 31" unfolding find_upt_None_iff by (rule allE [of _ 31]) simp
  with assms show ?thesis by contradiction
next
  case (Some k)
  then have "k < 32 \<and> unat x \<le> 2 ^ k \<and> (\<forall>j < k. 2 ^ j < unat x)"
    unfolding find_upt_Some_iff not_le by blast
  with Some show ?thesis by (auto simp: next_power_of_two_def)
qed

lemma trailing_zeros_power: "k < 32 \<Longrightarrow> trailing_zeros (2 ^ k) = of_nat k"
proof -
  assume k: "k < 32"
  then have split: "[0..<32] = [0..<k] @ k # [Suc k..<32]"
    using upt_add_eq_append [of 0 k "32 - k"] by (simp add: upt_conv_Cons)
  have bits: "\<And>i. i < 32 \<Longrightarrow> bit (2 ^ k :: u32) i \<longleftrightarrow> i = k"
    using k by (auto simp: bit_simps)
  have "takeWhile (\<lambda>i. \<not> bit (2 ^ k :: u32) i) [0..<32] = [0..<k]"
    unfolding split using k
    by (subst takeWhile_append2) (auto simp: bits)
  then show ?thesis by (simp add: trailing_zeros_def)
qed

lemma trailing_zeros_min: "trailing_zeros MIN_POSSIBLE_ALLOCATION = 3"
  using trailing_zeros_power [of 3] by (simp add: MIN_POSSIBLE_ALLOCATION_def)

text \<open>The order of a size: the least block that holds it.\<close>

lemma order_from_size_ok:
  assumes "unat sz \<le> 33554432"
  obtains ord where "order_from_size sz = Inr ord" "valid_order ord" "unat sz \<le> block_len ord"
    "\<And>ord'. unat sz \<le> block_len ord' \<Longrightarrow> block_len ord \<le> block_len ord'"
proof -
  define c where "c = (if sz < MIN_POSSIBLE_ALLOCATION then MIN_POSSIBLE_ALLOCATION else sz)"
  have c: "unat c = max 8 (unat sz)"
    by (auto simp: c_def MIN_POSSIBLE_ALLOCATION_def word_less_nat_alt)
  then have "unat c \<le> 2 ^ 31" using assms by simp
  then obtain k where k: "k < 32" "next_power_of_two c = 2 ^ k" "unat c \<le> 2 ^ k"
    and least: "\<And>j. j < k \<Longrightarrow> 2 ^ j < unat c"
    using next_power_of_two_eq by blast
  have "3 \<le> k"
  proof (rule ccontr)
    assume "\<not> 3 \<le> k"
    then have "(2 :: nat) ^ k \<le> 2 ^ 2" by (intro power_increasing) auto
    with k(3) c show False by simp
  qed
  have "k \<le> 25"
  proof (rule ccontr)
    assume "\<not> k \<le> 25"
    then have "2 ^ 25 < unat c" by (intro least) simp
    with c assms show False by simp
  qed
  have raw: "(of_nat k - 3 :: u32) = of_nat (k - 3)" using \<open>3 \<le> k\<close> by (simp add: of_nat_diff)
  have u: "unat (of_nat (k - 3) :: u32) = k - 3"
    using \<open>k \<le> 25\<close> by (intro unat_of_nat_small) simp
  define ord where "ord = Order (of_nat (k - 3))"
  have "sz \<le> MAX_POSSIBLE_ALLOCATION"
    using assms by (simp add: MAX_POSSIBLE_ALLOCATION_def word_le_nat_alt)
  then have eq: "order_from_size sz = Inr ord"
    by (simp add: order_from_size_def Let_def c_def [symmetric] k trailing_zeros_power
        trailing_zeros_min raw ord_def not_less [symmetric] del: of_nat_diff)
  have valid: "valid_order ord" using \<open>k \<le> 25\<close> by (simp add: valid_order_def ord_def u N_ORDERS_def del: of_nat_diff)
  have len: "block_len ord = 2 ^ k"
    using power_add [of "2 :: nat" 3 "k - 3"] \<open>3 \<le> k\<close> by (simp add: block_len_def ord_def u del: of_nat_diff)
  have "block_len ord \<le> block_len ord'" if le: "unat sz \<le> block_len ord'" for ord'
  proof (rule ccontr)
    assume "\<not> block_len ord \<le> block_len ord'"
    moreover have pow: "block_len ord' = 2 ^ (unat (order_into_raw ord') + 3)"
      by (simp add: block_len_def power_add)
    ultimately have "unat (order_into_raw ord') + 3 < k"
      using len by (metis not_le power_increasing one_le_numeral)
    then have "block_len ord' < unat c" unfolding pow by (rule least)
    moreover have "8 \<le> block_len ord'" by (rule block_len_ge)
    ultimately show False using le c by simp
  qed
  with eq valid len k(3) c show thesis by (intro that [of ord]) auto
qed

lemma order_from_size_large:
  "33554432 < unat sz \<Longrightarrow> order_from_size sz = Inl RequestedAllocationTooLarge"
  by (simp add: order_from_size_def MAX_POSSIBLE_ALLOCATION_def word_less_nat_alt)

lemma order_from_size_lt:
  "order_from_size sz = Inr ord \<Longrightarrow> valid_order ord \<and> unat sz \<le> block_len ord"
  by (cases "unat sz \<le> 33554432")
    (auto elim: order_from_size_ok simp: order_from_size_large not_le)

subsection \<open>Headers\<close>

definition header_raw :: "header \<Rightarrow> u64" where
  "header_raw h =
     (case h of Occupied ord \<Rightarrow> ucast (order_into_raw ord) OR 0x100000000
      | Free lnk \<Rightarrow> ucast (link_into_raw lnk))"

fun valid_header :: "header \<Rightarrow> bool" where
  "valid_header (Occupied ord) = valid_order ord"
| "valid_header (Free (Ptr p)) = (p \<noteq> NIL_MARKER)"
| "valid_header (Free Nil_link) = True"

lemma occupied_bit [simp]: "bit (0x100000000 :: u64) n \<longleftrightarrow> n = 32"
  using bit_exp_iff [where 'a = "64 word", of 32 n] by (auto simp: possible_bit_def)

lemma occupied_mask_set: "(ucast (d :: u32) OR 0x100000000 :: u64) AND 0x100000000 = 0x100000000"
  by (rule bit_word_eqI) (auto simp: bit_and_iff bit_or_iff)

lemma occupied_mask_clear: "(ucast (d :: u32) :: u64) AND 0x100000000 = 0"
  by (rule bit_word_eqI, simp only: bit_and_iff bit_unsigned_iff occupied_bit bit_0_eq)
    (auto dest: bit_imp_le_length)

lemma header_data_occupied: "(ucast (ucast (d :: u32) OR 0x100000000 :: u64) :: u32) = d"
  by (rule bit_word_eqI, simp only: bit_or_iff bit_unsigned_iff occupied_bit)
    (auto simp: possible_bit_def)

lemma header_data_free: "(ucast (ucast (d :: u32) :: u64) :: u32) = d"
  by (rule bit_word_eqI) (auto simp: bit_simps)

lemma link_from_into_raw: "(\<And>p. l = Ptr p \<Longrightarrow> p \<noteq> NIL_MARKER) \<Longrightarrow> link_from_raw (link_into_raw l) = l"
  by (cases l) (auto simp: link_from_raw_def)

lemma header_write_fits:
  "header_fits m p \<Longrightarrow> header_write_into h m p = Inr (write_at m p (header_raw h))"
  by (cases h) (simp_all add: header_write_into_def header_raw_def write_le_u64_fits)

lemma header_read_raw:
  assumes "valid_header h" "read_le_u64 m p = Inr (header_raw h)"
  shows "header_read_from m p = Inr h"
proof (cases h)
  case (Occupied ord)
  then show ?thesis
    using assms by (cases ord)
      (simp add: header_read_from_def header_raw_def occupied_mask_set header_data_occupied
        order_from_raw_lt [THEN iffD2])
next
  case (Free lnk)
  then have "link_from_raw (link_into_raw lnk) = lnk"
    using assms(1) by (intro link_from_into_raw) auto
  then show ?thesis
    using assms Free by (simp add: header_read_from_def header_raw_def occupied_mask_clear
        header_data_free)
qed

lemma header_read_written:
  "header_fits m p \<Longrightarrow> valid_header h \<Longrightarrow> header_read_from (write_at m p (header_raw h)) p = Inr h"
  by (rule header_read_raw) (simp_all add: read_write_same)

lemma header_read_apart:
  "header_fits m q \<Longrightarrow> unat p + 8 \<le> unat q \<or> unat q + 8 \<le> unat p \<Longrightarrow>
   header_read_from (write_at m p v) q = header_read_from m q"
  by (simp add: header_read_from_def read_write_apart)

lemma header_read_cong:
  assumes "header_fits m q" "mem_bytes m' = mem_bytes m"
    and "\<And>a. unat q \<le> unat a \<Longrightarrow> unat a < unat q + 8 \<Longrightarrow> mem_data m' a = mem_data m a"
  shows "header_read_from m' q = header_read_from m q"
  using read_le_u64_cong [OF assms] by (simp add: header_read_from_def)

lemma header_read_outside:
  "\<not> header_fits m p \<Longrightarrow> header_read_from m p = Inl (Other ''read out of heap bounds'')"
  by (simp add: header_read_from_def read_le_u64_def heap_range_eq)

lemma header_read_valid:
  assumes "header_read_from m p = Inr h"
  shows "header_fits m p \<and> valid_header h"
proof
  show "header_fits m p" using assms header_read_outside [of m p] by fastforce
  from assms show "valid_header h"
    by (auto simp: header_read_from_def order_from_raw_lt link_from_raw_def result_simps Let_def
        split: if_splits)
qed

subsection \<open>Growing memory\<close>

definition page_limit :: "memory \<Rightarrow> u32" where
  "page_limit m = (case mem_max_pages m of None \<Rightarrow> MAX_WASM_PAGES | Some p \<Rightarrow> p)"

text \<open>
  The documented contract of \<open>Memory::max_pages\<close>: at least the current pages, at most 65536.
\<close>

definition mem_ok :: "memory \<Rightarrow> bool" where
  "mem_ok m \<longleftrightarrow> mem_pages m \<le> page_limit m \<and> unat (page_limit m) \<le> 65536"

lemma mem_ok_bytes: "mem_ok m \<Longrightarrow> mem_bytes m \<le> 2 ^ 32"
  by (auto simp: mem_ok_def mem_bytes_def word_le_nat_alt)

lemma header_fits_grow:
  "header_fits m q \<Longrightarrow> mem_bytes m \<le> mem_bytes m' \<Longrightarrow> header_fits m' q"
  by (simp add: header_fits_def)

lemma header_read_grow:
  assumes "header_fits m q" and "mem_bytes m \<le> mem_bytes m'"
    and "\<And>a. unat a < mem_bytes m \<Longrightarrow> mem_data m' a = mem_data m a"
  shows "header_read_from m' q = header_read_from m q"
proof -
  have "map (\<lambda>i. mem_data m' (of_nat (unat q + i))) [0..<8] =
      map (\<lambda>i. mem_data m (of_nat (unat q + i))) [0..<8]"
  proof (rule map_cong [OF refl])
    fix i :: nat
    assume i: "i \<in> set [0..<8]"
    then have "unat (of_nat (unat q + i) :: u32) = unat q + i"
      using assms(1) by (intro unat_of_nat_small) (auto simp: header_fits_def)
    then show "mem_data m' (of_nat (unat q + i)) = mem_data m (of_nat (unat q + i))"
      using assms(1) i by (intro assms(3)) (auto simp: header_fits_def simp del: of_nat_add)
  qed
  moreover have "header_fits m' q" using assms(1,2) by (rule header_fits_grow)
  ultimately have "read_le_u64 m' q = read_le_u64 m q"
    using assms(1) by (simp only: read_le_u64_fits)
  then show ?thesis by (simp add: header_read_from_def)
qed

lemma mem_grow_Some:
  assumes grow: "mem_grow m n = Some m'" and le: "unat (mem_pages m) + unat n \<le> 65536"
  shows "mem_bytes m' = mem_bytes m + unat n * 65536"
    and "mem_pages m' = mem_pages m + n"
    and "page_limit m' = page_limit m"
    and "\<And>a. unat a < mem_bytes m \<Longrightarrow> mem_data m' a = mem_data m a"
proof -
  have m': "m' = m\<lparr>mem_pages := mem_pages m + n,
      mem_data := (\<lambda>a. if ucast a < mem_size m then mem_data m a else 0)\<rparr>"
    using grow by (simp add: mem_grow_def split: if_splits)
  have "unat (mem_pages m + n) = unat (mem_pages m) + unat n"
    using le by (intro unat_add_no_wrap) simp
  then show "mem_bytes m' = mem_bytes m + unat n * 65536"
    by (simp add: m' mem_bytes_def algebra_simps)
  show "mem_pages m' = mem_pages m + n" "page_limit m' = page_limit m"
    by (simp_all add: m' page_limit_def)
  show "mem_data m' a = mem_data m a" if "unat a < mem_bytes m" for a
    using that by (simp add: m' word_less_nat_alt)
qed

end
