(* ===== verification/Freeing_Bump_Inv.thy ===== *)
theory Freeing_Bump_Inv
  imports Freeing_Bump_Header
begin

text \<open>
  Correctness of the allocator.  The heap between the heap base and the bumper is tiled by
  chunks (a header and a block of an order); each chunk is either live, with an occupied header,
  or on the free list of its order.  Every operation keeps this layout, and blocks handed out are
  aligned, large enough and disjoint from every other live block.
\<close>

subsection \<open>Rounding\<close>

lemma unat_div_ceil:
  fixes a b :: "'a::len word"
  assumes "b \<noteq> 0"
  shows "unat (div_ceil a b) = unat a div unat b + (if unat a mod unat b = 0 then 0 else 1)"
proof (cases "a mod b = 0")
  case True
  then show ?thesis
    using unat_mod [of a b] by (simp add: div_ceil_def unat_div)
next
  case False
  then have r: "unat a mod unat b \<noteq> 0"
    using unat_mod [of a b] unat_eq_zero [of "a mod b"] by simp
  have "unat a div unat b + 1 \<le> unat a"
  proof -
    have "0 < unat b" using assms unat_eq_zero [of b] by (meson gr0I)
    moreover have "unat b \<noteq> 1" using r by auto
    ultimately have "2 \<le> unat b" by linarith
    then have "unat a div unat b * 2 \<le> unat a"
      by (metis div_times_less_eq_dividend le_trans mult_le_mono2)
    moreover have "unat a \<noteq> 0" using r by (metis mod_0)
    ultimately show ?thesis by linarith
  qed
  then have "unat a div unat b + 1 < 2 ^ LENGTH('a)"
    using unat_lt_exp [of a] by (rule le_less_trans)
  then have "unat (a div b + 1) = unat a div unat b + 1"
    by (subst unat_add_no_wrap) (simp_all add: unat_div)
  then show ?thesis
    using False r by (simp add: div_ceil_def Let_def word_gt_0)
qed

lemma div_ceil_bounds:
  fixes a b :: "'a::len word"
  assumes "b \<noteq> 0"
  shows "unat a \<le> unat (div_ceil a b) * unat b" "unat (div_ceil a b) * unat b < unat a + unat b"
proof -
  define q r where "q = unat a div unat b * unat b" and "r = unat a mod unat b"
  have b: "0 < unat b" using assms unat_eq_zero [of b] by (meson gr0I)
  then have "unat a = q + r" "r < unat b"
    by (simp_all add: q_def r_def)
  moreover have "unat (div_ceil a b) * unat b = q + (if r = 0 then 0 else unat b)"
    by (simp add: unat_div_ceil [OF assms] q_def r_def)
  ultimately show "unat a \<le> unat (div_ceil a b) * unat b"
    "unat (div_ceil a b) * unat b < unat a + unat b"
    using b by auto
qed

lemma pages_from_size_Some:
  assumes "pages_from_size n = Some p"
  shows "unat n \<le> unat p * 65536" "unat p * 65536 < unat n + 65536"
proof -
  let ?q = "div_ceil n (ucast PAGE_SIZE)"
  have b: "unat (ucast PAGE_SIZE :: u64) = 65536" by (simp add: PAGE_SIZE_def)
  have nz: "(ucast PAGE_SIZE :: u64) \<noteq> 0" by (simp add: PAGE_SIZE_def)
  have le: "?q \<le> ucast (- 1 :: u32)" and p: "p = ucast ?q"
    using assms by (auto simp: pages_from_size_def Let_def split: if_splits)
  have "unat ?q < 2 ^ 32"
    using le unat_lt_exp [of "- 1 :: u32"] unfolding word_le_nat_alt unat_ucast_u32_u64 by simp
  then have "unat p = unat ?q" by (simp add: p unsigned_ucast_eq take_bit_nat_eq_self)
  with div_ceil_bounds [OF nz, of n] b
  show "unat n \<le> unat p * 65536" "unat p * 65536 < unat n + 65536" by simp_all
qed

subsection \<open>Bumping\<close>

lemma bump_debug_assert:
  assumes "mem_ok m" "mem_size m < n" "pages_from_size n = Some p"
  shows "mem_pages m < p"
proof -
  have "mem_bytes m < unat n" using assms(2) by (simp add: word_less_nat_alt)
  with pages_from_size_Some(1) [OF assms(3)] have "mem_bytes m < unat p * 65536" by simp
  then show ?thesis by (simp add: mem_bytes_def word_less_nat_alt)
qed

text \<open>What \<open>bump\<close> leaves: an error and nothing changed, or room for the request.\<close>

definition bump_done :: "u32 \<Rightarrow> u32 \<Rightarrow> memory \<Rightarrow> (alloc_error + u32) \<times> u32 \<times> memory \<Rightarrow> bool" where
  "bump_done bmp sz m out \<longleftrightarrow>
     (case out of
        (Inl e, bmp', m') \<Rightarrow> e = AllocatorOutOfSpace \<and> bmp' = bmp \<and> m' = m
      | (Inr p, bmp', m') \<Rightarrow>
          p = bmp \<and> bmp' = bmp + sz \<and> mem_ok m' \<and> page_limit m' = page_limit m \<and>
          unat bmp + unat sz \<le> mem_bytes m' \<and> mem_bytes m \<le> mem_bytes m' \<and>
          (\<forall>a. unat a < mem_bytes m \<longrightarrow> mem_data m' a = mem_data m a))"

lemma bump_spec:
  assumes ok: "mem_ok m"
  shows "bump_done bmp sz m (bump bmp sz m)"
proof -
  define req :: u64 where "req = ucast bmp + ucast sz"
  have req: "unat req = unat bmp + unat sz"
    using unat_u32_lt [of bmp] unat_u32_lt [of sz]
    by (simp add: req_def unat_add_no_wrap)
  show ?thesis
  proof (cases "mem_size m < req")
    case False
    then have "unat bmp + unat sz \<le> mem_bytes m" using req by (simp add: word_less_nat_alt not_less)
    with False ok show ?thesis by (simp add: bump_def req_def [symmetric] bump_done_def)
  next
    case True
    show ?thesis
    proof (cases "pages_from_size req")
      case None
      with True show ?thesis by (simp add: bump_def req_def [symmetric] bump_done_def)
    next
      case (Some rp)
      let ?cur = "mem_pages m" and ?lim = "page_limit m"
      define nxt where "nxt = max (min (?cur * 2) ?lim) rp"
      have bump: "bump bmp sz m =
          (if ?cur \<ge> ?lim \<or> rp > ?lim then (Inl AllocatorOutOfSpace, bmp, m)
           else (case mem_grow m (nxt - ?cur) of
                   None \<Rightarrow> (Inl AllocatorOutOfSpace, bmp, m)
                 | Some m' \<Rightarrow> (Inr bmp, bmp + sz, m')))"
        using True Some
        by (simp add: bump_def req_def [symmetric] nxt_def Let_def page_limit_def)
      show ?thesis
      proof (cases "?cur \<ge> ?lim \<or> rp > ?lim \<or> mem_grow m (nxt - ?cur) = None")
        case True
        then show ?thesis by (auto simp: bump bump_done_def)
      next
        case False
        then obtain m' where m': "mem_grow m (nxt - ?cur) = Some m'" by auto
        have "?cur < rp" by (rule bump_debug_assert [OF ok True Some])
        then have le: "?cur \<le> nxt" "rp \<le> nxt" "nxt \<le> ?lim"
          using False by (auto simp: nxt_def le_max_iff_disj)
        then have diff: "unat (nxt - ?cur) = unat nxt - unat ?cur" by (intro unat_sub) simp
        have lim: "unat nxt \<le> 65536" using le ok by (auto simp: mem_ok_def word_le_nat_alt)
        have sum: "unat ?cur + unat (nxt - ?cur) = unat nxt"
          using le(1) diff by (simp add: word_le_nat_alt)
        note grown = mem_grow_Some [OF m'] and sum lim
        have bytes: "mem_bytes m' = unat nxt * 65536"
          using grown(1) sum lim diff le(1) by (simp add: mem_bytes_def add_mult_distrib [symmetric])
        have "mem_pages m' = nxt" using grown(2) sum lim by simp
        moreover have "unat bmp + unat sz \<le> unat rp * 65536"
          using pages_from_size_Some(1) [OF Some] req by simp
        moreover have "unat rp * 65536 \<le> unat nxt * 65536" using le by (simp add: word_le_nat_alt)
        ultimately show ?thesis
          using False m' bytes grown sum lim le ok
          by (auto simp: bump bump_done_def mem_ok_def mem_bytes_def word_le_nat_alt)
      qed
    qed
  qed
qed

subsection \<open>The layout of the heap\<close>

type_synonym chunk = "u32 \<times> order"

fun tiles :: "nat \<Rightarrow> chunk list \<Rightarrow> nat \<Rightarrow> bool" where
  "tiles b [] e \<longleftrightarrow> b = e"
| "tiles b ((p, ord) # cs) e \<longleftrightarrow> unat p = b \<and> valid_order ord \<and> tiles (b + chunk_len ord) cs e"

lemma tiles_append: "tiles b (cs @ ds) e \<longleftrightarrow> (\<exists>k. tiles b cs k \<and> tiles k ds e)"
  by (induction b cs e rule: tiles.induct) auto

lemma tiles_le: "tiles b cs e \<Longrightarrow> b \<le> e"
  by (induction b cs e rule: tiles.induct) auto

lemma tiles_member:
  "tiles b cs e \<Longrightarrow> (p, ord) \<in> set cs \<Longrightarrow>
   b \<le> unat p \<and> unat p + chunk_len ord \<le> e \<and> valid_order ord"
  by (induction b cs e rule: tiles.induct) (auto dest: tiles_le)

lemma tiles_aligned:
  "tiles b cs e \<Longrightarrow> b mod 8 = 0 \<Longrightarrow> (p, ord) \<in> set cs \<Longrightarrow> unat p mod 8 = 0"
proof (induction b cs e rule: tiles.induct)
  case (2 b q o' cs e)
  moreover have "(b + chunk_len o') mod 8 = 0"
    using "2.prems" by (simp add: chunk_len_def block_len_def mod_add_eq [symmetric])
  ultimately show ?case by auto
qed simp

lemma tiles_apart:
  "tiles b cs e \<Longrightarrow> (p, o1) \<in> set cs \<Longrightarrow> (q, o2) \<in> set cs \<Longrightarrow>
   (p, o1) = (q, o2) \<or> unat p + chunk_len o1 \<le> unat q \<or> unat q + chunk_len o2 \<le> unat p"
proof (induction b cs e rule: tiles.induct)
  case (2 b r o' cs e)
  then have r: "unat r = b" and rest: "tiles (b + chunk_len o') cs e" by auto
  have "(x, ox) \<in> set cs \<Longrightarrow> unat r + chunk_len o' \<le> unat x" for x ox
    using tiles_member [OF rest, of x ox] r by simp
  with "2" show ?case by auto
qed simp

lemma tiles_unique_order:
  assumes "tiles b cs e" "(p, o1) \<in> set cs" "(p, o2) \<in> set cs"
  shows "o1 = o2"
  using tiles_apart [OF assms] by (auto simp: chunk_len_def)

lemma tiles_distinct: "tiles b cs e \<Longrightarrow> distinct cs"
  by (induction b cs e rule: tiles.induct)
    (auto dest!: tiles_member simp: chunk_len_def)

lemma tiles_headers_apart:
  assumes "tiles b cs e" "(p, o1) \<in> set cs" "(q, o2) \<in> set cs" "p \<noteq> q"
  shows "unat p + 8 \<le> unat q \<or> unat q + 8 \<le> unat p"
  using tiles_apart [OF assms(1-3)] assms(4) by (auto simp: chunk_len_def)

subsection \<open>Free lists in memory\<close>

fun free_chain :: "memory \<Rightarrow> link \<Rightarrow> u32 list \<Rightarrow> bool" where
  "free_chain m l [] \<longleftrightarrow> l = Nil_link"
| "free_chain m l (p # ps) \<longleftrightarrow>
     l = Ptr p \<and> (\<exists>nxt. header_read_from m p = Inr (Free nxt) \<and> free_chain m nxt ps)"

lemma free_chain_cong:
  "(\<And>p. p \<in> set ps \<Longrightarrow> header_read_from m' p = header_read_from m p) \<Longrightarrow>
   free_chain m' l ps = free_chain m l ps"
  by (induction ps arbitrary: l) auto

lemma free_chain_Nil_link [simp]: "free_chain m Nil_link ps \<longleftrightarrow> ps = []"
  by (cases ps) auto

lemma free_chain_Ptr:
  "free_chain m (Ptr p) ps \<longleftrightarrow>
   (\<exists>nxt qs. ps = p # qs \<and> header_read_from m p = Inr (Free nxt) \<and> free_chain m nxt qs)"
  by (cases ps) auto

subsection \<open>The invariant\<close>

text \<open>
  \<open>cs\<close> lists the chunks from the heap base up, \<open>fr i\<close> the headers on the free list of order \<open>i\<close>.
\<close>

definition is_free :: "(nat \<Rightarrow> u32 list) \<Rightarrow> chunk \<Rightarrow> bool" where
  "is_free fr c \<longleftrightarrow> fst c \<in> set (fr (unat (order_into_raw (snd c))))"

definition live :: "chunk list \<Rightarrow> (nat \<Rightarrow> u32 list) \<Rightarrow> chunk set" where
  "live cs fr = {c \<in> set cs. \<not> is_free fr c}"

definition layout_ok :: "allocator \<Rightarrow> memory \<Rightarrow> chunk list \<Rightarrow> bool" where
  "layout_ok a m cs \<longleftrightarrow>
     mem_ok m \<and> unat (page_limit m) < 65536 \<and>
     unat (original_heap_base a) mod 8 = 0 \<and>
     tiles (unat (original_heap_base a)) cs (unat (bumper a)) \<and>
     unat (bumper a) \<le> mem_bytes m"

definition free_lists_ok :: "allocator \<Rightarrow> memory \<Rightarrow> chunk list \<Rightarrow> (nat \<Rightarrow> u32 list) \<Rightarrow> bool" where
  "free_lists_ok a m cs fr \<longleftrightarrow>
     length (heads (free_lists a)) = N_ORDERS \<and>
     (\<forall>i < N_ORDERS. free_chain m (heads (free_lists a) ! i) (fr i) \<and> distinct (fr i) \<and>
        (\<forall>p \<in> set (fr i). (p, Order (of_nat i)) \<in> set cs))"

definition live_ok :: "memory \<Rightarrow> chunk list \<Rightarrow> (nat \<Rightarrow> u32 list) \<Rightarrow> bool" where
  "live_ok m cs fr \<longleftrightarrow>
     (\<forall>(p, ord) \<in> live cs fr. header_read_from m p = Inr (Occupied ord))"

definition stats_ok :: "allocator \<Rightarrow> chunk list \<Rightarrow> (nat \<Rightarrow> u32 list) \<Rightarrow> bool" where
  "stats_ok a cs fr \<longleftrightarrow>
     unat (bytes_allocated (stats a)) = (\<Sum>c \<in> live cs fr. chunk_len (snd c)) \<and>
     bytes_allocated (stats a) \<le> bytes_allocated_peak (stats a) \<and>
     address_space_used (stats a) = bumper a - original_heap_base a"

definition alloc_inv :: "allocator \<Rightarrow> memory \<Rightarrow> chunk list \<Rightarrow> (nat \<Rightarrow> u32 list) \<Rightarrow> bool" where
  "alloc_inv a m cs fr \<longleftrightarrow>
     \<not> poisoned a \<and> last_observed_memory_size a \<le> mem_size m \<and>
     layout_ok a m cs \<and> free_lists_ok a m cs fr \<and> live_ok m cs fr \<and> stats_ok a cs fr"

lemma finite_live [simp]: "finite (live cs fr)"
  by (simp add: live_def)

lemma live_in: "c \<in> live cs fr \<Longrightarrow> c \<in> set cs"
  by (simp add: live_def)

lemma sum_tiles: "tiles b cs e \<Longrightarrow> (\<Sum>c \<in> set cs. chunk_len (snd c)) = e - b"
proof (induction b cs e rule: tiles.induct)
  case (2 b p ord cs e)
  then have "(p, ord) \<notin> set cs" using tiles_distinct [OF "2.prems"] by simp
  moreover have "b + chunk_len ord \<le> e" using "2.prems" tiles_le by auto
  ultimately show ?case using "2" by auto
qed simp

lemma sum_live_le:
  assumes "tiles b cs e" "A \<subseteq> set cs"
  shows "(\<Sum>c \<in> A. chunk_len (snd c)) \<le> e - b"
  using sum_mono2 [of "set cs" A "\<lambda>c. chunk_len (snd c)"] assms sum_tiles [OF assms(1)] by simp

lemma layout_tiles:
  "layout_ok a m cs \<Longrightarrow> tiles (unat (original_heap_base a)) cs (unat (bumper a))"
  by (simp add: layout_ok_def)

lemma layout_chunk:
  assumes "layout_ok a m cs" "(p, ord) \<in> set cs"
  shows "unat (original_heap_base a) \<le> unat p" "unat p + chunk_len ord \<le> unat (bumper a)"
    "valid_order ord" "header_fits m p" "p \<noteq> NIL_MARKER" "unat p mod 8 = 0"
    "unat (p + HEADER_SIZE) = unat p + 8"
proof -
  have t: "tiles (unat (original_heap_base a)) cs (unat (bumper a))" and
    b: "unat (bumper a) \<le> mem_bytes m" and al: "unat (original_heap_base a) mod 8 = 0"
    using assms(1) by (simp_all add: layout_ok_def)
  show base: "unat (original_heap_base a) \<le> unat p" and e: "unat p + chunk_len ord \<le> unat (bumper a)"
    and "valid_order ord"
    using tiles_member [OF t assms(2)] by auto
  show "unat p mod 8 = 0" by (rule tiles_aligned [OF t al assms(2)])
  have p: "unat p + 8 < 2 ^ 32"
    using e unat_u32_lt [of "bumper a"] block_len_ge [of ord] by (simp add: chunk_len_def)
  then show "header_fits m p" using e b by (simp add: header_fits_def chunk_len_def)
  show "p \<noteq> NIL_MARKER" using p by (auto simp: NIL_MARKER_def unat_max_word)
  show "unat (p + HEADER_SIZE) = unat p + 8"
    using p by (subst unat_add_no_wrap) (simp_all add: HEADER_SIZE_def)
qed

lemma order_Order [simp]: "Order (order_into_raw ord) = ord"
  by (cases ord) simp

lemma free_member:
  assumes "free_lists_ok a m cs fr" "valid_order ord" "p \<in> set (fr (unat (order_into_raw ord)))"
  shows "(p, ord) \<in> set cs"
  using assms by (auto simp: free_lists_ok_def valid_order_def dest!: spec bspec)

lemma free_lists_okD:
  assumes "free_lists_ok a m cs fr" "valid_order ord"
  defines "i \<equiv> unat (order_into_raw ord)"
  shows "free_chain m (free_lists_index (free_lists a) ord) (fr i)" "distinct (fr i)"
    "i < length (heads (free_lists a))"
  using assms by (auto simp: free_lists_ok_def valid_order_def free_lists_index_def i_def)

text \<open>Between the choice of a header and the write of its occupied header.\<close>

definition alloc_pending ::
  "allocator \<Rightarrow> memory \<Rightarrow> chunk list \<Rightarrow> (nat \<Rightarrow> u32 list) \<Rightarrow> u32 \<Rightarrow> order \<Rightarrow> bool" where
  "alloc_pending a m cs fr p ord \<longleftrightarrow>
     \<not> poisoned a \<and> last_observed_memory_size a \<le> mem_size m \<and>
     layout_ok a m cs \<and> free_lists_ok a m cs fr \<and> (p, ord) \<in> live cs fr \<and>
     (\<forall>(q, oq) \<in> live cs fr. q \<noteq> p \<longrightarrow> header_read_from m q = Inr (Occupied oq)) \<and>
     unat (bytes_allocated (stats a)) = (\<Sum>c \<in> live cs fr - {(p, ord)}. chunk_len (snd c)) \<and>
     bytes_allocated (stats a) \<le> bytes_allocated_peak (stats a)"

lemma write_at_mem [simp]:
  "page_limit (write_at m p v) = page_limit m" "mem_ok (write_at m p v) = mem_ok m"
  "mem_size (write_at m p v) = mem_size m"
  by (simp_all add: page_limit_def mem_ok_def mem_size_def)

lemma layout_write_at [simp]: "layout_ok a (write_at m p v) cs = layout_ok a m cs"
  by (simp add: layout_ok_def)

lemma layout_reads_kept:
  assumes "layout_ok a m cs" "(p, o1) \<in> set cs" "(q, o2) \<in> set cs" "q \<noteq> p"
  shows "header_read_from (write_at m p v) q = header_read_from m q"
proof (rule header_read_apart)
  show "header_fits m q" by (rule layout_chunk [OF assms(1,3)])
  show "unat p + 8 \<le> unat q \<or> unat q + 8 \<le> unat p"
    by (rule tiles_headers_apart [OF layout_tiles [OF assms(1)] assms(2,3)]) (use assms(4) in simp)
qed

lemma live_not_free:
  assumes lay: "layout_ok a m cs" and fl: "free_lists_ok a m cs fr"
    and p: "(p, ord) \<in> live cs fr" and i: "i < N_ORDERS"
  shows "p \<notin> set (fr i)"
proof
  assume f: "p \<in> set (fr i)"
  then have "(p, Order (of_nat i)) \<in> set cs" using fl i by (auto simp: free_lists_ok_def)
  then have "ord = Order (of_nat i)"
    using lay tiles_unique_order live_in [OF p] unfolding layout_ok_def by blast
  moreover have "unat (of_nat i :: u32) = i" using i by (intro unat_of_nat_small) (simp add: N_ORDERS_def)
  ultimately show False using p f by (simp add: live_def is_free_def)
qed

lemma free_lists_ok_write_live:
  assumes lay: "layout_ok a m cs" and fl: "free_lists_ok a m cs fr" and p: "(p, ord) \<in> live cs fr"
  shows "free_lists_ok a (write_at m p v) cs fr"
proof -
  have "free_chain (write_at m p v) l (fr i) = free_chain m l (fr i)" if i: "i < N_ORDERS" for i l
  proof (rule free_chain_cong)
    fix q
    assume q: "q \<in> set (fr i)"
    then have "(q, Order (of_nat i)) \<in> set cs" using fl i by (auto simp: free_lists_ok_def)
    moreover have "q \<noteq> p" using live_not_free [OF lay fl p i] q by auto
    ultimately show "header_read_from (write_at m p v) q = header_read_from m q"
      using layout_reads_kept [OF lay live_in [OF p]] by blast
  qed
  then show ?thesis using fl by (simp add: free_lists_ok_def)
qed

lemma sum_live_lt:
  assumes lay: "layout_ok a m cs" and A: "A \<subseteq> set cs"
  shows "(\<Sum>c \<in> A. chunk_len (snd c)) < 2 ^ 32"
proof -
  have "(\<Sum>c \<in> A. chunk_len (snd c)) \<le> unat (bumper a) - unat (original_heap_base a)"
    using lay sum_live_le [OF _ A] by (auto simp: layout_ok_def)
  also have "\<dots> < 2 ^ 32" using unat_u32_lt [of "bumper a"] by simp
  finally show ?thesis .
qed

lemma alloc_stats_fields [simp]:
  "bytes_allocated (allocate_stats a ord) = bytes_allocated (stats a) + (order_size ord + HEADER_SIZE)"
  "bytes_allocated_peak (allocate_stats a ord) =
     max (bytes_allocated_peak (stats a)) (bytes_allocated (stats a) + (order_size ord + HEADER_SIZE))"
  "address_space_used (allocate_stats a ord) = bumper a - original_heap_base a"
  by (simp_all add: allocate_stats_def Let_def)

lemma occupy_inv:
  assumes "alloc_pending a m cs fr p ord"
  shows "alloc_inv (a\<lparr>stats := allocate_stats a ord\<rparr>)
           (write_at m p (header_raw (Occupied ord))) cs fr"
proof -
  let ?m = "write_at m p (header_raw (Occupied ord))" and ?a = "a\<lparr>stats := allocate_stats a ord\<rparr>"
  have lay: "layout_ok a m cs" and fl: "free_lists_ok a m cs fr" and p: "(p, ord) \<in> live cs fr"
    and rest: "\<And>q oq. (q, oq) \<in> live cs fr \<Longrightarrow> q \<noteq> p \<Longrightarrow> header_read_from m q = Inr (Occupied oq)"
    and bytes: "unat (bytes_allocated (stats a)) = (\<Sum>c \<in> live cs fr - {(p, ord)}. chunk_len (snd c))"
    using assms by (auto simp: alloc_pending_def)
  note pc = layout_chunk [OF lay live_in [OF p]]
  have total: "(\<Sum>c \<in> live cs fr. chunk_len (snd c)) =
      chunk_len ord + (\<Sum>c \<in> live cs fr - {(p, ord)}. chunk_len (snd c))"
    using p by (simp add: sum.remove)
  have "live_ok ?m cs fr"
  proof (unfold live_ok_def, clarify)
    fix q oq
    assume q: "(q, oq) \<in> live cs fr"
    show "header_read_from ?m q = Inr (Occupied oq)"
    proof (cases "q = p")
      case True
      then have "oq = ord"
        using tiles_unique_order live_in [OF p] live_in [OF q] lay unfolding layout_ok_def by blast
      then show ?thesis using True pc header_read_written [of m p "Occupied ord"] by simp
    next
      case False
      then show ?thesis
        using layout_reads_kept [OF lay live_in [OF p] live_in [OF q]] rest [OF q] by simp
    qed
  qed
  moreover have "stats_ok ?a cs fr"
  proof -
    have "unat (bytes_allocated (stats a)) + unat (order_size ord + HEADER_SIZE) < 2 ^ 32"
      using sum_live_lt [OF lay, of "live cs fr"] total bytes unat_chunk_size [OF pc(3)]
      by (auto simp: live_def)
    then have "unat (bytes_allocated (stats a) + (order_size ord + HEADER_SIZE)) =
        (\<Sum>c \<in> live cs fr. chunk_len (snd c))"
      using total bytes unat_chunk_size [OF pc(3)] by (subst unat_add_no_wrap) simp_all
    then show ?thesis by (simp add: stats_ok_def)
  qed
  moreover have "free_lists_ok ?a ?m cs fr"
    using free_lists_ok_write_live [OF lay fl p] by (simp add: free_lists_ok_def)
  moreover have "layout_ok ?a ?m cs" using lay by (simp add: layout_ok_def)
  ultimately show ?thesis using assms by (simp add: alloc_inv_def alloc_pending_def)
qed

subsection \<open>Choosing a header\<close>

lemma valid_order_index: "valid_order ord \<Longrightarrow> unat (order_into_raw ord) < N_ORDERS"
  by (simp add: valid_order_def)

lemma is_free_upd:
  assumes "fr i = p # ps" "distinct (p # ps)" "i = unat (order_into_raw ord)"
  shows "is_free (fr(i := ps)) c \<longleftrightarrow> is_free fr c \<and> c \<noteq> (p, ord)"
proof (cases c)
  case (Pair q oq)
  show ?thesis
  proof (cases "unat (order_into_raw oq) = i")
    case True
    then have "oq = ord" using assms(3) by (metis order_Order unsigned_word_eqI)
    with Pair assms show ?thesis by (auto simp: is_free_def)
  next
    case False
    with Pair assms show ?thesis by (auto simp: is_free_def)
  qed
qed

lemma allocate_header_pop:
  assumes inv: "alloc_inv a m cs fr" and v: "valid_order ord"
    and hd: "free_lists_index (free_lists a) ord = Ptr p"
  obtains nxt ps where
    "allocate_header a m ord =
       (Inr p, a\<lparr>free_lists := free_lists_index_mut (free_lists a) ord nxt\<rparr>, m)"
    "(p, ord) \<in> set cs" "(p, ord) \<notin> live cs fr"
    "alloc_pending (a\<lparr>free_lists := free_lists_index_mut (free_lists a) ord nxt\<rparr>) m cs
       (fr(unat (order_into_raw ord) := ps)) p ord"
    "live cs (fr(unat (order_into_raw ord) := ps)) = insert (p, ord) (live cs fr)"
proof -
  let ?i = "unat (order_into_raw ord)"
  have lay: "layout_ok a m cs" and fl: "free_lists_ok a m cs fr" and lv: "live_ok m cs fr"
    and st: "stats_ok a cs fr"
    using inv by (auto simp: alloc_inv_def)
  note fld = free_lists_okD [OF fl v]
  from fld(1) hd obtain nxt ps where fr: "fr ?i = p # ps"
    and h: "header_read_from m p = Inr (Free nxt)" and ch: "free_chain m nxt ps"
    by (auto simp: free_chain_Ptr)
  let ?a = "a\<lparr>free_lists := free_lists_index_mut (free_lists a) ord nxt\<rparr>" and ?fr = "fr(?i := ps)"
  have p: "(p, ord) \<in> set cs" using free_member [OF fl v] fr by simp
  have dead: "(p, ord) \<notin> live cs fr" using fr by (simp add: live_def is_free_def)
  have isf: "is_free ?fr c \<longleftrightarrow> is_free fr c \<and> c \<noteq> (p, ord)" for c
    using is_free_upd [of fr ?i p ps ord c] fld(2) fr by simp
  have live: "live cs ?fr = insert (p, ord) (live cs fr)"
    using p by (auto simp: live_def isf)
  note pc = layout_chunk [OF lay p]
  have "unat (ucast p + ucast (order_size ord) + ucast HEADER_SIZE :: u64) = unat p + chunk_len ord"
    using pc unat_u32_lt [of p] block_len_le [OF v]
    by (simp add: unat_add_no_wrap unat_order_size [OF v] chunk_len_def HEADER_SIZE_def)
  then have "\<not> (ucast p + ucast (order_size ord) + ucast HEADER_SIZE :: u64) > mem_size m"
    using pc lay by (simp add: word_less_nat_alt layout_ok_def)
  then have eq: "allocate_header a m ord = (Inr p, ?a, m)"
    by (simp add: allocate_header_def hd h)
  have "free_lists_ok ?a m cs ?fr"
    using fl fld(2,3) ch fr
    by (auto simp: free_lists_ok_def free_lists_index_mut_def nth_list_update)
  moreover have "live cs fr - {(p, ord)} = live cs fr" using dead by simp
  ultimately have "alloc_pending ?a m cs ?fr p ord"
    using inv live lay lv st dead
    by (auto simp: alloc_pending_def alloc_inv_def live_ok_def stats_ok_def layout_ok_def)
  from that [OF eq p dead this live] show thesis .
qed

lemma layout_grow:
  assumes lay: "layout_ok a m cs" and ok: "mem_ok m'" "page_limit m' = page_limit m"
    and le: "mem_bytes m \<le> mem_bytes m'"
  shows "layout_ok a m' cs"
  using assms by (simp add: layout_ok_def)

lemma allocate_header_bump:
  assumes inv: "alloc_inv a m cs fr" and v: "valid_order ord"
    and hd: "free_lists_index (free_lists a) ord = Nil_link"
    and eq: "allocate_header a m ord = (Inr p, a', m')"
  shows "p = bumper a" "a' = a\<lparr>bumper := bumper a + (order_size ord + HEADER_SIZE)\<rparr>"
    "alloc_pending a' m' (cs @ [(p, ord)]) fr p ord"
    "live (cs @ [(p, ord)]) fr = insert (p, ord) (live cs fr)" "(p, ord) \<notin> live cs fr"
    "page_limit m' = page_limit m" "mem_bytes m \<le> mem_bytes m'"
    "\<And>x. unat x < mem_bytes m \<Longrightarrow> mem_data m' x = mem_data m x"
proof -
  let ?cs = "cs @ [(p, ord)]"
  have lay: "layout_ok a m cs" and fl: "free_lists_ok a m cs fr" and lv: "live_ok m cs fr"
    and st: "stats_ok a cs fr" and ok: "mem_ok m"
    using inv by (auto simp: alloc_inv_def layout_ok_def)
  have b: "bump_done (bumper a) (order_size ord + HEADER_SIZE) m
      (bump (bumper a) (order_size ord + HEADER_SIZE) m)"
    by (rule bump_spec [OF ok])
  from eq hd b show pb: "p = bumper a" and a': "a' = a\<lparr>bumper := bumper a + (order_size ord + HEADER_SIZE)\<rparr>"
    and lim: "page_limit m' = page_limit m" and le: "mem_bytes m \<le> mem_bytes m'"
    and data: "\<And>x. unat x < mem_bytes m \<Longrightarrow> mem_data m' x = mem_data m x"
    by (auto simp: allocate_header_def bump_done_def split: prod.splits sum.splits)
  from eq hd b have ok': "mem_ok m'" and room: "unat (bumper a) + chunk_len ord \<le> mem_bytes m'"
    by (auto simp: allocate_header_def bump_done_def unat_chunk_size [OF v] split: prod.splits sum.splits)
  have "mem_bytes m' < 2 ^ 32"
    using ok' lim lay by (auto simp: mem_ok_def layout_ok_def mem_bytes_def word_le_nat_alt)
  then have top: "unat (bumper a') = unat (bumper a) + chunk_len ord"
    using room by (simp add: a' unat_add_no_wrap unat_chunk_size [OF v])
  have lay': "layout_ok a' m' ?cs"
    using lay ok' lim room top v pb by (auto simp: layout_ok_def a' tiles_append)
  have fresh: "(p, oq) \<notin> set cs" for oq
    using layout_chunk(2) [OF lay, of p oq] pb by (auto simp: chunk_len_def)
  have nf: "\<not> is_free fr (p, ord)"
    using free_member [OF fl v] fresh by (auto simp: is_free_def)
  show dead: "(p, ord) \<notin> live cs fr" using fresh by (simp add: live_def)
  show live: "live ?cs fr = insert (p, ord) (live cs fr)" using nf by (auto simp: live_def)
  have reads: "header_read_from m' q = header_read_from m q" if "(q, oq) \<in> set cs" for q oq
    using layout_chunk(4) [OF lay that] le data by (rule header_read_grow)
  have "free_lists_ok a' m' ?cs fr"
  proof -
    have "free_chain m' l (fr i) = free_chain m l (fr i)" if "i < N_ORDERS" for i l
      using fl that by (intro free_chain_cong) (auto simp: free_lists_ok_def intro: reads)
    then show ?thesis using fl by (auto simp: free_lists_ok_def a')
  qed
  moreover have "\<forall>(q, oq) \<in> live ?cs fr. q \<noteq> p \<longrightarrow> header_read_from m' q = Inr (Occupied oq)"
    using lv live reads live_in [of _ cs fr] by (fastforce simp: live_ok_def)
  moreover have "last_observed_memory_size a' \<le> mem_size m'"
    using inv le by (simp add: alloc_inv_def a' word_le_nat_alt)
  ultimately show "alloc_pending a' m' ?cs fr p ord"
    using inv lay' live dead st by (simp add: alloc_pending_def alloc_inv_def stats_ok_def a')
qed

subsection \<open>Allocation\<close>

lemma alloc_inv_observed:
  "alloc_inv a m cs fr \<Longrightarrow> alloc_inv (a\<lparr>last_observed_memory_size := mem_size m\<rparr>) m cs fr"
  by (simp add: alloc_inv_def layout_ok_def free_lists_ok_def live_ok_def stats_ok_def)

lemma observe_ok: "alloc_inv a m cs fr \<Longrightarrow>
  observe_memory_size (last_observed_memory_size a) m = Inr (mem_size m)"
  by (simp add: observe_memory_size_def alloc_inv_def not_less)

text \<open>\<open>untouched\<close>: the blocks of the live chunks hold the same bytes.\<close>

definition untouched :: "chunk set \<Rightarrow> memory \<Rightarrow> memory \<Rightarrow> bool" where
  "untouched L m m' \<longleftrightarrow>
     (\<forall>(q, oq) \<in> L. \<forall>x. unat q + 8 \<le> unat x \<and> unat x < unat q + chunk_len oq \<longrightarrow>
        mem_data m' x = mem_data m x)"

lemma untouched_write:
  assumes t: "tiles b cs e" and p: "(p, ord) \<in> set cs" and L: "L \<subseteq> set cs"
    and d: "untouched L m m1"
  shows "untouched L m (write_at m1 p v)"
proof (unfold untouched_def, clarify)
  fix q :: u32 and oq and x :: u32
  assume q: "(q, oq) \<in> L" and x: "unat q + 8 \<le> unat x" "unat x < unat q + chunk_len oq"
  have "\<not> (unat p \<le> unat x \<and> unat x < unat p + 8)"
    using tiles_apart [OF t p, of q oq] q L x by (auto simp: chunk_len_def)
  with q x d show "mem_data (write_at m1 p v) x = mem_data m x"
    by (auto simp: write_at_def untouched_def)
qed

text \<open>The effect of a successful allocation on the layout.\<close>

definition alloc_effect ::
  "allocator \<Rightarrow> memory \<Rightarrow> chunk list \<Rightarrow> (nat \<Rightarrow> u32 list) \<Rightarrow> u32 \<Rightarrow> u32 \<Rightarrow> order \<Rightarrow>
   allocator \<Rightarrow> memory \<Rightarrow> chunk list \<Rightarrow> (nat \<Rightarrow> u32 list) \<Rightarrow> bool" where
  "alloc_effect a m cs fr sz p ord a' m' cs' fr' \<longleftrightarrow>
     valid_order ord \<and> unat sz \<le> block_len ord \<and>
     alloc_inv a' m' cs' fr' \<and> (p, ord) \<notin> live cs fr \<and>
     live cs' fr' = insert (p, ord) (live cs fr) \<and>
     original_heap_base a' = original_heap_base a \<and> untouched (live cs fr) m m'"

lemma header_write_pending:
  "alloc_pending a m cs fr p ord \<Longrightarrow>
   header_write_into (Occupied ord) m p = Inr (write_at m p (header_raw (Occupied ord)))"
  by (intro header_write_fits layout_chunk(4)) (auto simp: alloc_pending_def live_def)

lemma allocate_armed_pending:
  assumes inv: "alloc_inv a m cs fr" and v: "order_from_size sz = Inr ord"
    and hdr: "allocate_header (a\<lparr>last_observed_memory_size := mem_size m\<rparr>) m ord = (Inr p, a1, m1)"
    and pend: "alloc_pending a1 m1 cs1 fr1 p ord"
  shows "allocate a m sz = (Inr (p + HEADER_SIZE), a1\<lparr>stats := allocate_stats a1 ord\<rparr>,
           write_at m1 p (header_raw (Occupied ord)))"
  using inv v hdr header_write_pending [OF pend] observe_ok [OF inv]
  by (simp add: allocate_def allocate_armed_def poison_bomb_def alloc_inv_def)

lemma allocate_cases:
  assumes inv: "alloc_inv a m cs fr" and v: "order_from_size sz = Inr ord"
  shows "(\<exists>p a' m' cs' fr'. allocate a m sz = (Inr (p + HEADER_SIZE), a', m') \<and>
            alloc_effect a m cs fr sz p ord a' m' cs' fr') \<or>
         allocate a m sz =
           (Inl AllocatorOutOfSpace, a\<lparr>last_observed_memory_size := mem_size m, poisoned := True\<rparr>, m)"
proof -
  let ?a = "a\<lparr>last_observed_memory_size := mem_size m\<rparr>"
  have inv1: "alloc_inv ?a m cs fr" by (rule alloc_inv_observed [OF inv])
  have vo: "valid_order ord" and len: "unat sz \<le> block_len ord" using order_from_size_lt [OF v] by auto
  have lay: "layout_ok a m cs" using inv by (simp add: alloc_inv_def)
  have sub: "live cs fr \<subseteq> set cs" by (auto simp: live_def)
  show ?thesis
  proof (cases "free_lists_index (free_lists ?a) ord")
    case (Ptr p)
    obtain nxt ps where hdr: "allocate_header ?a m ord =
          (Inr p, ?a\<lparr>free_lists := free_lists_index_mut (free_lists ?a) ord nxt\<rparr>, m)"
      and p: "(p, ord) \<in> set cs" "(p, ord) \<notin> live cs fr"
      and pend: "alloc_pending (?a\<lparr>free_lists := free_lists_index_mut (free_lists ?a) ord nxt\<rparr>) m cs
        (fr(unat (order_into_raw ord) := ps)) p ord"
      and live: "live cs (fr(unat (order_into_raw ord) := ps)) = insert (p, ord) (live cs fr)"
      by (rule allocate_header_pop [OF inv1 vo Ptr])
    have "untouched (live cs fr) m (write_at m p (header_raw (Occupied ord)))"
      by (rule untouched_write [OF layout_tiles [OF lay] p(1) sub]) (simp add: untouched_def)
    then show ?thesis
      using allocate_armed_pending [OF inv v hdr pend] occupy_inv [OF pend] vo len p live
      by (intro disjI1) (auto simp: alloc_effect_def)
  next
    case Nil_link
    obtain r a1 m1 where hdr: "allocate_header ?a m ord = (r, a1, m1)" by (rule prod_cases3)
    show ?thesis
    proof (cases r)
      case (Inl e)
      have "mem_ok m" using lay by (simp add: layout_ok_def)
      from bump_spec [OF this, of "bumper a" "order_size ord + HEADER_SIZE"] hdr Nil_link Inl
      have "e = AllocatorOutOfSpace" "a1 = ?a" "m1 = m"
        by (auto simp: allocate_header_def bump_done_def split: prod.splits)
      then show ?thesis
        using inv v hdr Inl observe_ok [OF inv]
        by (intro disjI2) (simp add: allocate_def allocate_armed_def poison_bomb_def alloc_inv_def)
    next
      case (Inr p)
      note b = allocate_header_bump [OF inv1 vo Nil_link hdr [unfolded Inr]]
      have "tiles (unat (original_heap_base a1)) (cs @ [(p, ord)]) (unat (bumper a1))"
        using b(3) unfolding alloc_pending_def by (blast intro: layout_tiles)
      moreover have "untouched (live cs fr) m m1"
      proof (unfold untouched_def, clarify)
        fix q :: u32 and oq and x :: u32
        assume "(q, oq) \<in> live cs fr" "unat x < unat q + chunk_len oq"
        then have "unat x < mem_bytes m"
          using layout_chunk(2) [OF lay live_in, of q oq] lay by (fastforce simp: layout_ok_def)
        then show "mem_data m1 x = mem_data m x" by (rule b(8))
      qed
      ultimately have "untouched (live cs fr) m (write_at m1 p (header_raw (Occupied ord)))"
        using sub by (intro untouched_write [where cs = "cs @ [(p, ord)]" and ord = ord]) auto
      moreover have "original_heap_base a1 = original_heap_base a" using b(2) by simp
      ultimately show ?thesis
        using allocate_armed_pending [OF inv v hdr [unfolded Inr] b(3)] occupy_inv [OF b(3)]
          b(4,5) vo len
        by (intro disjI1) (auto simp: alloc_effect_def)
    qed
  qed
qed

subsection \<open>Deallocation\<close>

lemma checked_sub_header: "unat (p + HEADER_SIZE) = unat p + 8 \<Longrightarrow> checked_sub (p + HEADER_SIZE) HEADER_SIZE = Some p"
  by (simp add: checked_sub_def word_le_nat_alt HEADER_SIZE_def)

lemma free_lists_push:
  assumes lay: "layout_ok a m cs" and fl: "free_lists_ok a m cs fr" and p: "(p, ord) \<in> live cs fr"
  defines "i \<equiv> unat (order_into_raw ord)"
  defines "prev \<equiv> free_lists_index (free_lists a) ord"
  shows "valid_header (Free prev)"
    and "free_lists_ok (a\<lparr>free_lists := free_lists_index_mut (free_lists a) ord (Ptr p)\<rparr>)
           (write_at m p (header_raw (Free prev))) cs (fr(i := p # fr i))"
proof -
  let ?m = "write_at m p (header_raw (Free prev))"
  note pc = layout_chunk [OF lay live_in [OF p]]
  note fld = free_lists_okD [OF fl pc(3)]
  show vh: "valid_header (Free prev)"
  proof (cases prev)
    case (Ptr q)
    then have "q \<in> set (fr i)" using fld(1) by (auto simp: prev_def free_chain_Ptr i_def)
    then have "(q, ord) \<in> set cs" using free_member [OF fl pc(3)] by (simp add: i_def)
    then show ?thesis using layout_chunk(5) [OF lay] Ptr by simp
  qed simp
  have fl': "free_lists_ok a ?m cs fr" by (rule free_lists_ok_write_live [OF lay fl p])
  have h: "header_read_from ?m p = Inr (Free prev)" by (rule header_read_written [OF pc(4) vh])
  have i: "i < N_ORDERS" using pc(3) by (simp add: i_def valid_order_def)
  have "p \<notin> set (fr i)" by (rule live_not_free [OF lay fl p i])
  moreover have "(p, Order (of_nat i)) \<in> set cs" using live_in [OF p] by (simp add: i_def)
  moreover have "heads (free_lists a) ! i = prev" by (simp add: prev_def free_lists_index_def i_def)
  ultimately show "free_lists_ok (a\<lparr>free_lists := free_lists_index_mut (free_lists a) ord (Ptr p)\<rparr>)
      ?m cs (fr(i := p # fr i))"
    using fl' h i by (auto simp: free_lists_ok_def free_lists_index_mut_def nth_list_update i_def)
qed

lemma live_push:
  assumes "(p, ord) \<in> live cs fr"
  shows "live cs (fr(unat (order_into_raw ord) := p # fr (unat (order_into_raw ord)))) =
         live cs fr - {(p, ord)}"
  using assms
  by (auto simp: live_def is_free_def) (metis order_Order unsigned_word_eqI)

definition dealloc_effect ::
  "allocator \<Rightarrow> memory \<Rightarrow> chunk list \<Rightarrow> (nat \<Rightarrow> u32 list) \<Rightarrow> u32 \<Rightarrow> order \<Rightarrow>
   allocator \<Rightarrow> memory \<Rightarrow> (nat \<Rightarrow> u32 list) \<Rightarrow> bool" where
  "dealloc_effect a m cs fr p ord a' m' fr' \<longleftrightarrow>
     alloc_inv a' m' cs fr' \<and> live cs fr' = live cs fr - {(p, ord)} \<and>
     original_heap_base a' = original_heap_base a \<and> bumper a' = bumper a \<and>
     free_lists_index (free_lists a') ord = Ptr p \<and>
     untouched (live cs fr - {(p, ord)}) m m'"

lemma deallocate_live:
  assumes inv: "alloc_inv a m cs fr" and p: "(p, ord) \<in> live cs fr"
  shows "\<exists>a' m' fr'. deallocate a m (p + HEADER_SIZE) = (Inr (), a', m') \<and>
           dealloc_effect a m cs fr p ord a' m' fr'"
proof -
  let ?i = "unat (order_into_raw ord)" and ?prev = "free_lists_index (free_lists a) ord"
  let ?m = "write_at m p (header_raw (Free ?prev))" and ?fr = "fr(?i := p # fr ?i)"
  let ?n = "bytes_allocated (stats a) - (order_size ord + HEADER_SIZE)"
  let ?a = "a\<lparr>last_observed_memory_size := mem_size m,
      free_lists := free_lists_index_mut (free_lists a) ord (Ptr p),
      stats := (stats a)\<lparr>bytes_allocated := ?n\<rparr>\<rparr>"
  have lay: "layout_ok a m cs" and fl: "free_lists_ok a m cs fr" and lv: "live_ok m cs fr"
    and st: "stats_ok a cs fr"
    using inv by (auto simp: alloc_inv_def)
  note pc = layout_chunk [OF lay live_in [OF p]]
  note push = free_lists_push [OF lay fl p]
  have h: "header_read_from m p = Inr (Occupied ord)" using lv p by (auto simp: live_ok_def)
  have total: "(\<Sum>c \<in> live cs fr. chunk_len (snd c)) =
      chunk_len ord + (\<Sum>c \<in> live cs fr - {(p, ord)}. chunk_len (snd c))"
    using p by (simp add: sum.remove)
  then have ge: "order_size ord + HEADER_SIZE \<le> bytes_allocated (stats a)"
    using st unat_chunk_size [OF pc(3)] by (simp add: stats_ok_def word_le_nat_alt)
  then have "checked_sub (bytes_allocated (stats a)) (order_size ord + HEADER_SIZE) = Some ?n"
    by (simp add: checked_sub_def)
  then have eq: "deallocate a m (p + HEADER_SIZE) = (Inr (), ?a, ?m)"
    using inv observe_ok [OF inv] h checked_sub_header [OF pc(7)]
      header_write_fits [OF pc(4), of "Free ?prev"]
    by (simp add: deallocate_def deallocate_armed_def poison_bomb_def alloc_inv_def
        free_lists_replace_def)
  have live: "live cs ?fr = live cs fr - {(p, ord)}" by (rule live_push [OF p])
  have "header_read_from ?m q = Inr (Occupied oq)"
    if q: "(q, oq) \<in> live cs fr" "(q, oq) \<noteq> (p, ord)" for q oq
  proof -
    have "q \<noteq> p"
      using tiles_unique_order [OF layout_tiles [OF lay] live_in [OF p]] live_in [OF q(1)] q(2) by auto
    then show ?thesis
      using layout_reads_kept [OF lay live_in [OF p] live_in [OF q(1)]] lv q
      by (auto simp: live_ok_def)
  qed
  then have lv': "live_ok ?m cs ?fr" by (auto simp: live_ok_def live)
  have "unat ?n = (\<Sum>c \<in> live cs fr - {(p, ord)}. chunk_len (snd c))"
    using ge st total unat_chunk_size [OF pc(3)] by (simp add: unat_sub stats_ok_def)
  then have st': "stats_ok ?a cs ?fr"
    using st ge by (auto simp: stats_ok_def live word_le_nat_alt unat_sub)
  have "free_lists_ok ?a ?m cs ?fr" using push(2) by (simp add: free_lists_ok_def)
  then have "alloc_inv ?a ?m cs ?fr"
    using inv lay lv' st' by (simp add: alloc_inv_def layout_ok_def)
  moreover have "untouched (live cs fr - {(p, ord)}) m ?m"
    by (rule untouched_write [OF layout_tiles [OF lay] live_in [OF p]])
      (auto simp: live_def untouched_def)
  moreover have "free_lists_index (free_lists ?a) ord = Ptr p"
    using free_lists_okD(3) [OF fl pc(3)] by (simp add: free_lists_index_def free_lists_index_mut_def)
  ultimately show ?thesis using eq live by (auto simp: dealloc_effect_def)
qed

lemma deallocate_free:
  assumes inv: "alloc_inv a m cs fr" and p: "(p, ord) \<in> set cs" "(p, ord) \<notin> live cs fr"
  shows "deallocate a m (p + HEADER_SIZE) =
    (Inl (Other ''the allocation points to an empty header''),
     a\<lparr>last_observed_memory_size := mem_size m, poisoned := True\<rparr>, m)"
proof -
  have lay: "layout_ok a m cs" and fl: "free_lists_ok a m cs fr"
    using inv by (auto simp: alloc_inv_def)
  note pc = layout_chunk [OF lay p(1)]
  have "p \<in> set (fr (unat (order_into_raw ord)))" using p by (simp add: live_def is_free_def)
  moreover have "q \<in> set ps \<Longrightarrow> free_chain m l ps \<Longrightarrow> \<exists>nxt. header_read_from m q = Inr (Free nxt)"
    for q ps l
    by (induction ps arbitrary: l) auto
  ultimately obtain nxt where "header_read_from m p = Inr (Free nxt)"
    using free_lists_okD(1) [OF fl pc(3)] by blast
  then show ?thesis
    using inv observe_ok [OF inv] checked_sub_header [OF pc(7)]
    by (simp add: deallocate_def deallocate_armed_def poison_bomb_def alloc_inv_def)
qed

end
