(* ===== verification/Heap_Contract.thy ===== *)
theory Heap_Contract
  imports Prelude
begin

text \<open>
  What a user of a heap relies on, whatever the allocator: blocks in use are nonempty, aligned and
  apart, an allocation adds one block of at least the requested size or fails and adds none, a
  deallocation of a block in use succeeds and removes it as long as no request has failed, and writing
  inside a block in use disturbs nothing.  After a failed request the heap is not usable any more: every
  later request is refused.  The ledger of a run records the pointers the user holds with the sizes they
  asked for.
\<close>

inductive heap_run ::
  "('s \<Rightarrow> u32 \<Rightarrow> ('e + u32) \<times> 's) \<Rightarrow> ('s \<Rightarrow> u32 \<Rightarrow> ('e + unit) \<times> 's) \<Rightarrow> ('s \<Rightarrow> u32 \<Rightarrow> u8 \<Rightarrow> 's) \<Rightarrow>
   's \<Rightarrow> 's \<Rightarrow> (u32 \<times> u32) set \<Rightarrow> bool"
  for alloc dealloc poke s0 where
  start: "heap_run alloc dealloc poke s0 s0 {}"
| alloc: "heap_run alloc dealloc poke s0 s L \<Longrightarrow> alloc s sz = (Inr p, s') \<Longrightarrow>
    heap_run alloc dealloc poke s0 s' (insert (p, sz) L)"
| alloc_fails: "heap_run alloc dealloc poke s0 s L \<Longrightarrow> alloc s sz = (Inl e, s') \<Longrightarrow>
    heap_run alloc dealloc poke s0 s' L"
| dealloc: "heap_run alloc dealloc poke s0 s L \<Longrightarrow> (p, sz) \<in> L \<Longrightarrow> dealloc s p = (Inr (), s') \<Longrightarrow>
    heap_run alloc dealloc poke s0 s' (L - {(p, sz)})"
| dealloc_fails: "heap_run alloc dealloc poke s0 s L \<Longrightarrow> (p, sz) \<in> L \<Longrightarrow> dealloc s p = (Inl e, s') \<Longrightarrow>
    heap_run alloc dealloc poke s0 s' L"
| poke: "heap_run alloc dealloc poke s0 s L \<Longrightarrow> (p, sz) \<in> L \<Longrightarrow>
    unat p \<le> unat x \<Longrightarrow> unat x < unat p + unat sz \<Longrightarrow>
    heap_run alloc dealloc poke s0 (poke s x v) L"

locale heap_contract =
  fixes view :: "'s \<Rightarrow> (u32 \<times> nat) set \<Rightarrow> bool"
    and usable :: "'s \<Rightarrow> bool"
    and alloc :: "'s \<Rightarrow> u32 \<Rightarrow> ('e + u32) \<times> 's"
    and dealloc :: "'s \<Rightarrow> u32 \<Rightarrow> ('e + unit) \<times> 's"
    and poke :: "'s \<Rightarrow> u32 \<Rightarrow> u8 \<Rightarrow> 's"
    and lo :: "'s \<Rightarrow> nat"
    and hi :: "'s \<Rightarrow> nat"
  assumes view_nonempty: "view s B \<Longrightarrow> (p, n) \<in> B \<Longrightarrow> 0 < n"
    and view_aligned: "view s B \<Longrightarrow> (p, n) \<in> B \<Longrightarrow> unat p mod 8 = 0"
    and view_apart: "view s B \<Longrightarrow> (p, n) \<in> B \<Longrightarrow> (q, k) \<in> B \<Longrightarrow> (p, n) \<noteq> (q, k) \<Longrightarrow>
      unat p + n \<le> unat q \<or> unat q + k \<le> unat p"
    and alloc_view: "view s B \<Longrightarrow> alloc s sz = (Inr p, s') \<Longrightarrow>
      \<exists>n. unat sz \<le> n \<and> (p, n) \<notin> B \<and> view s' (insert (p, n) B)"
    and alloc_fails_view: "view s B \<Longrightarrow> alloc s sz = (Inl e, s') \<Longrightarrow> view s' B \<and> \<not> usable s'"
    and dealloc_view: "view s B \<Longrightarrow> usable s \<Longrightarrow> (p, n) \<in> B \<Longrightarrow>
      \<exists>s'. dealloc s p = (Inr (), s') \<and> view s' (B - {(p, n)}) \<and> usable s'"
    and dealloc_refused: "\<not> usable s \<Longrightarrow> \<exists>e. dealloc s p = (Inl e, s)"
    and poke_view: "view s B \<Longrightarrow> (p, n) \<in> B \<Longrightarrow> unat p \<le> unat x \<Longrightarrow> unat x < unat p + n \<Longrightarrow>
      view (poke s x v) B"
    and view_bounds: "view s B \<Longrightarrow> (p, n) \<in> B \<Longrightarrow> lo s \<le> unat p \<and> unat p + n \<le> hi s"
    and alloc_lo: "alloc s sz = (r, s') \<Longrightarrow> lo s' = lo s"
    and dealloc_lo: "dealloc s p = (r', s') \<Longrightarrow> lo s' = lo s"
    and poke_lo: "lo (poke s x v) = lo s"
begin

definition backed :: "'s \<Rightarrow> (u32 \<times> u32) set \<Rightarrow> (u32 \<times> nat) set \<Rightarrow> bool" where
  "backed s L B \<longleftrightarrow> view s B \<and> (\<forall>(p, sz) \<in> L. \<exists>n. (p, n) \<in> B \<and> unat sz \<le> n) \<and>
     (\<forall>p sz sz'. (p, sz) \<in> L \<longrightarrow> (p, sz') \<in> L \<longrightarrow> sz = sz')"

lemma view_unique: "view s B \<Longrightarrow> (p, n) \<in> B \<Longrightarrow> (p, k) \<in> B \<Longrightarrow> n = k"
  using view_apart [of s B p n p k] view_nonempty [of s B p n] view_nonempty [of s B p k] by auto

lemma backedI:
  assumes "view s B" "\<And>p sz. (p, sz) \<in> L \<Longrightarrow> \<exists>n. (p, n) \<in> B \<and> unat sz \<le> n"
    and "\<And>p sz sz'. (p, sz) \<in> L \<Longrightarrow> (p, sz') \<in> L \<Longrightarrow> sz = sz'"
  shows "backed s L B"
  using assms by (auto simp: backed_def)

lemma backedD:
  assumes "backed s L B"
  shows "view s B" "(p, sz) \<in> L \<Longrightarrow> \<exists>n. (p, n) \<in> B \<and> unat sz \<le> n"
    "(p, sz) \<in> L \<Longrightarrow> (p, sz') \<in> L \<Longrightarrow> sz = sz'"
  using assms by (auto simp: backed_def)

lemma backed_alloc:
  assumes b: "backed s L B" and a: "alloc s sz = (Inr p, s')"
  shows "\<exists>B'. backed s' (insert (p, sz) L) B'"
proof -
  obtain n where n: "unat sz \<le> n" "(p, n) \<notin> B" "view s' (insert (p, n) B)"
    using alloc_view [OF backedD(1) [OF b] a] by blast
  have "(p, k) \<notin> B" for k
    using view_unique [OF n(3), of p k n] n(2) by auto
  then have fresh: "(p, sz') \<notin> L" for sz' using backedD(2) [OF b] by blast
  have "backed s' (insert (p, sz) L) (insert (p, n) B)"
  proof (rule backedI [OF n(3)])
    fix q sq
    assume "(q, sq) \<in> insert (p, sz) L"
    then show "\<exists>k. (q, k) \<in> insert (p, n) B \<and> unat sq \<le> k"
      using n(1) backedD(2) [OF b, of q sq] by blast
  next
    fix q sq sq'
    assume "(q, sq) \<in> insert (p, sz) L" "(q, sq') \<in> insert (p, sz) L"
    then show "sq = sq'" using fresh backedD(3) [OF b, of q sq sq'] by auto
  qed
  then show ?thesis ..
qed

lemma backed_dealloc:
  assumes b: "backed s L B" and p: "(p, sz) \<in> L" and d: "dealloc s p = (Inr (), s')"
  shows "\<exists>B'. backed s' (L - {(p, sz)}) B'"
proof -
  obtain n where n: "(p, n) \<in> B" using backedD(2) [OF b p] by blast
  have "usable s" using dealloc_refused [of s p] d by auto
  from dealloc_view [OF backedD(1) [OF b] this n] d
  have v': "view s' (B - {(p, n)})" by auto
  have "backed s' (L - {(p, sz)}) (B - {(p, n)})"
  proof (rule backedI [OF v'])
    fix q sq
    assume q: "(q, sq) \<in> L - {(p, sz)}"
    then have "q \<noteq> p" using backedD(3) [OF b p] by auto
    then show "\<exists>k. (q, k) \<in> B - {(p, n)} \<and> unat sq \<le> k"
      using backedD(2) [OF b, of q sq] q by blast
  qed (use backedD(3) [OF b] in blast)
  then show ?thesis by blast
qed

lemma backed_dealloc_fails:
  assumes b: "backed s L B" and p: "(p, sz) \<in> L" and d: "dealloc s p = (Inl e, s')"
  shows "s' = s"
proof -
  obtain n where n: "(p, n) \<in> B" using backedD(2) [OF b p] by blast
  have "\<not> usable s" using dealloc_view [OF backedD(1) [OF b] _ n] d by auto
  then show ?thesis using dealloc_refused [of s p] d by auto
qed

lemma run_backed: "heap_run alloc dealloc poke s0 s L \<Longrightarrow> view s0 {} \<Longrightarrow> \<exists>B. backed s L B"
proof (induction rule: heap_run.induct)
  case start
  then show ?case by (intro exI [of _ "{}"]) (simp add: backed_def)
next
  case (alloc s L sz p s')
  then show ?case using backed_alloc by blast
next
  case (alloc_fails s L sz e s')
  then obtain B where b: "backed s L B" by blast
  then have "backed s' L B" using alloc_fails_view [OF backedD(1) [OF b] alloc_fails.hyps(2)] by (simp add: backed_def)
  then show ?case ..
next
  case (dealloc s L p sz s')
  then show ?case using backed_dealloc by blast
next
  case (dealloc_fails s L p sz e s')
  then show ?case using backed_dealloc_fails by blast
next
  case (poke s L p sz x v)
  then obtain B where b: "backed s L B" by blast
  obtain n where n: "(p, n) \<in> B" "unat sz \<le> n" using backedD(2) [OF b poke.hyps(2)] by blast
  have "view s B" by (rule backedD(1) [OF b])
  with n have "view (poke s x v) B" using poke.hyps by (intro poke_view [of s B p n]) auto
  with b have "backed (poke s x v) L B" by (simp add: backed_def)
  then show ?case ..
qed

lemma run_lo: "heap_run alloc dealloc poke s0 s L \<Longrightarrow> lo s = lo s0"
  by (induction rule: heap_run.induct) (auto dest: alloc_lo dealloc_lo simp: poke_lo)

theorem run_bounds:
  assumes "heap_run alloc dealloc poke s0 s L" "view s0 {}" "(p, sz) \<in> L"
  shows "unat p mod 8 = 0 \<and> lo s0 \<le> unat p \<and> unat p + unat sz \<le> hi s"
proof -
  obtain B where b: "backed s L B" using run_backed assms(1,2) by blast
  then obtain n where n: "(p, n) \<in> B" "unat sz \<le> n" using backedD(2) [OF b assms(3)] by blast
  note v = backedD(1) [OF b]
  show ?thesis
    using view_bounds [OF v n(1)] view_aligned [OF v n(1)] n(2) run_lo [OF assms(1)] by auto
qed

theorem run_apart:
  assumes "heap_run alloc dealloc poke s0 s L" "view s0 {}"
    and "(p, sz) \<in> L" "(q, sz') \<in> L" "(p, sz) \<noteq> (q, sz')"
  shows "unat p + unat sz \<le> unat q \<or> unat q + unat sz' \<le> unat p"
proof -
  obtain B where b: "backed s L B" using run_backed assms(1,2) by blast
  obtain n k where n: "(p, n) \<in> B" "unat sz \<le> n" and k: "(q, k) \<in> B" "unat sz' \<le> k"
    using backedD(2) [OF b assms(3)] backedD(2) [OF b assms(4)] by blast
  have "p \<noteq> q" using backedD(3) [OF b assms(3)] assms(4,5) by auto
  then have "unat p + n \<le> unat q \<or> unat q + k \<le> unat p"
    using view_apart [OF backedD(1) [OF b] n(1) k(1)] by simp
  then show ?thesis using n k by auto
qed

theorem run_dealloc:
  assumes "heap_run alloc dealloc poke s0 s L" "view s0 {}" "(p, sz) \<in> L" "usable s"
  shows "\<exists>s'. dealloc s p = (Inr (), s') \<and> usable s'"
proof -
  obtain B where b: "backed s L B" using run_backed assms(1,2) by blast
  obtain n where "(p, n) \<in> B" using backedD(2) [OF b assms(3)] by blast
  from dealloc_view [OF backedD(1) [OF b] assms(4) this] show ?thesis by blast
qed

end

end
