(* ===== verification/Freeing_Bump_Correct.thy ===== *)
theory Freeing_Bump_Correct
  imports Freeing_Bump_Inv Heap_Contract
begin

text \<open>
  The freeing-bump allocator meets the heap contract, and the properties of its operations.
\<close>

section \<open>The allocator as a heap\<close>

type_synonym heap = "allocator \<times> memory"

definition heap_alloc :: "heap \<Rightarrow> u32 \<Rightarrow> (alloc_error + u32) \<times> heap" where
  "heap_alloc s sz = allocate (fst s) (snd s) sz"

definition heap_dealloc :: "heap \<Rightarrow> u32 \<Rightarrow> (alloc_error + unit) \<times> heap" where
  "heap_dealloc s p = deallocate (fst s) (snd s) p"

text \<open>A store by the guest.\<close>

definition heap_poke :: "heap \<Rightarrow> u32 \<Rightarrow> u8 \<Rightarrow> heap" where
  "heap_poke s x v = (fst s, (snd s)\<lparr>mem_data := (mem_data (snd s))(x := v)\<rparr>)"

definition block_of :: "chunk \<Rightarrow> u32 \<times> nat" where
  "block_of c = (fst c + HEADER_SIZE, block_len (snd c))"

text \<open>A failed request poisons the allocator and leaves the heap as it was.\<close>

abbreviation heap_usable :: "heap \<Rightarrow> bool" where
  "heap_usable s \<equiv> \<not> poisoned (fst s)"

abbreviation healthy :: "allocator \<Rightarrow> allocator" where
  "healthy a \<equiv> a\<lparr>poisoned := False\<rparr>"

lemma healthy_usable [simp]: "\<not> poisoned a \<Longrightarrow> healthy a = a"
  by (cases a) simp

definition heap_view :: "heap \<Rightarrow> (u32 \<times> nat) set \<Rightarrow> bool" where
  "heap_view s B \<longleftrightarrow> (\<exists>cs fr. alloc_inv (healthy (fst s)) (snd s) cs fr \<and> B = block_of ` live cs fr)"

lemma heap_viewE:
  assumes "heap_view s B" "(p, n) \<in> B"
  obtains cs fr q ord where "alloc_inv (healthy (fst s)) (snd s) cs fr" "B = block_of ` live cs fr"
    "(q, ord) \<in> live cs fr" "p = q + HEADER_SIZE" "n = block_len ord"
  using assms by (auto simp: heap_view_def block_of_def)

lemma alloc_inv_layout: "alloc_inv a m cs fr \<Longrightarrow> layout_ok a m cs"
  by (simp add: alloc_inv_def)

lemma alloc_inv_chunk:
  assumes "alloc_inv a m cs fr" "(q, ord) \<in> live cs fr"
  shows "unat (q + HEADER_SIZE) = unat q + 8" "unat q mod 8 = 0"
    "unat (original_heap_base a) \<le> unat q" "unat q + chunk_len ord \<le> mem_bytes m"
  using layout_chunk [OF alloc_inv_layout [OF assms(1)] live_in [OF assms(2)]]
    alloc_inv_layout [OF assms(1)]
  by (auto simp: layout_ok_def)

lemma inj_block_of: "alloc_inv a m cs fr \<Longrightarrow> inj_on block_of (live cs fr)"
  using tiles_unique_order [OF layout_tiles [OF alloc_inv_layout], of a m cs fr] live_in [of _ cs fr]
  by (fastforce simp: inj_on_def block_of_def)

lemma alloc_inv_poke:
  assumes inv: "alloc_inv a m cs fr" and q: "(q, ord) \<in> live cs fr"
    and x: "unat q + 8 \<le> unat x" "unat x < unat q + chunk_len ord"
  shows "alloc_inv a (m\<lparr>mem_data := (mem_data m)(x := v)\<rparr>) cs fr"
proof -
  let ?m = "m\<lparr>mem_data := (mem_data m)(x := v)\<rparr>"
  have lay: "layout_ok a m cs" and fl: "free_lists_ok a m cs fr" and lv: "live_ok m cs fr"
    using inv by (auto simp: alloc_inv_def)
  have sz [simp]: "mem_bytes ?m = mem_bytes m" "mem_size ?m = mem_size m" "page_limit ?m = page_limit m"
    "mem_ok ?m = mem_ok m"
    by (simp_all add: mem_bytes_def mem_size_def page_limit_def mem_ok_def)
  have reads: "header_read_from ?m r = header_read_from m r" if r: "(r, o') \<in> set cs" for r o'
  proof (rule header_read_cong [OF layout_chunk(4) [OF lay r]])
    fix y :: u32
    assume y: "unat r \<le> unat y" "unat y < unat r + 8"
    have "y \<noteq> x"
      using tiles_apart [OF layout_tiles [OF lay] r live_in [OF q]] x y
      by (auto simp: chunk_len_def)
    then show "mem_data ?m y = mem_data m y" by simp
  qed simp
  have "free_chain ?m l (fr i) = free_chain m l (fr i)" if "i < N_ORDERS" for l i
    using fl that by (intro free_chain_cong) (auto simp: free_lists_ok_def intro: reads)
  then have "free_lists_ok a ?m cs fr" using fl by (simp add: free_lists_ok_def)
  moreover have "live_ok ?m cs fr" using lv reads live_in [of _ cs fr] by (fastforce simp: live_ok_def)
  moreover have "layout_ok a ?m cs" using lay by (simp add: layout_ok_def)
  ultimately show ?thesis using inv by (simp add: alloc_inv_def)
qed

lemma allocate_Inr:
  assumes inv: "alloc_inv a m cs fr" and eq: "allocate a m sz = (Inr p, a', m')"
  obtains q ord cs' fr' where "order_from_size sz = Inr ord" "p = q + HEADER_SIZE"
    "alloc_effect a m cs fr sz q ord a' m' cs' fr'"
proof (cases "order_from_size sz")
  case (Inl e)
  with eq inv observe_ok [OF inv] show thesis
    by (simp add: allocate_def allocate_armed_def poison_bomb_def alloc_inv_def)
next
  case (Inr ord)
  from allocate_cases [OF inv Inr] eq that [OF Inr] show thesis by auto
qed

lemma allocate_Inl:
  assumes inv: "alloc_inv a m cs fr" and eq: "allocate a m sz = (Inl e, a', m')"
  shows "a' = a\<lparr>last_observed_memory_size := mem_size m, poisoned := True\<rparr> \<and> m' = m"
proof (cases "order_from_size sz")
  case (Inl e)
  with eq inv observe_ok [OF inv] show ?thesis
    by (auto simp: allocate_def allocate_armed_def poison_bomb_def alloc_inv_def)
next
  case (Inr ord)
  from allocate_cases [OF inv Inr] eq show ?thesis by auto
qed

lemma poison_bomb_base:
  "original_heap_base (fst (snd (poison_bomb out))) = original_heap_base (fst (snd out))"
  by (cases out) (simp add: poison_bomb_def split: sum.split)

lemma allocate_header_base:
  "allocate_header a m ord = (r, a', m') \<Longrightarrow> original_heap_base a' = original_heap_base a"
  by (auto simp: allocate_header_def split: link.splits sum.splits prod.splits if_splits)

lemma allocate_armed_base:
  "original_heap_base (fst (snd (allocate_armed a m sz))) = original_heap_base a"
  by (auto simp: allocate_armed_def Let_def split: sum.split prod.split dest!: allocate_header_base)

lemma deallocate_armed_base:
  "original_heap_base (fst (snd (deallocate_armed a m p))) = original_heap_base a"
  by (simp add: deallocate_armed_def free_lists_replace_def Let_def split: sum.split)

lemma base_kept:
  "allocate a m sz = (r, s') \<Longrightarrow> original_heap_base (fst s') = original_heap_base a"
  "deallocate a m p = (r', s') \<Longrightarrow> original_heap_base (fst s') = original_heap_base a"
  using poison_bomb_base [of "allocate_armed a m sz"] poison_bomb_base [of "deallocate_armed a m p"]
  by (auto simp: allocate_def deallocate_def allocate_armed_base deallocate_armed_base split: if_splits)

interpretation fb: heap_contract heap_view heap_usable heap_alloc heap_dealloc heap_poke
  "\<lambda>s. unat (original_heap_base (fst s))" "\<lambda>s. mem_bytes (snd s)"
proof
  fix s B p n
  assume v: "heap_view s B" "(p, n) \<in> B"
  then show "0 < n" by (auto elim!: heap_viewE simp: block_len_def)
  from v show "unat p mod 8 = 0"
    by (auto elim!: heap_viewE simp: alloc_inv_chunk mod_add_eq [symmetric])
  from v show "unat (original_heap_base (fst s)) \<le> unat p \<and> unat p + n \<le> mem_bytes (snd s)"
  proof (rule heap_viewE)
    fix cs fr q ord
    assume inv: "alloc_inv (healthy (fst s)) (snd s) cs fr" and q: "(q, ord) \<in> live cs fr"
      and p: "p = q + HEADER_SIZE" "n = block_len ord"
    from alloc_inv_chunk [OF inv q] p show ?thesis by (simp add: chunk_len_def)
  qed
next
  fix s B p n q k
  assume v: "heap_view s B" "(p, n) \<in> B" "(q, k) \<in> B" "(p, n) \<noteq> (q, k)"
  obtain cs fr p' op where inv: "alloc_inv (healthy (fst s)) (snd s) cs fr" and B: "B = block_of ` live cs fr"
    and p: "(p', op) \<in> live cs fr" "p = p' + HEADER_SIZE" "n = block_len op"
    using v(1,2) by (rule heap_viewE)
  obtain q' oq where q: "(q', oq) \<in> live cs fr" "q = q' + HEADER_SIZE" "k = block_len oq"
    using v(3) by (auto simp: B block_of_def)
  have "(p', op) \<noteq> (q', oq)" using v(4) p q by auto
  then show "unat p + n \<le> unat q \<or> unat q + k \<le> unat p"
    using tiles_apart [OF layout_tiles [OF alloc_inv_layout [OF inv]] live_in [OF p(1)] live_in [OF q(1)]]
      alloc_inv_chunk(1) [OF inv p(1)] alloc_inv_chunk(1) [OF inv q(1)] p q
    by (auto simp: chunk_len_def)
next
  fix s B sz p s'
  assume v: "heap_view s B" and eq: "heap_alloc s sz = (Inr p, s')"
  have u: "\<not> poisoned (fst s)" using eq by (auto simp: heap_alloc_def allocate_def)
  obtain cs fr where inv: "alloc_inv (fst s) (snd s) cs fr" and B: "B = block_of ` live cs fr"
    using v u by (auto simp: heap_view_def)
  have eq': "allocate (fst s) (snd s) sz = (Inr p, fst s', snd s')" using eq by (simp add: heap_alloc_def)
  obtain q ord cs' fr' where p: "p = q + HEADER_SIZE"
    and eff: "alloc_effect (fst s) (snd s) cs fr sz q ord (fst s') (snd s') cs' fr'"
    by (rule allocate_Inr [OF inv eq'])
  have inv': "alloc_inv (fst s') (snd s') cs' fr'" using eff by (simp add: alloc_effect_def)
  then have "\<not> poisoned (fst s')" by (simp add: alloc_inv_def)
  from inv' have "inj_on block_of (live cs' fr')" by (rule inj_block_of)
  then have "block_of (q, ord) \<notin> B"
    using eff by (auto simp: alloc_effect_def B inj_on_def)
  moreover have "heap_view s' (insert (block_of (q, ord)) B)"
    unfolding heap_view_def using eff \<open>\<not> poisoned (fst s')\<close>
    by (intro exI [of _ cs'] exI [of _ fr']) (simp add: alloc_effect_def B)
  ultimately show "\<exists>n. unat sz \<le> n \<and> (p, n) \<notin> B \<and> heap_view s' (insert (p, n) B)"
    using eff p by (intro exI [of _ "block_len ord"]) (simp add: alloc_effect_def block_of_def)
next
  fix s B sz e s'
  assume v: "heap_view s B" and eq: "heap_alloc s sz = (Inl e, s')"
  show "heap_view s' B \<and> \<not> heap_usable s'"
  proof (cases "poisoned (fst s)")
    case True
    then show ?thesis using v eq by (auto simp: heap_alloc_def allocate_def)
  next
    case False
    obtain cs fr where inv: "alloc_inv (fst s) (snd s) cs fr" and B: "B = block_of ` live cs fr"
      using v False by (auto simp: heap_view_def)
    have "allocate (fst s) (snd s) sz = (Inl e, fst s', snd s')" using eq by (simp add: heap_alloc_def)
    note s' = allocate_Inl [OF inv this]
    then have "healthy (fst s') = (fst s)\<lparr>last_observed_memory_size := mem_size (snd s)\<rparr>" using False by (cases "fst s") simp
    then show ?thesis
      using s' alloc_inv_observed [OF inv] B unfolding heap_view_def by auto
  qed
next
  fix s B p n
  assume v: "heap_view s B" and u: "heap_usable s" and pn: "(p, n) \<in> B"
  obtain cs fr q ord where inv: "alloc_inv (fst s) (snd s) cs fr" and B: "B = block_of ` live cs fr"
    and q: "(q, ord) \<in> live cs fr" "p = q + HEADER_SIZE" "n = block_len ord"
    using heap_viewE [OF v pn] u by (metis healthy_usable)
  obtain a' m' fr' where eq: "deallocate (fst s) (snd s) p = (Inr (), a', m')"
    and eff: "dealloc_effect (fst s) (snd s) cs fr q ord a' m' fr'"
    using deallocate_live [OF inv q(1)] q(2) by blast
  have "block_of ` (live cs fr - {(q, ord)}) = B - {(p, n)}"
    using inj_on_image_set_diff [OF inj_block_of [OF inv], of "live cs fr" "{(q, ord)}"] q
    by (simp add: B block_of_def)
  moreover have inv': "alloc_inv a' m' cs fr'" using eff by (simp add: dealloc_effect_def)
  then have "\<not> poisoned a'" by (simp add: alloc_inv_def)
  ultimately have "heap_view (a', m') (B - {(p, n)}) \<and> heap_usable (a', m')"
    unfolding heap_view_def using eff inv'
    by (auto intro!: exI [of _ cs] exI [of _ fr'] simp: dealloc_effect_def)
  then show "\<exists>s'. heap_dealloc s p = (Inr (), s') \<and> heap_view s' (B - {(p, n)}) \<and> heap_usable s'"
    using eq by (auto simp: heap_dealloc_def)
next
  fix s B p n v and x :: u32
  assume v: "heap_view s B" "(p, n) \<in> B" and x: "unat p \<le> unat x" "unat x < unat p + n"
  obtain cs fr q ord where inv: "alloc_inv (healthy (fst s)) (snd s) cs fr" and B: "B = block_of ` live cs fr"
    and q: "(q, ord) \<in> live cs fr" "p = q + HEADER_SIZE" "n = block_len ord"
    using v by (rule heap_viewE)
  have "unat q + 8 \<le> unat x" "unat x < unat q + chunk_len ord"
    using x q alloc_inv_chunk(1) [OF inv q(1)] by (simp_all add: chunk_len_def)
  from alloc_inv_poke [OF inv q(1) this] B show "heap_view (heap_poke s x v) B"
    by (auto simp: heap_view_def heap_poke_def)
qed (simp_all add: heap_alloc_def heap_dealloc_def heap_poke_def base_kept deallocate_def)

section \<open>Properties\<close>

lemma allocator_new_inv:
  assumes ok: "mem_ok m" "unat (page_limit m) < 65536" and hb: "unat hb \<le> mem_bytes m"
  shows "alloc_inv (allocator_new hb) m [] (\<lambda>_. [])"
proof -
  let ?q = "div_ceil hb ALIGNMENT"
  have "unat ?q * 8 < unat hb + 8"
    using div_ceil_bounds [of ALIGNMENT hb] by (simp add: ALIGNMENT_def)
  then have "unat ?q * 8 < (unat (mem_pages m) * 8192 + 1) * 8"
    using hb by (simp add: mem_bytes_def)
  then have "unat ?q < unat (mem_pages m) * 8192 + 1" by (simp only: mult_less_cancel2)
  then have q: "unat ?q * 8 \<le> mem_bytes m" by (simp add: mem_bytes_def)
  have "mem_bytes m < 2 ^ 32"
    using ok by (auto simp: mem_ok_def mem_bytes_def word_le_nat_alt)
  then have base: "unat (?q * ALIGNMENT) = unat ?q * 8"
    using q by (subst unat_mult_no_wrap) (simp_all add: ALIGNMENT_def)
  then have "layout_ok (allocator_new hb) m []"
    using ok q by (simp add: layout_ok_def allocator_new_def Let_def)
  then show ?thesis
    by (simp add: alloc_inv_def allocator_new_def Let_def free_lists_ok_def free_lists_new_def
        live_ok_def live_def stats_ok_def allocation_stats_default_def)
qed

lemma allocator_new_view:
  assumes "mem_ok m" "unat (page_limit m) < 65536" "unat hb \<le> mem_bytes m"
  shows "heap_view (allocator_new hb, m) {}"
proof -
  have inv: "alloc_inv (allocator_new hb) m [] (\<lambda>_. [])" by (rule allocator_new_inv [OF assms])
  then have "\<not> poisoned (allocator_new hb)" by (simp add: alloc_inv_def)
  with inv show ?thesis
    unfolding heap_view_def by (intro exI [of _ "[]"] exI [of _ "\<lambda>_. []"]) (simp add: live_def)
qed

text \<open>
  C3: Starting from a fresh allocator over a well-behaved memory of less than 4 GiB, let a guest
  allocate, deallocate what it holds and write inside what it holds, in any order, requests that fail
  included.  Then any two blocks it holds are disjoint.
\<close>

theorem guest_blocks_disjoint:
  assumes "mem_ok m" "unat (page_limit m) < 65536" "unat hb \<le> mem_bytes m"
    and "heap_run heap_alloc heap_dealloc heap_poke (allocator_new hb, m) s L"
    and "(p, sz) \<in> L" "(q, sz') \<in> L" "(p, sz) \<noteq> (q, sz')"
  shows "unat p + unat sz \<le> unat q \<or> unat q + unat sz' \<le> unat p"
  by (rule fb.run_apart [OF assms(4) allocator_new_view [OF assms(1-3)] assms(5-7)])

definition demo_memory :: memory where
  "demo_memory = \<lparr>mem_data = (\<lambda>_. 0), mem_pages = 1, mem_max_pages = Some 4,
     host_grow = (\<lambda>_ _. True)\<rparr>"

abbreviation demo_heap :: heap where
  "demo_heap \<equiv> (allocator_new 13, demo_memory)"

lemma demo_memory_ok:
  "mem_ok demo_memory" "unat (page_limit demo_memory) < 65536" "unat (13 :: u32) \<le> mem_bytes demo_memory"
  by (simp_all add: mem_ok_def page_limit_def mem_bytes_def demo_memory_def)

lemma demo_run:
  "heap_run heap_alloc heap_dealloc heap_poke demo_heap
     (snd (heap_alloc (snd (heap_alloc demo_heap 100)) 1)) {(160, 1), (24, 100)}"
proof -
  let ?s1 = "snd (heap_alloc demo_heap 100)"
  have "fst (heap_alloc demo_heap 100) = Inr 24" by code_simp
  then have 1: "heap_alloc demo_heap 100 = (Inr 24, ?s1)" by (simp add: prod_eq_iff)
  have "fst (heap_alloc ?s1 1) = Inr 160" by code_simp
  then have 2: "heap_alloc ?s1 1 = (Inr 160, snd (heap_alloc ?s1 1))" by (simp add: prod_eq_iff)
  have "heap_run heap_alloc heap_dealloc heap_poke demo_heap ?s1 (insert (24, 100) {})"
    by (rule heap_run.alloc [where s = demo_heap]) (rule heap_run.start, rule 1)
  then show ?thesis by (rule heap_run.alloc [where s = ?s1]) (rule 2)
qed

theorem guest_blocks_disjoint_witness:
  "unat (24 :: u32) + unat (100 :: u32) \<le> unat (160 :: u32) \<or>
   unat (160 :: u32) + unat (1 :: u32) \<le> unat (24 :: u32)"
  by (rule guest_blocks_disjoint [OF demo_memory_ok demo_run]) simp_all



text \<open>
  C36: In the same runs, deallocating a block the guest holds succeeds and leaves the allocator usable as
  long as no request has failed, that is, as long as the allocator is not poisoned; a poisoned allocator
  refuses it and nothing changes.
\<close>

theorem guest_dealloc_succeeds:
  assumes "mem_ok m" "unat (page_limit m) < 65536" "unat hb \<le> mem_bytes m"
    and "heap_run heap_alloc heap_dealloc heap_poke (allocator_new hb, m) s L" "(p, sz) \<in> L"
  shows "if poisoned (fst s)
    then deallocate (fst s) (snd s) p = (Inl (Other ''the allocator has been poisoned''), fst s, snd s)
    else \<exists>a' m'. deallocate (fst s) (snd s) p = (Inr (), a', m') \<and> \<not> poisoned a'"
  using fb.run_dealloc [OF assms(4) allocator_new_view [OF assms(1-3)] assms(5)]
  by (auto simp: heap_dealloc_def deallocate_def)

lemma demo_unpoisoned: "\<not> poisoned (fst (snd (heap_alloc (snd (heap_alloc demo_heap 100)) 1)))"
  by code_simp

lemma demo_run_failed:
  "heap_run heap_alloc heap_dealloc heap_poke demo_heap
     (snd (heap_alloc (snd (heap_alloc demo_heap 100)) 33554433)) {(24, 100)}"
proof -
  let ?s1 = "snd (heap_alloc demo_heap 100)"
  have "fst (heap_alloc demo_heap 100) = Inr 24" by code_simp
  then have 1: "heap_alloc demo_heap 100 = (Inr 24, ?s1)" by (simp add: prod_eq_iff)
  have "fst (heap_alloc ?s1 33554433) = Inl RequestedAllocationTooLarge" by code_simp
  then have 2: "heap_alloc ?s1 33554433 = (Inl RequestedAllocationTooLarge, snd (heap_alloc ?s1 33554433))"
    by (simp add: prod_eq_iff)
  have "heap_run heap_alloc heap_dealloc heap_poke demo_heap ?s1 {(24, 100)}"
    by (rule heap_run.alloc [where s = demo_heap]) (rule heap_run.start, rule 1)
  then show ?thesis by (rule heap_run.alloc_fails [where s = ?s1]) (rule 2)
qed

lemma demo_poisoned: "poisoned (fst (snd (heap_alloc (snd (heap_alloc demo_heap 100)) 33554433)))"
  by code_simp

theorem guest_dealloc_succeeds_witness:
  "(\<exists>a' m'. deallocate (fst (snd (heap_alloc (snd (heap_alloc demo_heap 100)) 1)))
     (snd (snd (heap_alloc (snd (heap_alloc demo_heap 100)) 1))) 24 = (Inr (), a', m')) \<and>
   fst (deallocate (fst (snd (heap_alloc (snd (heap_alloc demo_heap 100)) 33554433)))
     (snd (snd (heap_alloc (snd (heap_alloc demo_heap 100)) 33554433))) 24) = Inl (Other ''the allocator has been poisoned'')"
  using guest_dealloc_succeeds [OF demo_memory_ok demo_run, of 24 100] demo_unpoisoned
    guest_dealloc_succeeds [OF demo_memory_ok demo_run_failed, of 24 100] demo_poisoned
  by auto

text \<open>
  C6: Every outcome of an allocation from a consistent state: a request over 32 MiB is refused as
  too large; any other either yields a fresh block of at least the requested size, leaving the state
  consistent and the contents of all live blocks alone, or fails for lack of space with memory
  unchanged.  An allocation never trips over a corrupted header.
\<close>

theorem allocate_outcome:
  assumes inv: "alloc_inv a m cs fr"
  shows "if unat sz \<le> 33554432
    then (\<exists>p ord a' m' cs' fr'. allocate a m sz = (Inr (p + HEADER_SIZE), a', m') \<and>
            alloc_effect a m cs fr sz p ord a' m' cs' fr') \<or>
         allocate a m sz =
           (Inl AllocatorOutOfSpace, a\<lparr>last_observed_memory_size := mem_size m, poisoned := True\<rparr>, m)
    else allocate a m sz =
      (Inl RequestedAllocationTooLarge,
       a\<lparr>last_observed_memory_size := mem_size m, poisoned := True\<rparr>, m)"
proof (cases "unat sz \<le> 33554432")
  case True
  then obtain ord where "order_from_size sz = Inr ord" by (rule order_from_size_ok)
  from allocate_cases [OF inv this] show ?thesis unfolding if_P [OF True] by blast
next
  case False
  then show ?thesis
    using inv observe_ok [OF inv] order_from_size_large [of sz]
    by (simp add: allocate_def allocate_armed_def poison_bomb_def alloc_inv_def)
qed

theorem allocate_outcome_witness:
  "alloc_inv (allocator_new 13) demo_memory [] (\<lambda>_. []) \<and>
   allocate (allocator_new 13) demo_memory 33554433 =
     (Inl RequestedAllocationTooLarge,
      (allocator_new 13)\<lparr>last_observed_memory_size := mem_size demo_memory, poisoned := True\<rparr>,
      demo_memory)"
  using allocator_new_inv [OF demo_memory_ok]
    allocate_outcome [OF allocator_new_inv [OF demo_memory_ok], of 33554433]
  by simp

text \<open>
  C21: Every outcome of a deallocation of a chunk of the heap: a live chunk goes to the head of the
  free list of its order, and the contents of the other live blocks stay; a chunk that is already
  free (a double free) is refused and poisons the allocator.
\<close>

theorem deallocate_outcome:
  assumes inv: "alloc_inv a m cs fr" and c: "(p, ord) \<in> set cs"
  shows "if (p, ord) \<in> live cs fr
    then \<exists>a' m' fr'. deallocate a m (p + HEADER_SIZE) = (Inr (), a', m') \<and>
           dealloc_effect a m cs fr p ord a' m' fr'
    else deallocate a m (p + HEADER_SIZE) =
      (Inl (Other ''the allocation points to an empty header''),
       a\<lparr>last_observed_memory_size := mem_size m, poisoned := True\<rparr>, m)"
  using deallocate_live [OF inv, of p ord] deallocate_free [OF inv c] by auto

lemma demo_allocated:
  obtains p a m cs fr where "allocate (allocator_new 13) demo_memory 100 = (Inr (p + HEADER_SIZE), a, m)"
    "alloc_inv a m cs fr" "live cs fr = {(p, Order 4)}"
proof -
  have ord: "order_from_size 100 = Inr (Order 4)" by code_simp
  have "fst (allocate (allocator_new 13) demo_memory 100) = Inr 24" by code_simp
  with allocate_cases [OF allocator_new_inv [OF demo_memory_ok] ord] that
  show thesis by (auto simp: alloc_effect_def live_def)
qed

theorem deallocate_outcome_witness:
  "\<exists>p a m cs fr a' m' fr'. (p, Order 4) \<in> live cs fr \<and>
     deallocate a m (p + HEADER_SIZE) = (Inr (), a', m') \<and>
     dealloc_effect a m cs fr p (Order 4) a' m' fr'"
proof (rule demo_allocated)
  fix p a m cs fr
  assume inv: "alloc_inv a m cs fr" and l: "live cs fr = {(p, Order 4)}"
  then have "(p, Order 4) \<in> set cs" by (auto simp: live_def)
  from deallocate_outcome [OF inv this] l show ?thesis by fastforce
qed

text \<open>
  Free lists are last in, first out: after a deallocation, the next request whose size falls in
  the same order is served from the chunk just freed.
\<close>

theorem deallocate_allocate_reuses:
  assumes inv: "alloc_inv a m cs fr" and p: "(p, ord) \<in> live cs fr"
    and d: "deallocate a m (p + HEADER_SIZE) = (Inr (), a', m')"
    and sz: "order_from_size sz = Inr ord"
  shows "fst (allocate a' m' sz) = Inr (p + HEADER_SIZE)"
proof -
  obtain fr' where eff: "dealloc_effect a m cs fr p ord a' m' fr'"
    using deallocate_live [OF inv p] d by auto
  then have inv': "alloc_inv a' m' cs fr'" and hd: "free_lists_index (free_lists a') ord = Ptr p"
    by (auto simp: dealloc_effect_def)
  let ?a = "a'\<lparr>last_observed_memory_size := mem_size m'\<rparr>"
  have v: "valid_order ord" using order_from_size_lt [OF sz] by simp
  have hd': "free_lists_index (free_lists ?a) ord = Ptr p" using hd by simp
  obtain nxt ps where hdr: "allocate_header ?a m' ord =
        (Inr p, ?a\<lparr>free_lists := free_lists_index_mut (free_lists ?a) ord nxt\<rparr>, m')"
    and pend: "alloc_pending (?a\<lparr>free_lists := free_lists_index_mut (free_lists ?a) ord nxt\<rparr>) m' cs
      (fr'(unat (order_into_raw ord) := ps)) p ord"
    by (rule allocate_header_pop [OF alloc_inv_observed [OF inv'] v hd'])
  from allocate_armed_pending [OF inv' sz hdr pend] show ?thesis by simp
qed

theorem deallocate_allocate_reuses_witness:
  "\<exists>p a' m'. order_from_size 70 = Inr (Order 4) \<and> fst (allocate a' m' 70) = Inr (p + HEADER_SIZE)"
proof (rule demo_allocated)
  fix p a m cs fr
  assume inv: "alloc_inv a m cs fr" and l: "live cs fr = {(p, Order 4)}"
  then have p: "(p, Order 4) \<in> live cs fr" by simp
  obtain a' m' where d: "deallocate a m (p + HEADER_SIZE) = (Inr (), a', m')"
    using deallocate_live [OF inv p] by blast
  have sz: "order_from_size 70 = Inr (Order 4)" by code_simp
  from deallocate_allocate_reuses [OF inv p d sz] sz show ?thesis by blast
qed

datatype request = Alloc u32 | Dealloc u32

fun serve1 :: "allocator \<Rightarrow> memory \<Rightarrow> request \<Rightarrow> bool \<times> allocator \<times> memory" where
  "serve1 a m (Alloc sz) = (case allocate a m sz of (r, a', m') \<Rightarrow> (\<not> isl r, a', m'))"
| "serve1 a m (Dealloc p) = (case deallocate a m p of (r, a', m') \<Rightarrow> (\<not> isl r, a', m'))"

fun serve :: "allocator \<Rightarrow> memory \<Rightarrow> request list \<Rightarrow> bool list \<times> allocator \<times> memory" where
  "serve a m [] = ([], a, m)"
| "serve a m (r # rs) =
     (case serve1 a m r of (ok, a1, m1) \<Rightarrow>
       case serve a1 m1 rs of (oks, a2, m2) \<Rightarrow> (ok # oks, a2, m2))"

lemma serve1_poisoned: "poisoned a \<Longrightarrow> serve1 a m r = (False, a, m)"
  by (cases r) (simp_all add: allocate_def deallocate_def)

lemma serve_poisoned: "poisoned a \<Longrightarrow> serve a m rs = (replicate (length rs) False, a, m)"
  by (induction rs) (simp_all add: serve1_poisoned)

lemma poison_bomb_Inl: "poison_bomb out = (Inl e, a, m) \<Longrightarrow> poisoned a"
  by (cases out) (auto simp: poison_bomb_def split: sum.splits)

lemma serve1_error: "serve1 a m r = (False, a', m') \<Longrightarrow> poisoned a'"
  by (cases r)
    (auto simp: allocate_def deallocate_def isl_def split: prod.splits if_splits dest: poison_bomb_Inl)

text \<open>
  C38: Once an operation has returned an error, every later request returns an error and changes
  neither the allocator nor the memory.
\<close>

theorem error_is_final:
  assumes "serve a m rs = (oks, a', m')" "False \<in> set oks"
  shows "serve a' m' rs' = (replicate (length rs') False, a', m')"
proof -
  have "poisoned a'"
    using assms
  proof (induction rs arbitrary: a m oks)
    case (Cons r rs)
    obtain ok a1 m1 where s1: "serve1 a m r = (ok, a1, m1)" by (rule prod_cases3)
    obtain oks1 a2 m2 where s2: "serve a1 m1 rs = (oks1, a2, m2)" by (rule prod_cases3)
    have oks: "oks = ok # oks1" and a': "a' = a2" "m' = m2"
      using Cons.prems(1) s1 s2 by auto
    show ?case
    proof (cases ok)
      case True
      with oks Cons.prems(2) have "False \<in> set oks1" by simp
      with s2 a' show ?thesis by (intro Cons.IH) simp_all
    next
      case False
      then have "poisoned a1" using s1 serve1_error by simp
      with s2 a' show ?thesis by (simp add: serve_poisoned)
    qed
  qed simp
  then show ?thesis by (rule serve_poisoned)
qed

theorem error_is_final_witness:
  "fst (serve (allocator_new 13) demo_memory [Alloc 33554433]) = [False] \<and>
   (case serve (allocator_new 13) demo_memory [Alloc 33554433] of (oks, a', m') \<Rightarrow>
      serve a' m' [Alloc 1, Dealloc 24] = ([False, False], a', m'))"
proof -
  obtain oks a' m' where s: "serve (allocator_new 13) demo_memory [Alloc 33554433] = (oks, a', m')"
    by (rule prod_cases3)
  have "fst (serve (allocator_new 13) demo_memory [Alloc 33554433]) = [False]" by code_simp
  with s error_is_final [OF s, of "[Alloc 1, Dealloc 24]"] show ?thesis by simp
qed

text \<open>
  C39: A header written to memory is read back as it was written, and headers elsewhere are not
  disturbed.
\<close>

theorem header_roundtrip:
  assumes "header_fits m p" "valid_header h"
  shows "\<exists>m'. header_write_into h m p = Inr m' \<and> header_read_from m' p = Inr h \<and>
    (\<forall>q. header_fits m q \<and> (unat p + 8 \<le> unat q \<or> unat q + 8 \<le> unat p) \<longrightarrow>
       header_read_from m' q = header_read_from m q)"
  using header_write_fits [OF assms(1)] header_read_written [OF assms] header_read_apart by blast

theorem header_roundtrip_witness:
  "\<exists>m'. header_write_into (Free (Ptr 160)) demo_memory 16 = Inr m' \<and>
     header_read_from m' 16 = Inr (Free (Ptr 160))"
proof -
  have "header_fits demo_memory 16" by (simp add: header_fits_def mem_bytes_def demo_memory_def)
  moreover have "valid_header (Free (Ptr 160))" by (simp add: NIL_MARKER_def)
  ultimately show ?thesis using header_roundtrip by blast
qed

text \<open>The order of a size of at most 32 MiB is that of the smallest block that holds it.\<close>

theorem order_from_size_least:
  assumes "unat sz \<le> 33554432"
  shows "\<exists>ord. order_from_size sz = Inr ord \<and> valid_order ord \<and> unat sz \<le> block_len ord \<and>
           (\<forall>ord'. unat sz \<le> block_len ord' \<longrightarrow> block_len ord \<le> block_len ord')"
  using order_from_size_ok [OF assms] by metis

theorem order_from_size_least_witness:
  "\<exists>ord. order_from_size 100 = Inr ord \<and> 100 \<le> block_len ord"
  using order_from_size_least [of 100] by auto

text \<open>
  C40: With the 65536 pages that the page limit allows, every request to the bumper that ends exactly at
  4 GiB is granted, in 32 bits the bumper wraps around to zero, and the next request, whatever its size, is
  granted at address zero, below the heap base.
\<close>

theorem bumper_wraps_at_4GiB:
  assumes "mem_pages m = 65536" "unat bmp + unat sz = 2 ^ 32"
  shows "bump bmp sz m = (Inr bmp, 0, m) \<and> bump 0 sz' m = (Inr 0, sz', m)"
proof -
  have sum: "unat (ucast x + ucast y :: u64) = unat x + unat y" for x y :: u32
    using unat_lt_exp [of x] unat_lt_exp [of y] by (simp add: unat_word_ariths)
  have "bmp + sz = 0" using assms(2) by (simp add: word_unat_eq_iff unat_word_ariths)
  moreover have "unat (mem_size m) = 2 ^ 32" using assms(1) by (simp add: mem_size_def PAGE_SIZE_def)
  then have "\<not> (ucast bmp + ucast sz :: u64) > mem_size m" "\<not> (ucast (0 :: u32) + ucast sz' :: u64) > mem_size m"
    using assms(2) sum [of 0 sz'] unat_lt_exp [of sz'] by (simp_all add: word_less_nat_alt sum)
  ultimately show ?thesis by (simp add: bump_def)
qed

definition full_memory :: memory where
  "full_memory = \<lparr>mem_data = (\<lambda>_. 0), mem_pages = 65536, mem_max_pages = None,
     host_grow = (\<lambda>_ _. False)\<rparr>"

theorem bumper_wraps_at_4GiB_witness:
  "bump 0xFFFFFFF0 16 full_memory = (Inr 0xFFFFFFF0, 0, full_memory) \<and>
   bump 0 24 full_memory = (Inr 0, 24, full_memory)"
  by (rule bumper_wraps_at_4GiB) (simp_all add: full_memory_def)

end
