(* ===== verification/Compact_Codec.thy ===== *)
theory Compact_Codec
  imports Prelude
begin

text \<open>
  \<open>Compact<u32>\<close> of the \<open>parity-scale-codec\<close> crate.  The crate is not part of the repository, so the
  codec is a record of functions the models take as an argument, and the locale \<open>compact_laws\<close>
  states what its documentation promises: decoding reads back an encoded prefix, only canonical
  encodings decode, and \<open>compact_len\<close> is the length of the encoding.  \<open>scale_compact\<close> writes out the
  SCALE format and satisfies the laws.
\<close>

type_synonym bytes = "u8 list"

record compact_codec =
  compact_encode :: "u32 \<Rightarrow> bytes"
  compact_decode :: "bytes \<Rightarrow> u32 option"
  compact_len :: "u32 \<Rightarrow> nat"

locale compact_laws =
  fixes cd :: compact_codec
  assumes decode_encode: "compact_decode cd (compact_encode cd n @ rest) = Some n"
    and decode_canonical: "compact_decode cd bs = Some n \<Longrightarrow> \<exists>rest. bs = compact_encode cd n @ rest"
    and len_encode: "compact_len cd n = length (compact_encode cd n)"
begin

lemma decode_len_le: "compact_decode cd bs = Some n \<Longrightarrow> compact_len cd n \<le> length bs"
  using decode_canonical len_encode by fastforce

lemma decode_split:
  "compact_decode cd bs = Some n \<Longrightarrow> bs = compact_encode cd n @ drop (compact_len cd n) bs"
  using decode_canonical len_encode by fastforce

end

subsection \<open>Little-endian bytes\<close>

fun le_bytes :: "nat \<Rightarrow> nat \<Rightarrow> bytes" where
  "le_bytes 0 x = []"
| "le_bytes (Suc n) x = of_nat (x mod 256) # le_bytes n (x div 256)"

fun le_value :: "bytes \<Rightarrow> nat" where
  "le_value [] = 0"
| "le_value (b # bs) = unat b + 256 * le_value bs"

lemma length_le_bytes [simp]: "length (le_bytes n x) = n"
  by (induction n arbitrary: x) simp_all

lemma unat_byte [simp]: "unat (of_nat (x mod 256) :: u8) = x mod 256"
  by (rule unat_of_nat_small) simp

lemma le_value_bytes: "x < 256 ^ n \<Longrightarrow> le_value (le_bytes n x) = x"
proof (induction n arbitrary: x)
  case (Suc n)
  then have "x div 256 < 256 ^ n" by (simp add: less_mult_imp_div_less mult.commute)
  with Suc show ?case by simp
qed simp

lemma le_bytes_value: "le_bytes (length bs) (le_value bs) = bs"
proof (induction bs)
  case (Cons b bs)
  have "unat b < 256" using unat_lt_exp [of b] by simp
  then show ?case using Cons by simp
qed simp

lemma le_value_less: "le_value bs < 256 ^ length bs"
proof (induction bs)
  case (Cons b bs)
  have "unat b < 256" using unat_lt_exp [of b] by simp
  with Cons show ?case by simp
qed simp

subsection \<open>The SCALE compact format\<close>

definition scale_encode :: "u32 \<Rightarrow> bytes" where
  "scale_encode n =
     (if n < 64 then [4 * ucast n]
      else if n < 16384 then le_bytes 2 (4 * unat n + 1)
      else if n < 1073741824 then le_bytes 4 (4 * unat n + 2)
      else 3 # le_bytes 4 (unat n))"

definition in_range :: "nat \<Rightarrow> nat \<Rightarrow> nat \<Rightarrow> u32 option" where
  "in_range lo hi x = (if lo \<le> x \<and> x < hi then Some (of_nat x) else None)"

definition scale_decode :: "bytes \<Rightarrow> u32 option" where
  "scale_decode bs = (case bs of [] \<Rightarrow> None | b # rest \<Rightarrow>
     (if b mod 4 = 0 then Some (ucast (b div 4))
      else if b mod 4 = 1 then
        (if length bs < 2 then None else in_range 64 16384 (le_value (take 2 bs) div 4))
      else if b mod 4 = 2 then
        (if length bs < 4 then None else in_range 16384 1073741824 (le_value (take 4 bs) div 4))
      else if b = 3 then
        (if length rest < 4 then None
         else in_range 1073741824 4294967296 (le_value (take 4 rest)))
      else None))"

definition scale_len :: "u32 \<Rightarrow> nat" where
  "scale_len n = (if n < 64 then 1 else if n < 16384 then 2 else if n < 1073741824 then 4 else 5)"

definition scale_compact :: compact_codec where
  "scale_compact = \<lparr>compact_encode = scale_encode, compact_decode = scale_decode,
     compact_len = scale_len\<rparr>"

lemma scale_compact_sel [simp]:
  "compact_encode scale_compact = scale_encode"
  "compact_decode scale_compact = scale_decode"
  "compact_len scale_compact = scale_len"
  by (simp_all add: scale_compact_def)

subsection \<open>The format obeys the laws\<close>

lemma byte_mod4: "(b :: u8) mod 4 = of_nat r \<longleftrightarrow> unat b mod 4 = r" if "r < 4"
proof -
  have "unat (b mod 4) = unat b mod 4" by (simp add: unat_mod_distrib)
  moreover have "unat (of_nat r :: u8) = r" using that by (intro unat_of_nat_small) simp
  ultimately show ?thesis by (metis word_unat_eq_iff)
qed

lemma scale_guards:
  "(n :: u32) < 64 \<longleftrightarrow> unat n < 64"
  "n < 16384 \<longleftrightarrow> unat n < 16384"
  "n < 1073741824 \<longleftrightarrow> unat n < 1073741824"
  "(b :: u8) = 3 \<longleftrightarrow> unat b = 3"
  "b mod 4 = 0 \<longleftrightarrow> unat b mod 4 = 0"
  "b mod 4 = 1 \<longleftrightarrow> unat b mod 4 = 1"
  "b mod 4 = 2 \<longleftrightarrow> unat b mod 4 = 2"
  using byte_mod4 [of 0 b] byte_mod4 [of 1 b] byte_mod4 [of 2 b]
  by (simp_all add: word_less_nat_alt word_unat_eq_iff)

lemma in_range_Some:
  "in_range lo hi x = Some n \<Longrightarrow> hi \<le> 4294967296 \<Longrightarrow> lo \<le> unat n \<and> unat n < hi \<and> x = unat n"
  by (auto simp: in_range_def unat_of_nat_small split: if_splits)

lemma in_range_unat: "lo \<le> unat n \<Longrightarrow> unat n < hi \<Longrightarrow> in_range lo hi (unat n) = Some n"
  by (simp add: in_range_def)

lemma scale_len_encode: "scale_len n = length (scale_encode n)"
  by (simp add: scale_len_def scale_encode_def)

lemma unat_mode0: "unat n < 64 \<Longrightarrow> unat (4 * ucast (n :: u32) :: u8) = 4 * unat n"
proof -
  assume n: "unat n < 64"
  then have "unat (ucast n :: u8) = unat n"
    by (simp add: unsigned_ucast_eq take_bit_nat_eq_self)
  with n show ?thesis by (simp add: unat_mult_no_wrap)
qed

lemma scale_decode_head:
  "scale_decode (le_bytes (Suc k) x @ rest) =
     (if x mod 4 = 0 then Some (ucast ((of_nat (x mod 256) :: u8) div 4))
      else if x mod 4 = 1 then
        (if Suc k + length rest < 2 then None
         else in_range 64 16384 (le_value (take 2 (le_bytes (Suc k) x @ rest)) div 4))
      else if x mod 4 = 2 then
        (if Suc k + length rest < 4 then None
         else in_range 16384 1073741824 (le_value (take 4 (le_bytes (Suc k) x @ rest)) div 4))
      else if x mod 256 = 3 then
        (if k + length rest < 4 then None
         else in_range 1073741824 4294967296 (le_value (take 4 (le_bytes k (x div 256) @ rest))))
      else None)"
proof -
  have "x mod 256 mod 4 = x mod 4" by (simp add: mod_mod_cancel)
  then show ?thesis
    by (simp add: scale_decode_def scale_guards del: One_nat_def)
qed

lemma scale_decode_encode: "scale_decode (scale_encode n @ rest) = Some n"
proof -
  have n32: "unat n < 4294967296" using unat_lt_exp [of n] by simp
  consider "unat n < 64" | "64 \<le> unat n" "unat n < 16384"
    | "16384 \<le> unat n" "unat n < 1073741824" | "1073741824 \<le> unat n" by linarith
  then show ?thesis
  proof cases
    case 1
    have "unat (ucast ((4 * ucast n :: u8) div 4) :: u32) = unat n"
      using 1 by (simp add: unat_ucast_up unat_div_distrib unat_mode0)
    then have "ucast ((4 * ucast n :: u8) div 4) = n" by (rule unsigned_word_eqI)
    with 1 show ?thesis
      by (simp add: scale_encode_def scale_decode_def scale_guards unat_mode0)
  next
    case 2
    let ?x = "4 * unat n + 1"
    have "?x mod 4 = 1" "?x div 4 = unat n" by presburger+
    then have "scale_decode (le_bytes 2 ?x @ rest) = Some n"
      using 2 scale_decode_head [of 1 ?x rest]
      by (simp add: le_value_bytes in_range_unat numeral_2_eq_2 [symmetric] del: le_bytes.simps)
    with 2 show ?thesis by (simp add: scale_encode_def scale_guards)
  next
    case 3
    let ?x = "4 * unat n + 2"
    have "?x mod 4 = 2" "?x div 4 = unat n" by presburger+
    then have "scale_decode (le_bytes 4 ?x @ rest) = Some n"
      using 3 scale_decode_head [of 3 ?x rest]
      by (simp add: le_value_bytes in_range_unat del: le_bytes.simps)
    with 3 show ?thesis by (simp add: scale_encode_def scale_guards)
  next
    case 4
    then show ?thesis
      using n32 by (simp add: scale_encode_def scale_decode_def scale_guards le_value_bytes
          in_range_unat del: le_bytes.simps)
  qed
qed

lemma le_bytes_take: "n \<le> length bs \<Longrightarrow> le_bytes n (le_value (take n bs)) = take n bs"
  using le_bytes_value [of "take n bs"] by simp

lemma le_value_mod4: "0 < n \<Longrightarrow> le_value (take n (b # bs)) mod 4 = unat b mod 4"
proof -
  assume "0 < n"
  then obtain k where "n = Suc k" by (cases n) auto
  moreover have "(unat b + 256 * y) mod 4 = unat b mod 4" for y
    using mod_mult_self1 [of "unat b" "64 * y" 4] by simp
  ultimately show ?thesis by simp
qed

lemma encode_from_take:
  assumes "le_value (take k bs) div 4 = unat n" "le_value (take k bs) mod 4 = r" "k \<le> length bs"
  shows "le_bytes k (4 * unat n + r) = take k bs"
proof -
  have "4 * unat n + r = le_value (take k bs)"
    using assms(1,2) by (metis mult_div_mod_eq)
  then show ?thesis using assms(3) by (simp add: le_bytes_take)
qed

lemma scale_decode_canonical:
  assumes "scale_decode bs = Some n"
  shows "\<exists>rest. bs = scale_encode n @ rest"
proof -
  obtain b bs' where bs: "bs = b # bs'"
    using assms by (cases bs) (simp_all add: scale_decode_def)
  have m4: "0 < k \<Longrightarrow> le_value (take k bs) mod 4 = unat b mod 4" for k
    unfolding bs by (rule le_value_mod4)
  note dec = assms [unfolded scale_decode_def bs list.case scale_guards, folded bs]
  consider "unat b mod 4 = 0" | "unat b mod 4 = 1" | "unat b mod 4 = 2" | "unat b mod 4 = 3"
    by linarith
  then show ?thesis
  proof cases
    case 1
    then have n: "n = ucast (b div 4)" using assms by (simp add: bs scale_decode_def scale_guards)
    then have un: "unat n = unat b div 4" by (simp add: unat_ucast_up unat_div_distrib)
    moreover have "unat b < 256" using unat_lt_exp [of b] by simp
    ultimately have "unat n < 64" by linarith
    moreover have "unat (4 * ucast n :: u8) = unat b"
      using 1 un calculation by (simp add: unat_mode0 mult_div_mod_eq [of 4 "unat b"] dvd_eq_mod_eq_0)
    then have "4 * ucast n = b" by (rule unsigned_word_eqI)
    ultimately show ?thesis by (simp add: scale_encode_def scale_guards bs)
  next
    case 2
    then have len: "2 \<le> length bs" and "in_range 64 16384 (le_value (take 2 bs) div 4) = Some n"
      using dec by (simp_all add: not_less split: if_splits)
    then have r: "64 \<le> unat n" "unat n < 16384" "le_value (take 2 bs) div 4 = unat n"
      using in_range_Some [of 64 16384 "le_value (take 2 bs) div 4" n] by auto
    have "scale_encode n = take 2 bs"
      using r(1,2) encode_from_take [OF r(3) _ len, of 1] m4 [of 2] 2
      by (simp add: scale_encode_def scale_guards)
    then show ?thesis by (metis append_take_drop_id)
  next
    case 3
    then have len: "4 \<le> length bs"
      and "in_range 16384 1073741824 (le_value (take 4 bs) div 4) = Some n"
      using dec by (simp_all add: not_less split: if_splits)
    then have r: "16384 \<le> unat n" "unat n < 1073741824" "le_value (take 4 bs) div 4 = unat n"
      using in_range_Some [of 16384 1073741824 "le_value (take 4 bs) div 4" n] by auto
    have "scale_encode n = take 4 bs"
      using r(1,2) encode_from_take [OF r(3) _ len, of 2] m4 [of 4] 3
      by (simp add: scale_encode_def scale_guards)
    then show ?thesis by (metis append_take_drop_id)
  next
    case 4
    then have b: "unat b = 3" and len: "4 \<le> length bs'"
      and "in_range 1073741824 4294967296 (le_value (take 4 bs')) = Some n"
      using dec by (simp_all add: not_less split: if_splits)
    then have r: "1073741824 \<le> unat n" "le_value (take 4 bs') = unat n"
      using in_range_Some [of 1073741824 4294967296 "le_value (take 4 bs')" n] by auto
    have "b = 3" using b by (simp add: scale_guards)
    moreover have "scale_encode n = 3 # take 4 bs'"
      using r le_bytes_take [OF len] by (simp add: scale_encode_def scale_guards)
    ultimately show ?thesis using bs by (metis append_Cons append_take_drop_id)
  qed
qed

interpretation scale: compact_laws scale_compact
  by unfold_locales (simp_all add: scale_decode_encode scale_decode_canonical scale_len_encode)

end
