(* ===== verification/Changeset.thy ===== *)
theory Changeset
  imports BTree_Map Compact_Codec "HOL-Library.List_Lexorder" "HOL-Library.Monad_Syntax"
begin

text \<open>
  The transactional overlay \<open>OverlayedMap\<close> of
  \<open>primitives/state-machine/src/overlayed_changes/changeset.rs\<close>, with \<open>Extrinsics\<close> of \<open>mod.rs\<close> and
  \<open>StorageAppend\<close> of \<open>ext.rs\<close>.

  The vectors \<open>transactions\<close> and \<open>dirty_keys\<close> are used as stacks only and are lists with the newest
  element first: \<open>last()\<close> is the head and \<open>get_mut(len - 2)\<close> the second element.  A set of dirty keys
  is the list of its members.  Every \<open>expect\<close> and every panicking call of the standard library is
  a \<^const>\<open>None\<close>; a \<open>Result\<close> below it is a sum.  Keys are any linearly ordered type.
\<close>

subsection \<open>Extrinsics\<close>

type_synonym extrinsics = "u32 list"

definition extrinsics_insert :: "u32 \<Rightarrow> extrinsics \<Rightarrow> extrinsics" where
  "extrinsics_insert ext es = (if es \<noteq> [] \<and> last es = ext then es else es @ [ext])"

definition extrinsics_extend :: "extrinsics \<Rightarrow> extrinsics \<Rightarrow> extrinsics" where
  "extrinsics_extend es other = es @ other"

subsection \<open>StorageAppend\<close>

definition compact_size :: "compact_codec \<Rightarrow> u32 option \<Rightarrow> nat" where
  "compact_size cd len = (case len of None \<Rightarrow> 0 | Some l \<Rightarrow> compact_len cd l)"

definition extract_length :: "compact_codec \<Rightarrow> bytes \<Rightarrow> u32 option" where
  "extract_length cd data = compact_decode cd data"

text \<open>\<open>Vec::splice(0..n, _)\<close> panics when \<open>n\<close> exceeds the length.\<close>

definition replace_length :: "compact_codec \<Rightarrow> bytes \<Rightarrow> u32 option \<Rightarrow> u32 \<Rightarrow> bytes run" where
  "replace_length cd data old_length new_length =
     (let old_len_encoded_len = compact_size cd old_length in
      if old_len_encoded_len \<le> length data
      then Some (compact_encode cd new_length @ drop old_len_encoded_len data) else panic)"

definition append_raw :: "bytes \<Rightarrow> bytes \<Rightarrow> bytes" where
  "append_raw data v = data @ v"

subsection \<open>StorageEntry\<close>

datatype storage_entry =
    Entry_Set bytes
  | Entry_Remove
  | Entry_Append (entry_data: bytes) (current_length: u32) (materialized_length: "u32 option")
      (parent_size: "nat option")

definition materialize_in_place :: "compact_codec \<Rightarrow> storage_entry \<Rightarrow> storage_entry run" where
  "materialize_in_place cd e = (case e of
     Entry_Append data cur mat ps \<Rightarrow>
       if mat = Some cur then Some e
       else do { data' \<leftarrow> replace_length cd data mat cur; Some (Entry_Append data' cur (Some cur) ps) }
   | _ \<Rightarrow> Some e)"

text \<open>The match on the materialized entry shared by \<open>to_option\<close> and \<open>as_option\<close>.\<close>

definition entry_bytes :: "storage_entry \<Rightarrow> bytes option" where
  "entry_bytes e = (case e of Entry_Append data _ _ _ \<Rightarrow> Some data | Entry_Set data \<Rightarrow> Some data
     | Entry_Remove \<Rightarrow> None)"

definition to_option :: "compact_codec \<Rightarrow> storage_entry \<Rightarrow> bytes option run" where
  "to_option cd e = do { e' \<leftarrow> materialize_in_place cd e; Some (entry_bytes e') }"

definition as_option :: "compact_codec \<Rightarrow> storage_entry \<Rightarrow> (bytes option \<times> storage_entry) run" where
  "as_option cd e = do { e' \<leftarrow> materialize_in_place cd e; Some (entry_bytes e', e') }"

subsection \<open>OverlayedEntry\<close>

record 'v inner_value =
  iv_value :: 'v
  iv_extrinsics :: extrinsics

type_synonym 'v overlayed_entry = "'v inner_value list"

definition value_ref :: "'v overlayed_entry \<Rightarrow> 'v run" where
  "value_ref ts = (case ts of [] \<Rightarrow> panic | t # _ \<Rightarrow> Some (iv_value t))"

definition into_value :: "'v overlayed_entry \<Rightarrow> 'v run" where
  "into_value ts = (case ts of [] \<Rightarrow> panic | t # _ \<Rightarrow> Some (iv_value t))"

definition entry_extrinsics :: "'v overlayed_entry \<Rightarrow> u32 set" where
  "entry_extrinsics ts = (\<Union>t \<in> set ts. set (iv_extrinsics t))"

text \<open>Assignment through \<open>value_mut\<close> and through \<open>transaction_extrinsics_mut\<close>.\<close>

definition value_mut :: "('v \<Rightarrow> 'v) \<Rightarrow> 'v overlayed_entry \<Rightarrow> 'v overlayed_entry run" where
  "value_mut f ts = (case ts of [] \<Rightarrow> panic | t # r \<Rightarrow> Some (t\<lparr>iv_value := f (iv_value t)\<rparr> # r))"

definition transaction_extrinsics_mut ::
  "(extrinsics \<Rightarrow> extrinsics) \<Rightarrow> 'v overlayed_entry \<Rightarrow> 'v overlayed_entry run" where
  "transaction_extrinsics_mut f ts = (case ts of [] \<Rightarrow> panic
     | t # r \<Rightarrow> Some (t\<lparr>iv_extrinsics := f (iv_extrinsics t)\<rparr> # r))"

definition pop_transaction :: "'v overlayed_entry \<Rightarrow> ('v inner_value \<times> 'v overlayed_entry) run" where
  "pop_transaction ts = (case ts of [] \<Rightarrow> panic | t # r \<Rightarrow> Some (t, r))"

definition push_value :: "'v \<Rightarrow> 'v overlayed_entry \<Rightarrow> 'v overlayed_entry" where
  "push_value v ts = \<lparr>iv_value = v, iv_extrinsics = []\<rparr> # ts"

definition note_extrinsic :: "u32 option \<Rightarrow> 'v overlayed_entry \<Rightarrow> 'v overlayed_entry run" where
  "note_extrinsic at_extrinsic ts = (case at_extrinsic of None \<Rightarrow> Some ts
     | Some ext \<Rightarrow> transaction_extrinsics_mut (extrinsics_insert ext) ts)"

definition entry_set_offchain ::
  "'v \<Rightarrow> bool \<Rightarrow> u32 option \<Rightarrow> 'v overlayed_entry \<Rightarrow> 'v overlayed_entry run" where
  "entry_set_offchain v first_write_in_tx at_extrinsic ts =
     do { ts' \<leftarrow> (if first_write_in_tx \<or> ts = [] then Some (push_value v ts)
                  else value_mut (\<lambda>_. v) ts);
          note_extrinsic at_extrinsic ts' }"

text \<open>\<open>usize\<close> subtraction of the release profile.\<close>

definition usize_sub :: "nat \<Rightarrow> nat \<Rightarrow> nat" where
  "usize_sub a b = (if b \<le> a then a - b else 2 ^ 64 + a - b)"

definition restore_append_to_parent ::
  "compact_codec \<Rightarrow> storage_entry \<Rightarrow> bytes \<Rightarrow> u32 option \<Rightarrow> nat \<Rightarrow> storage_entry" where
  "restore_append_to_parent cd parent current_data current_materialized target_parent_size =
     (case parent of
        Entry_Append parent_data cur parent_materialized ps \<Rightarrow>
          (let prev = compact_size cd parent_materialized;
               new = compact_size cd current_materialized;
               target = (if prev \<ge> new then usize_sub target_parent_size (prev - new)
                         else target_parent_size + (new - prev))
           in Entry_Append (take target current_data) cur current_materialized ps)
      | _ \<Rightarrow> parent)"

text \<open>\<open>restore_append_to_parent\<close> on the value below the top of a stack of versions.\<close>

definition restore_below ::
  "compact_codec \<Rightarrow> bytes \<Rightarrow> u32 option \<Rightarrow> nat \<Rightarrow> storage_entry overlayed_entry
     \<Rightarrow> storage_entry overlayed_entry run" where
  "restore_below cd data mat size_in_parent ts =
     value_mut (\<lambda>p. restore_append_to_parent cd p data mat size_in_parent) ts"

definition entry_set ::
  "compact_codec \<Rightarrow> bytes option \<Rightarrow> bool \<Rightarrow> u32 option \<Rightarrow> storage_entry overlayed_entry
     \<Rightarrow> storage_entry overlayed_entry run" where
  "entry_set cd v first_write_in_tx at_extrinsic ts =
     (let new = (case v of None \<Rightarrow> Entry_Remove | Some x \<Rightarrow> Entry_Set x) in
      do { ts' \<leftarrow> (if first_write_in_tx then Some (push_value new ts)
                   else case ts of [] \<Rightarrow> Some (push_value new ts)
                   | t # rest \<Rightarrow>
                     (case iv_value t of
                        Entry_Append data _ mat (Some size_in_parent) \<Rightarrow>
                          do { rest' \<leftarrow> restore_below cd data mat size_in_parent rest;
                               Some (t\<lparr>iv_value := new\<rparr> # rest') }
                      | _ \<Rightarrow> Some (t\<lparr>iv_value := new\<rparr> # rest)));
           note_extrinsic at_extrinsic ts' })"

text \<open>
  Appending to the encoded list \<open>prev\<close>, or starting a new list when \<open>prev\<close> has no length prefix: the
  data, the current length and the materialized length of the resulting entry.
\<close>

definition append_start :: "compact_codec \<Rightarrow> bytes \<Rightarrow> bytes \<Rightarrow> bytes \<times> u32 \<times> u32 option" where
  "append_start cd prev element = (case extract_length cd prev of
     Some len \<Rightarrow> (append_raw prev element, len + 1, Some len)
   | None \<Rightarrow> (element, 1, None))"

definition entry_append ::
  "compact_codec \<Rightarrow> bytes \<Rightarrow> bool \<Rightarrow> (unit \<Rightarrow> bytes run) \<Rightarrow> u32 option
     \<Rightarrow> storage_entry overlayed_entry \<Rightarrow> storage_entry overlayed_entry run" where
  "entry_append cd element first_write_in_tx init at_extrinsic ts =
     do { ts' \<leftarrow> (case ts of
            [] \<Rightarrow> do { init_value \<leftarrow> init ();
                       let (data, cur, mat) = append_start cd init_value element;
                       Some (push_value (Entry_Append data cur mat None) []) }
          | t # rest \<Rightarrow>
            (if first_write_in_tx then
               Some (case iv_value t of
                 Entry_Remove \<Rightarrow> push_value (Entry_Append element 1 None None) ts
               | Entry_Append data cur mat ps \<Rightarrow>
                   push_value (Entry_Append (append_raw data element) (cur + 1) mat (Some (length data)))
                     (t\<lparr>iv_value := Entry_Append [] cur mat ps\<rparr> # rest)
               | Entry_Set prev \<Rightarrow>
                   (let (data, cur, mat) = append_start cd prev element
                    in push_value (Entry_Append data cur mat None) ts))
             else
               Some (case iv_value t of
                 Entry_Remove \<Rightarrow> t\<lparr>iv_value := Entry_Append element 1 None None\<rparr> # rest
               | Entry_Set prev \<Rightarrow>
                   (let (data, cur, mat) = append_start cd prev element
                    in t\<lparr>iv_value := Entry_Append data cur mat None\<rparr> # rest)
               | Entry_Append data cur mat ps \<Rightarrow>
                   t\<lparr>iv_value := Entry_Append (append_raw data element) (cur + 1) mat ps\<rparr> # rest)));
          note_extrinsic at_extrinsic ts' }"

text \<open>Reading materializes the newest version in place.\<close>

definition entry_value ::
  "compact_codec \<Rightarrow> storage_entry overlayed_entry \<Rightarrow> (bytes option \<times> storage_entry overlayed_entry) run"
  where
  "entry_value cd ts = (case ts of [] \<Rightarrow> panic
     | t # rest \<Rightarrow> do { (v, e) \<leftarrow> as_option cd (iv_value t); Some (v, t\<lparr>iv_value := e\<rparr> # rest) })"

subsection \<open>OverlayedMap\<close>

datatype no_open_transaction = NoOpenTransaction
datatype already_in_runtime = AlreadyInRuntime
datatype not_in_runtime = NotInRuntime

datatype execution_mode = Client | Runtime

record ('k, 'v) overlayed_map =
  changes :: "('k, 'v overlayed_entry) btree"
  dirty_keys :: "'k list list"
  num_client_transactions :: nat
  execution_mode :: execution_mode

type_synonym 'k changeset = "('k, storage_entry) overlayed_map"

definition om_default :: "('k, 'v) overlayed_map" where
  "om_default = \<lparr>changes = [], dirty_keys = [], num_client_transactions = 0, execution_mode = Client\<rparr>"

definition om_from_storage :: "('k, bytes) btree \<Rightarrow> 'k changeset" where
  "om_from_storage storage =
     \<lparr>changes = map (\<lambda>(k, v). (k, [\<lparr>iv_value = Entry_Set v, iv_extrinsics = []\<rparr>])) storage,
      dirty_keys = [], num_client_transactions = 0, execution_mode = Client\<rparr>"

definition insert_dirty :: "'k \<Rightarrow> 'k list list \<Rightarrow> bool \<times> 'k list list" where
  "insert_dirty k ds = (case ds of [] \<Rightarrow> (False, [])
     | d # r \<Rightarrow> (if k \<in> set d then (False, ds) else (True, (k # d) # r)))"

definition transaction_depth :: "('k, 'v) overlayed_map \<Rightarrow> nat" where
  "transaction_depth m = length (dirty_keys m)"

definition spawn_child :: "('k, 'v) overlayed_map \<Rightarrow> ('k, 'w) overlayed_map" where
  "spawn_child m = \<lparr>changes = [], dirty_keys = replicate (transaction_depth m) [],
     num_client_transactions = num_client_transactions m, execution_mode = execution_mode m\<rparr>"

definition om_is_empty :: "('k, 'v) overlayed_map \<Rightarrow> bool" where
  "om_is_empty m \<longleftrightarrow> changes m = []"

definition om_get :: "'k \<Rightarrow> ('k, 'v) overlayed_map \<Rightarrow> 'v overlayed_entry option" where
  "om_get k m = bt_get (changes m) k"

text \<open>
  \<open>get(key)\<close> followed by \<open>value()\<close>, the way the overlay is read: the entry is materialized in place.
\<close>

definition om_value ::
  "compact_codec \<Rightarrow> 'k::linorder \<Rightarrow> 'k changeset \<Rightarrow> (bytes option option \<times> 'k changeset) run" where
  "om_value cd k m = (case om_get k m of None \<Rightarrow> Some (None, m)
     | Some ts \<Rightarrow> do { (v, ts') \<leftarrow> entry_value cd ts;
                     Some (Some v, m\<lparr>changes := bt_insert k ts' (changes m)\<rparr>) })"

text \<open>\<open>entry(key).or_default()\<close>: the empty history for an unknown key.\<close>

definition or_default :: "'v list option \<Rightarrow> 'v list" where
  "or_default x = (case x of None \<Rightarrow> [] | Some ts \<Rightarrow> ts)"

text \<open>
  The frame shared by \<open>set_offchain\<close>, \<open>set\<close> and \<open>append_storage\<close>: fetch or create the entry, mark the
  key dirty, and write the entry with the outcome of the marking.
\<close>

definition om_write ::
  "'k::linorder \<Rightarrow> (bool \<Rightarrow> 'v overlayed_entry \<Rightarrow> 'v overlayed_entry run) \<Rightarrow> ('k, 'v) overlayed_map
     \<Rightarrow> ('k, 'v) overlayed_map run" where
  "om_write k f m =
     (let overlayed = or_default (bt_get (changes m) k);
          (first_write_in_tx, ds) = insert_dirty k (dirty_keys m)
      in do { ts \<leftarrow> f first_write_in_tx overlayed;
              Some (m\<lparr>changes := bt_insert k ts (changes m), dirty_keys := ds\<rparr>) })"

definition set_offchain ::
  "'k::linorder \<Rightarrow> 'v \<Rightarrow> u32 option \<Rightarrow> ('k, 'v) overlayed_map \<Rightarrow> ('k, 'v) overlayed_map run" where
  "set_offchain k v at_extrinsic m =
     om_write k (\<lambda>first ts. entry_set_offchain v first at_extrinsic ts) m"

definition om_set ::
  "compact_codec \<Rightarrow> 'k::linorder \<Rightarrow> bytes option \<Rightarrow> u32 option \<Rightarrow> 'k changeset \<Rightarrow> 'k changeset run" where
  "om_set cd k v at_extrinsic m = om_write k (\<lambda>first ts. entry_set cd v first at_extrinsic ts) m"

definition append_storage ::
  "compact_codec \<Rightarrow> 'k::linorder \<Rightarrow> bytes \<Rightarrow> (unit \<Rightarrow> bytes run) \<Rightarrow> u32 option \<Rightarrow> 'k changeset
     \<Rightarrow> 'k changeset run" where
  "append_storage cd k element init at_extrinsic m =
     om_write k (\<lambda>first ts. entry_append cd element first init at_extrinsic ts) m"

definition drain_committed :: "('k, 'v) overlayed_map \<Rightarrow> ('k \<times> 'v) list run" where
  "drain_committed m =
     (if transaction_depth m \<noteq> 0 then panic
      else those (map (\<lambda>(k, ts). do { (t, _) \<leftarrow> pop_transaction ts; Some (k, iv_value t) }) (changes m)))"

definition om_start_transaction :: "('k, 'v) overlayed_map \<Rightarrow> ('k, 'v) overlayed_map" where
  "om_start_transaction m = m\<lparr>dirty_keys := [] # dirty_keys m\<rparr>"

definition om_enter_runtime ::
  "('k, 'v) overlayed_map \<Rightarrow> (already_in_runtime + unit) \<times> ('k, 'v) overlayed_map" where
  "om_enter_runtime m = (case execution_mode m of
     Runtime \<Rightarrow> (Inl AlreadyInRuntime, m)
   | Client \<Rightarrow> (Inr (), m\<lparr>execution_mode := Runtime, num_client_transactions := transaction_depth m\<rparr>))"

definition has_open_runtime_transactions :: "('k, 'v) overlayed_map \<Rightarrow> bool" where
  "has_open_runtime_transactions m \<longleftrightarrow> transaction_depth m > num_client_transactions m"

subsection \<open>Closing transactions\<close>

text \<open>
  \<open>has_predecessor\<close>: in a nested transaction, whether the enclosing one wrote the key (which it does
  from now on); in the outermost one, whether a committed value exists.
\<close>

definition has_predecessor :: "'k \<Rightarrow> 'v overlayed_entry \<Rightarrow> 'k list list \<Rightarrow> bool \<times> 'k list list" where
  "has_predecessor k ts ds = (case ds of [] \<Rightarrow> (length ts > 1, [])
     | _ \<Rightarrow> (let (new, ds') = insert_dirty k ds in (\<not> new, ds')))"

text \<open>What remains of an entry after a rollback is dropped when it is empty.\<close>

definition store_or_remove ::
  "'k::linorder \<Rightarrow> 'v overlayed_entry \<Rightarrow> ('k, 'v overlayed_entry) btree
     \<Rightarrow> ('k, 'v overlayed_entry) btree" where
  "store_or_remove k ts c = (if ts = [] then bt_remove k c else bt_insert k ts c)"

definition close_key_offchain ::
  "bool \<Rightarrow> 'k::linorder \<Rightarrow> ('k, 'v) overlayed_map \<Rightarrow> ('k, 'v) overlayed_map run" where
  "close_key_offchain rollback k m =
     (case bt_get (changes m) k of None \<Rightarrow> panic | Some ts \<Rightarrow>
        if rollback then
          do { (_, rest) \<leftarrow> pop_transaction ts;
               Some (m\<lparr>changes := store_or_remove k rest (changes m)\<rparr>) }
        else
          (let (pred, ds) = has_predecessor k ts (dirty_keys m) in
           do { ts' \<leftarrow> (if pred then
                          do { (dropped_tx, rest) \<leftarrow> pop_transaction ts;
                               rest' \<leftarrow> value_mut (\<lambda>_. iv_value dropped_tx) rest;
                               transaction_extrinsics_mut
                                 (\<lambda>es. extrinsics_extend es (iv_extrinsics dropped_tx)) rest' }
                        else Some ts);
                Some (m\<lparr>changes := bt_insert k ts' (changes m), dirty_keys := ds\<rparr>) }))"

fun for_keys :: "('k \<Rightarrow> 's \<Rightarrow> 's run) \<Rightarrow> 'k list \<Rightarrow> 's \<Rightarrow> 's run" where
  "for_keys f [] m = Some m"
| "for_keys f (k # ks) m = do { m' \<leftarrow> f k m; for_keys f ks m' }"

text \<open>
  The guard and the loop shared by \<open>close_transaction\<close> and \<open>close_transaction_offchain\<close>.
\<close>

definition close_with ::
  "('k \<Rightarrow> ('k, 'v) overlayed_map \<Rightarrow> ('k, 'v) overlayed_map run) \<Rightarrow> ('k, 'v) overlayed_map
     \<Rightarrow> ((no_open_transaction + unit) \<times> ('k, 'v) overlayed_map) run" where
  "close_with close_key m =
     (if execution_mode m = Runtime \<and> \<not> has_open_runtime_transactions m
      then Some (Inl NoOpenTransaction, m)
      else case dirty_keys m of
        [] \<Rightarrow> Some (Inl NoOpenTransaction, m)
      | d # ds \<Rightarrow> do { m' \<leftarrow> for_keys close_key d (m\<lparr>dirty_keys := ds\<rparr>); Some (Inr (), m') })"

definition close_transaction_offchain ::
  "bool \<Rightarrow> ('k::linorder, 'v) overlayed_map
     \<Rightarrow> ((no_open_transaction + unit) \<times> ('k, 'v) overlayed_map) run" where
  "close_transaction_offchain rollback m = close_with (close_key_offchain rollback) m"

abbreviation "rollback_transaction_offchain \<equiv> close_transaction_offchain True"
abbreviation "commit_transaction_offchain \<equiv> close_transaction_offchain False"

text \<open>
  Committing a version over its predecessor \<open>r\<close>: either the two are consecutive appends and the
  committed one inherits the predecessor's \<open>parent_size\<close>, or the predecessor is overwritten and, if
  it holds data moved out of its own parent, hands them back.
\<close>

definition overwrite_committed ::
  "compact_codec \<Rightarrow> storage_entry \<Rightarrow> storage_entry overlayed_entry \<Rightarrow> storage_entry overlayed_entry run"
  where
  "overwrite_committed cd v r =
     do { removed \<leftarrow> value_ref r;
          r' \<leftarrow> value_mut (\<lambda>_. v) r;
          Some (case removed of
            Entry_Append data _ mat (Some size_in_parent) \<Rightarrow>
              (case r' of
                 t # parent # rest \<Rightarrow>
                   t # parent\<lparr>iv_value :=
                     restore_append_to_parent cd (iv_value parent) data mat size_in_parent\<rparr> # rest
               | _ \<Rightarrow> r')
          | _ \<Rightarrow> r') }"

definition merge_committed ::
  "compact_codec \<Rightarrow> storage_entry inner_value \<Rightarrow> storage_entry overlayed_entry
     \<Rightarrow> storage_entry overlayed_entry run" where
  "merge_committed cd committed_tx r =
     do { r' \<leftarrow> (case iv_value committed_tx of
                  Entry_Append data cur mat (Some size_in_parent) \<Rightarrow>
                    do { parent \<leftarrow> value_ref r;
                         (case parent of
                            Entry_Append _ _ _ keep_me \<Rightarrow> value_mut (\<lambda>_. Entry_Append data cur mat keep_me) r
                          | _ \<Rightarrow> overwrite_committed cd (iv_value committed_tx) r) }
                | v \<Rightarrow> overwrite_committed cd v r);
          transaction_extrinsics_mut (\<lambda>es. extrinsics_extend es (iv_extrinsics committed_tx)) r' }"

definition close_key ::
  "compact_codec \<Rightarrow> bool \<Rightarrow> 'k::linorder \<Rightarrow> 'k changeset \<Rightarrow> 'k changeset run" where
  "close_key cd rollback k m =
     (case bt_get (changes m) k of None \<Rightarrow> panic | Some ts \<Rightarrow>
        if rollback then
          do { (t, rest) \<leftarrow> pop_transaction ts;
               rest' \<leftarrow> (case iv_value t of
                          Entry_Append data _ mat (Some size_in_parent) \<Rightarrow>
                            restore_below cd data mat size_in_parent rest
                        | _ \<Rightarrow> Some rest);
               Some (m\<lparr>changes := store_or_remove k rest' (changes m)\<rparr>) }
        else
          (let (pred, ds) = has_predecessor k ts (dirty_keys m) in
           do { ts' \<leftarrow> (if pred then
                          do { (committed_tx, rest) \<leftarrow> pop_transaction ts;
                               merge_committed cd committed_tx rest }
                        else Some ts);
                Some (m\<lparr>changes := bt_insert k ts' (changes m), dirty_keys := ds\<rparr>) }))"

definition close_transaction ::
  "compact_codec \<Rightarrow> bool \<Rightarrow> 'k::linorder changeset \<Rightarrow> ((no_open_transaction + unit) \<times> 'k changeset) run"
  where
  "close_transaction cd rollback m = close_with (close_key cd rollback) m"

abbreviation "om_rollback_transaction cd \<equiv> close_transaction cd True"
abbreviation "om_commit_transaction cd \<equiv> close_transaction cd False"

subsection \<open>Leaving the runtime\<close>

text \<open>
  \<open>while has_open_runtime_transactions { rollback.expect }\<close>: the number of open transactions bounds
  the iterations, since each closes one.
\<close>

fun rollback_dangling ::
  "nat \<Rightarrow> (('k, 'v) overlayed_map \<Rightarrow> ((no_open_transaction + unit) \<times> ('k, 'v) overlayed_map) run)
     \<Rightarrow> ('k, 'v) overlayed_map \<Rightarrow> ('k, 'v) overlayed_map run" where
  "rollback_dangling fuel rollback m =
     (if has_open_runtime_transactions m then
        (case fuel of 0 \<Rightarrow> panic
         | Suc fuel' \<Rightarrow> do { (r, m') \<leftarrow> rollback m;
                            (case r of Inl _ \<Rightarrow> panic | Inr _ \<Rightarrow> rollback_dangling fuel' rollback m') })
      else Some m)"

declare rollback_dangling.simps [simp del]

definition exit_with ::
  "(('k, 'v) overlayed_map \<Rightarrow> ((no_open_transaction + unit) \<times> ('k, 'v) overlayed_map) run)
     \<Rightarrow> ('k, 'v) overlayed_map \<Rightarrow> ((not_in_runtime + unit) \<times> ('k, 'v) overlayed_map) run" where
  "exit_with rollback m = (case execution_mode m of
     Client \<Rightarrow> Some (Inl NotInRuntime, m)
   | Runtime \<Rightarrow> do { m' \<leftarrow> rollback_dangling (transaction_depth m) rollback (m\<lparr>execution_mode := Client\<rparr>);
                    Some (Inr (), m') })"

definition om_exit_runtime_offchain ::
  "('k::linorder, 'v) overlayed_map \<Rightarrow> ((not_in_runtime + unit) \<times> ('k, 'v) overlayed_map) run" where
  "om_exit_runtime_offchain m = exit_with rollback_transaction_offchain m"

definition om_exit_runtime ::
  "compact_codec \<Rightarrow> 'k::linorder changeset \<Rightarrow> ((not_in_runtime + unit) \<times> 'k changeset) run" where
  "om_exit_runtime cd m = exit_with (om_rollback_transaction cd) m"

subsection \<open>Bulk operations\<close>

fun clear_entries ::
  "compact_codec \<Rightarrow> ('k \<Rightarrow> storage_entry overlayed_entry \<Rightarrow> bool) \<Rightarrow> u32 option
     \<Rightarrow> ('k, storage_entry overlayed_entry) btree \<Rightarrow> 'k list list
     \<Rightarrow> (u32 \<times> ('k, storage_entry overlayed_entry) btree \<times> 'k list list) run" where
  "clear_entries cd predicate at_extrinsic [] ds = Some (0, [], ds)"
| "clear_entries cd predicate at_extrinsic ((k, ts) # rest) ds =
     (if predicate k ts then
        do { v \<leftarrow> value_ref ts;
             let (first_write_in_tx, ds1) = insert_dirty k ds;
             ts' \<leftarrow> entry_set cd None first_write_in_tx at_extrinsic ts;
             (count, rest', ds2) \<leftarrow> clear_entries cd predicate at_extrinsic rest ds1;
             Some (count + (if v = Entry_Remove then 0 else 1), (k, ts') # rest', ds2) }
      else
        do { (count, rest', ds') \<leftarrow> clear_entries cd predicate at_extrinsic rest ds;
             Some (count, (k, ts) # rest', ds') })"

definition clear_where ::
  "compact_codec \<Rightarrow> ('k \<Rightarrow> storage_entry overlayed_entry \<Rightarrow> bool) \<Rightarrow> u32 option \<Rightarrow> 'k changeset
     \<Rightarrow> (u32 \<times> 'k changeset) run" where
  "clear_where cd predicate at_extrinsic m =
     do { (count, c, ds) \<leftarrow> clear_entries cd predicate at_extrinsic (changes m) (dirty_keys m);
          Some (count, m\<lparr>changes := c, dirty_keys := ds\<rparr>) }"

definition changes_after ::
  "'k::linorder \<Rightarrow> ('k, 'v) overlayed_map \<Rightarrow> ('k, 'v overlayed_entry) btree" where
  "changes_after k m = bt_after k (changes m)"

end
