(* ===== verification/Overlayed_Changes.thy ===== *)
theory Overlayed_Changes
  imports Changeset "HOL-Library.Product_Lexorder"
begin

text \<open>
  \<open>OverlayedChanges\<close> of \<open>primitives/state-machine/src/overlayed_changes/mod.rs\<close>: the changes to the top
  trie, to the child tries and to the offchain database, which open and close transactions in
  lockstep, with the statistics and the cached storage root.  \<open>OffchainOverlayedChanges\<close> of
  \<open>offchain.rs\<close>, the statistics of \<open>stats.rs\<close> and \<open>ChildInfo\<close> of \<open>primitives/storage\<close> are here too.

  The state backend is a record of functions, since the trie it reads is not part of the model; its
  method \<open>full_storage_root\<close>, which the trait implements, is.  The hash map of child tries is kept in key
  order.
\<close>

subsection \<open>Storage keys and child tries\<close>

definition ascii :: "string \<Rightarrow> bytes" where
  "ascii s = map of_char s"

definition EXTRINSIC_INDEX :: bytes where
  "EXTRINSIC_INDEX = ascii '':extrinsic_index''"

definition CHILD_STORAGE_KEY_PREFIX :: bytes where
  "CHILD_STORAGE_KEY_PREFIX = ascii '':child_storage:''"

definition DEFAULT_CHILD_STORAGE_KEY_PREFIX :: bytes where
  "DEFAULT_CHILD_STORAGE_KEY_PREFIX = ascii '':child_storage:default:''"

definition starts_with :: "bytes \<Rightarrow> bytes \<Rightarrow> bool" where
  "starts_with key p \<longleftrightarrow> take (length p) key = p"

definition is_default_child_storage_key :: "bytes \<Rightarrow> bool" where
  "is_default_child_storage_key key = starts_with key DEFAULT_CHILD_STORAGE_KEY_PREFIX"

definition is_child_storage_key :: "bytes \<Rightarrow> bool" where
  "is_child_storage_key key = starts_with key CHILD_STORAGE_KEY_PREFIX"

definition starts_with_child_storage_key :: "bytes \<Rightarrow> bool" where
  "starts_with_child_storage_key key =
     (if length key > length CHILD_STORAGE_KEY_PREFIX then starts_with key CHILD_STORAGE_KEY_PREFIX
      else starts_with CHILD_STORAGE_KEY_PREFIX key)"

datatype child_info = ParentKeyId bytes

fun child_storage_key :: "child_info \<Rightarrow> bytes" where
  "child_storage_key (ParentKeyId data) = data"

fun try_update :: "child_info \<Rightarrow> child_info \<Rightarrow> bool" where
  "try_update (ParentKeyId data) (ParentKeyId other) = (data = other)"

fun prefixed_storage_key :: "child_info \<Rightarrow> bytes" where
  "prefixed_storage_key (ParentKeyId data) = DEFAULT_CHILD_STORAGE_KEY_PREFIX @ data"

definition from_prefixed_key :: "bytes \<Rightarrow> bytes option" where
  "from_prefixed_key storage_key =
     (if starts_with storage_key DEFAULT_CHILD_STORAGE_KEY_PREFIX
      then Some (drop (length DEFAULT_CHILD_STORAGE_KEY_PREFIX) storage_key) else None)"

datatype state_version = V0 | V1

definition state_version_of_u8 :: "u8 \<Rightarrow> state_version option" where
  "state_version_of_u8 v = (if v = 0 then Some V0 else if v = 1 then Some V1
     else if v = 2 then Some V1 else None)"

definition u8_of_state_version :: "state_version \<Rightarrow> u8" where
  "u8_of_state_version v = (case v of V0 \<Rightarrow> 0 | V1 \<Rightarrow> 1)"

subsection \<open>Statistics\<close>

record state_machine_stats =
  reads_modified :: u64
  bytes_read_modified :: u64
  writes_overlay :: u64
  bytes_writes_overlay :: u64

definition stats_default :: state_machine_stats where
  "stats_default = \<lparr>reads_modified = 0, bytes_read_modified = 0, writes_overlay = 0,
     bytes_writes_overlay = 0\<rparr>"

definition stats_add :: "state_machine_stats \<Rightarrow> state_machine_stats \<Rightarrow> state_machine_stats" where
  "stats_add s other = \<lparr>reads_modified = reads_modified s + reads_modified other,
     bytes_read_modified = bytes_read_modified s + bytes_read_modified other,
     writes_overlay = writes_overlay s + writes_overlay other,
     bytes_writes_overlay = bytes_writes_overlay s + bytes_writes_overlay other\<rparr>"

definition tally_read_modified :: "u64 \<Rightarrow> state_machine_stats \<Rightarrow> state_machine_stats" where
  "tally_read_modified data_bytes s = s\<lparr>reads_modified := reads_modified s + 1,
     bytes_read_modified := bytes_read_modified s + data_bytes\<rparr>"

definition tally_write_overlay :: "u64 \<Rightarrow> state_machine_stats \<Rightarrow> state_machine_stats" where
  "tally_write_overlay data_bytes s = s\<lparr>writes_overlay := writes_overlay s + 1,
     bytes_writes_overlay := bytes_writes_overlay s + data_bytes\<rparr>"

text \<open>\<open>val.map(|x| x.len() as u64).unwrap_or(0)\<close>.\<close>

definition value_size :: "bytes option \<Rightarrow> u64" where
  "value_size v = (case v of None \<Rightarrow> 0 | Some x \<Rightarrow> of_nat (length x))"

subsection \<open>Offchain overlay\<close>

datatype offchain_overlayed_change = Offchain_Remove | Offchain_SetValue bytes

type_synonym offchain_changes = "(bytes \<times> bytes, offchain_overlayed_change) overlayed_map"

definition offchain_remove :: "bytes \<Rightarrow> bytes \<Rightarrow> offchain_changes \<Rightarrow> offchain_changes run" where
  "offchain_remove p key m = set_offchain (p, key) Offchain_Remove None m"

definition offchain_set :: "bytes \<Rightarrow> bytes \<Rightarrow> bytes \<Rightarrow> offchain_changes \<Rightarrow> offchain_changes run" where
  "offchain_set p key v m = set_offchain (p, key) (Offchain_SetValue v) None m"

definition offchain_get :: "bytes \<Rightarrow> bytes \<Rightarrow> offchain_changes \<Rightarrow> offchain_overlayed_change option run" where
  "offchain_get p key m = (case om_get (p, key) m of None \<Rightarrow> Some None
     | Some ts \<Rightarrow> map_option Some (value_ref ts))"

definition offchain_into_iter ::
  "offchain_changes \<Rightarrow> ((bytes \<times> bytes) \<times> offchain_overlayed_change) list run" where
  "offchain_into_iter m = those (map (\<lambda>(k, ts). map_option (Pair k) (into_value ts)) (changes m))"

definition offchain_drain ::
  "offchain_changes \<Rightarrow> (((bytes \<times> bytes) \<times> offchain_overlayed_change) list \<times> offchain_changes) run" where
  "offchain_drain m = do { xs \<leftarrow> offchain_into_iter m; Some (xs, om_default) }"

subsection \<open>The state\<close>

record ('h, 't) storage_transaction_cache =
  stc_transaction :: 't
  stc_root :: 'h
  stc_state_version :: state_version

datatype index_operation =
    Index_Insert (extrinsic: u32) (hash: bytes) (index_size: u32)
  | Index_Renew (extrinsic: u32) (hash: bytes)

record ('h, 't) overlayed_changes =
  oc_top :: "bytes changeset"
  oc_children :: "(bytes, bytes changeset \<times> child_info) btree"
  oc_offchain :: offchain_changes
  oc_transaction_index_ops :: "index_operation list"
  oc_collect_extrinsics :: bool
  oc_stats :: state_machine_stats
  oc_storage_transaction_cache :: "('h, 't) storage_transaction_cache option"

definition oc_default :: "('h, 't) overlayed_changes" where
  "oc_default = \<lparr>oc_top = om_default, oc_children = [], oc_offchain = om_default,
     oc_transaction_index_ops = [], oc_collect_extrinsics = False, oc_stats = stats_default,
     oc_storage_transaction_cache = None\<rparr>"

definition oc_from_storage ::
  "(bytes, bytes) btree \<Rightarrow> (bytes, (bytes, bytes) btree \<times> child_info) btree \<Rightarrow> ('h, 't) overlayed_changes" where
  "oc_from_storage top_map children_default = oc_default\<lparr>oc_top := om_from_storage top_map,
     oc_children := map (\<lambda>(k, (data, ci)). (k, (om_from_storage data, ci))) children_default\<rparr>"

text \<open>The codecs the overlay uses: \<open>Compact<u32>\<close> and the fixed-width \<open>u32\<close>.\<close>

record codecs =
  cx_compact :: compact_codec
  cx_decode_u32 :: "bytes \<Rightarrow> u32 option"

subsection \<open>Reading and writing\<close>

definition oc_is_empty :: "('h, 't) overlayed_changes \<Rightarrow> bool" where
  "oc_is_empty oc \<longleftrightarrow> om_is_empty (oc_top oc) \<and> oc_children oc = []"

definition set_collect_extrinsics :: "bool \<Rightarrow> ('h, 't) overlayed_changes \<Rightarrow> ('h, 't) overlayed_changes" where
  "set_collect_extrinsics b oc = oc\<lparr>oc_collect_extrinsics := b\<rparr>"

definition mark_dirty :: "('h, 't) overlayed_changes \<Rightarrow> ('h, 't) overlayed_changes" where
  "mark_dirty oc = oc\<lparr>oc_storage_transaction_cache := None\<rparr>"

definition oc_storage ::
  "codecs \<Rightarrow> bytes \<Rightarrow> ('h, 't) overlayed_changes \<Rightarrow> (bytes option option \<times> ('h, 't) overlayed_changes) run" where
  "oc_storage cx key oc =
     do { (r, m) \<leftarrow> om_value (cx_compact cx) key (oc_top oc);
          let oc = oc\<lparr>oc_top := m\<rparr>;
          Some (r, case r of None \<Rightarrow> oc
                   | Some v \<Rightarrow> oc\<lparr>oc_stats := tally_read_modified (value_size v) (oc_stats oc)\<rparr>) }"

definition oc_child_storage ::
  "codecs \<Rightarrow> child_info \<Rightarrow> bytes \<Rightarrow> ('h, 't) overlayed_changes
     \<Rightarrow> (bytes option option \<times> ('h, 't) overlayed_changes) run" where
  "oc_child_storage cx ci key oc = (case bt_get (oc_children oc) (child_storage_key ci) of
     None \<Rightarrow> Some (None, oc)
   | Some (m, info) \<Rightarrow>
     do { (r, m') \<leftarrow> om_value (cx_compact cx) key m;
          let oc = oc\<lparr>oc_children := bt_insert (child_storage_key ci) (m', info) (oc_children oc)\<rparr>;
          Some (r, case r of None \<Rightarrow> oc
                   | Some v \<Rightarrow> oc\<lparr>oc_stats := tally_read_modified (value_size v) (oc_stats oc)\<rparr>) })"

definition NO_EXTRINSIC_INDEX :: u32 where
  "NO_EXTRINSIC_INDEX = 0xffffffff"

definition extrinsic_index ::
  "codecs \<Rightarrow> ('h, 't) overlayed_changes \<Rightarrow> (u32 option \<times> ('h, 't) overlayed_changes) run" where
  "extrinsic_index cx oc =
     (if oc_collect_extrinsics oc then
        do { (r, oc) \<leftarrow> oc_storage cx EXTRINSIC_INDEX oc;
             let idx = (case r of Some (Some v) \<Rightarrow> cx_decode_u32 cx v | _ \<Rightarrow> None);
             Some (Some (case idx of None \<Rightarrow> NO_EXTRINSIC_INDEX | Some i \<Rightarrow> i), oc) }
      else Some (None, oc))"

definition tally_write :: "u64 \<Rightarrow> ('h, 't) overlayed_changes \<Rightarrow> ('h, 't) overlayed_changes" where
  "tally_write n oc = oc\<lparr>oc_stats := tally_write_overlay n (oc_stats oc)\<rparr>"

definition oc_set_storage ::
  "codecs \<Rightarrow> bytes \<Rightarrow> bytes option \<Rightarrow> ('h, 't) overlayed_changes \<Rightarrow> ('h, 't) overlayed_changes run" where
  "oc_set_storage cx key v oc =
     (let oc = tally_write (value_size v) (mark_dirty oc) in
      do { (at_extrinsic, oc) \<leftarrow> extrinsic_index cx oc;
           m \<leftarrow> om_set (cx_compact cx) key v at_extrinsic (oc_top oc);
           Some (oc\<lparr>oc_top := m\<rparr>) })"

definition oc_append_storage ::
  "codecs \<Rightarrow> bytes \<Rightarrow> bytes \<Rightarrow> (unit \<Rightarrow> bytes run) \<Rightarrow> ('h, 't) overlayed_changes
     \<Rightarrow> ('h, 't) overlayed_changes run" where
  "oc_append_storage cx key element init oc =
     do { (at_extrinsic, oc) \<leftarrow> extrinsic_index cx oc;
          let oc = tally_write (of_nat (length element)) oc;
          m \<leftarrow> append_storage (cx_compact cx) key element init at_extrinsic (oc_top oc);
          Some (oc\<lparr>oc_top := m\<rparr>) }"

text \<open>
  \<open>children.entry(storage_key).or_insert_with(|| (top.spawn_child(), child_info.clone()))\<close> and an operation
  on the changes found there.  The outcome of \<open>try_update\<close> is only asserted in debug builds.
\<close>

definition child_entry :: "child_info \<Rightarrow> ('h, 't) overlayed_changes \<Rightarrow> bytes changeset \<times> child_info" where
  "child_entry ci oc = (case bt_get (oc_children oc) (child_storage_key ci) of
     None \<Rightarrow> (spawn_child (oc_top oc), ci) | Some e \<Rightarrow> e)"

definition with_child ::
  "child_info \<Rightarrow> (bytes changeset \<Rightarrow> ('r \<times> bytes changeset) run) \<Rightarrow> ('h, 't) overlayed_changes
     \<Rightarrow> ('r \<times> ('h, 't) overlayed_changes) run" where
  "with_child ci f oc =
     (let (m, info) = child_entry ci oc in
      do { (r, m') \<leftarrow> f m;
           Some (r, oc\<lparr>oc_children := bt_insert (child_storage_key ci) (m', info) (oc_children oc)\<rparr>) })"

definition oc_set_child_storage ::
  "codecs \<Rightarrow> child_info \<Rightarrow> bytes \<Rightarrow> bytes option \<Rightarrow> ('h, 't) overlayed_changes
     \<Rightarrow> ('h, 't) overlayed_changes run" where
  "oc_set_child_storage cx ci key v oc =
     do { (at_extrinsic, oc) \<leftarrow> extrinsic_index cx (mark_dirty oc);
          (_, oc) \<leftarrow> with_child ci (\<lambda>m. map_option (Pair ()) (om_set (cx_compact cx) key v at_extrinsic m))
            (tally_write (value_size v) oc);
          Some oc }"

definition oc_clear_child_storage ::
  "codecs \<Rightarrow> child_info \<Rightarrow> ('h, 't) overlayed_changes \<Rightarrow> (u32 \<times> ('h, 't) overlayed_changes) run" where
  "oc_clear_child_storage cx ci oc =
     do { (at_extrinsic, oc) \<leftarrow> extrinsic_index cx (mark_dirty oc);
          with_child ci (clear_where (cx_compact cx) (\<lambda>_ _. True) at_extrinsic) oc }"

definition oc_clear_prefix ::
  "codecs \<Rightarrow> bytes \<Rightarrow> ('h, 't) overlayed_changes \<Rightarrow> (u32 \<times> ('h, 't) overlayed_changes) run" where
  "oc_clear_prefix cx p oc =
     do { (at_extrinsic, oc) \<leftarrow> extrinsic_index cx (mark_dirty oc);
          (n, m) \<leftarrow> clear_where (cx_compact cx) (\<lambda>key _. starts_with key p) at_extrinsic (oc_top oc);
          Some (n, oc\<lparr>oc_top := m\<rparr>) }"

definition oc_clear_child_prefix ::
  "codecs \<Rightarrow> child_info \<Rightarrow> bytes \<Rightarrow> ('h, 't) overlayed_changes \<Rightarrow> (u32 \<times> ('h, 't) overlayed_changes) run" where
  "oc_clear_child_prefix cx ci p oc =
     do { (at_extrinsic, oc) \<leftarrow> extrinsic_index cx (mark_dirty oc);
          with_child ci (clear_where (cx_compact cx) (\<lambda>key _. starts_with key p) at_extrinsic) oc }"

definition STORAGE_PREFIX :: bytes where
  "STORAGE_PREFIX = ascii ''storage''"

definition oc_set_offchain_storage ::
  "bytes \<Rightarrow> bytes option \<Rightarrow> ('h, 't) overlayed_changes \<Rightarrow> ('h, 't) overlayed_changes run" where
  "oc_set_offchain_storage key v oc =
     do { m \<leftarrow> (case v of Some x \<Rightarrow> offchain_set STORAGE_PREFIX key x (oc_offchain oc)
                | None \<Rightarrow> offchain_remove STORAGE_PREFIX key (oc_offchain oc));
          Some (oc\<lparr>oc_offchain := m\<rparr>) }"

definition add_transaction_index :: "index_operation \<Rightarrow> ('h, 't) overlayed_changes \<Rightarrow> ('h, 't) overlayed_changes" where
  "add_transaction_index op oc = oc\<lparr>oc_transaction_index_ops := oc_transaction_index_ops oc @ [op]\<rparr>"

definition iter_after :: "bytes \<Rightarrow> ('h, 't) overlayed_changes \<Rightarrow> (bytes, storage_entry overlayed_entry) btree" where
  "iter_after key oc = changes_after key (oc_top oc)"

definition child_iter_after ::
  "bytes \<Rightarrow> bytes \<Rightarrow> ('h, 't) overlayed_changes \<Rightarrow> (bytes, storage_entry overlayed_entry) btree" where
  "child_iter_after storage_key key oc = (case bt_get (oc_children oc) storage_key of
     None \<Rightarrow> [] | Some (m, _) \<Rightarrow> changes_after key m)"

subsection \<open>Transactions\<close>

definition oc_transaction_depth :: "('h, 't) overlayed_changes \<Rightarrow> nat" where
  "oc_transaction_depth oc = transaction_depth (oc_top oc)"

text \<open>An operation on the changes of every child trie.\<close>

fun for_children ::
  "(bytes changeset \<Rightarrow> bytes changeset run) \<Rightarrow> (bytes, bytes changeset \<times> child_info) btree
     \<Rightarrow> (bytes, bytes changeset \<times> child_info) btree run" where
  "for_children f [] = Some []"
| "for_children f ((k, (m, info)) # rest) =
     do { m' \<leftarrow> f m; rest' \<leftarrow> for_children f rest; Some ((k, (m', info)) # rest') }"

text \<open>\<open>Result::expect\<close> on an operation that returns a result next to the state.\<close>

definition expect :: "(('e + unit) \<times> 's) run \<Rightarrow> 's run" where
  "expect x = do { (r, s) \<leftarrow> x; (case r of Inl _ \<Rightarrow> panic | Inr _ \<Rightarrow> Some s) }"

definition oc_start_transaction :: "('h, 't) overlayed_changes \<Rightarrow> ('h, 't) overlayed_changes" where
  "oc_start_transaction oc = oc\<lparr>oc_top := om_start_transaction (oc_top oc),
     oc_children := map (\<lambda>(k, (m, info)). (k, (om_start_transaction m, info))) (oc_children oc),
     oc_offchain := om_start_transaction (oc_offchain oc)\<rparr>"

definition oc_rollback_transaction ::
  "codecs \<Rightarrow> ('h, 't) overlayed_changes \<Rightarrow> ((no_open_transaction + unit) \<times> ('h, 't) overlayed_changes) run" where
  "oc_rollback_transaction cx oc =
     (let oc = mark_dirty oc in
      do { (r, m) \<leftarrow> om_rollback_transaction (cx_compact cx) (oc_top oc);
           (case r of Inl e \<Rightarrow> Some (Inl e, oc\<lparr>oc_top := m\<rparr>)
            | Inr _ \<Rightarrow>
              do { cs \<leftarrow> for_children (\<lambda>c. expect (om_rollback_transaction (cx_compact cx) c)) (oc_children oc);
                   ofc \<leftarrow> expect (rollback_transaction_offchain (oc_offchain oc));
                   Some (Inr (), oc\<lparr>oc_top := m,
                     oc_children := filter (\<lambda>(_, (c, _)). \<not> om_is_empty c) cs, oc_offchain := ofc\<rparr>) }) })"

definition oc_commit_transaction ::
  "codecs \<Rightarrow> ('h, 't) overlayed_changes \<Rightarrow> ((no_open_transaction + unit) \<times> ('h, 't) overlayed_changes) run" where
  "oc_commit_transaction cx oc =
     do { (r, m) \<leftarrow> om_commit_transaction (cx_compact cx) (oc_top oc);
          (case r of Inl e \<Rightarrow> Some (Inl e, oc\<lparr>oc_top := m\<rparr>)
           | Inr _ \<Rightarrow>
             do { cs \<leftarrow> for_children (\<lambda>c. expect (om_commit_transaction (cx_compact cx) c)) (oc_children oc);
                  ofc \<leftarrow> expect (commit_transaction_offchain (oc_offchain oc));
                  Some (Inr (), oc\<lparr>oc_top := m, oc_children := cs, oc_offchain := ofc\<rparr>) }) }"

definition oc_enter_runtime ::
  "('h, 't) overlayed_changes \<Rightarrow> ((already_in_runtime + unit) \<times> ('h, 't) overlayed_changes) run" where
  "oc_enter_runtime oc =
     (let (r, m) = om_enter_runtime (oc_top oc) in
      (case r of Inl e \<Rightarrow> Some (Inl e, oc\<lparr>oc_top := m\<rparr>)
       | Inr _ \<Rightarrow>
         do { cs \<leftarrow> for_children (\<lambda>c. expect (Some (om_enter_runtime c))) (oc_children oc);
              ofc \<leftarrow> expect (Some (om_enter_runtime (oc_offchain oc)));
              Some (Inr (), oc\<lparr>oc_top := m, oc_children := cs, oc_offchain := ofc\<rparr>) }))"

definition oc_exit_runtime ::
  "codecs \<Rightarrow> ('h, 't) overlayed_changes \<Rightarrow> ((not_in_runtime + unit) \<times> ('h, 't) overlayed_changes) run" where
  "oc_exit_runtime cx oc =
     do { (r, m) \<leftarrow> om_exit_runtime (cx_compact cx) (oc_top oc);
          (case r of Inl e \<Rightarrow> Some (Inl e, oc\<lparr>oc_top := m\<rparr>)
           | Inr _ \<Rightarrow>
             do { cs \<leftarrow> for_children (\<lambda>c. expect (om_exit_runtime (cx_compact cx) c)) (oc_children oc);
                  ofc \<leftarrow> expect (om_exit_runtime_offchain (oc_offchain oc));
                  Some (Inr (), oc\<lparr>oc_top := m, oc_children := cs, oc_offchain := ofc\<rparr>) }) }"

subsection \<open>Backend and storage roots\<close>

type_synonym delta = "(bytes \<times> bytes option) list"

text \<open>
  What the overlay and the externalities ask of a backend: values and next keys of the top trie and
  of child tries, keys for an iteration (child, prefix, start), roots over a delta with the database
  transaction that applies it, how transactions combine, and the encoding of a root.
\<close>

record ('e, 'h, 't) backend =
  b_storage :: "bytes \<Rightarrow> 'e + bytes option"
  b_child_storage :: "child_info \<Rightarrow> bytes \<Rightarrow> 'e + bytes option"
  b_storage_hash :: "bytes \<Rightarrow> 'e + 'h option"
  b_child_storage_hash :: "child_info \<Rightarrow> bytes \<Rightarrow> 'e + 'h option"
  b_next_storage_key :: "bytes \<Rightarrow> 'e + bytes option"
  b_next_child_storage_key :: "child_info \<Rightarrow> bytes \<Rightarrow> 'e + bytes option"
  b_keys :: "child_info option \<Rightarrow> bytes option \<Rightarrow> bytes option \<Rightarrow> 'e + ('e + bytes) list"
  b_storage_root :: "delta \<Rightarrow> state_version \<Rightarrow> 'h \<times> 't"
  b_child_storage_root :: "child_info \<Rightarrow> delta \<Rightarrow> state_version \<Rightarrow> 'h \<times> bool \<times> 't"
  b_empty_transaction :: 't
  b_consolidate :: "'t \<Rightarrow> 't \<Rightarrow> 't"
  b_hash :: "bytes \<Rightarrow> 'h"
  b_encode_root :: "'h \<Rightarrow> bytes"
  b_decode_root :: "bytes \<Rightarrow> 'h option"
  b_empty_child_root :: 'h

definition exists_storage :: "('e, 'h, 't) backend \<Rightarrow> bytes \<Rightarrow> 'e + bool" where
  "exists_storage b key = rbind (b_storage_hash b key) (\<lambda>h. Inr (h \<noteq> None))"

definition exists_child_storage :: "('e, 'h, 't) backend \<Rightarrow> child_info \<Rightarrow> bytes \<Rightarrow> 'e + bool" where
  "exists_child_storage b ci key = rbind (b_child_storage_hash b ci key) (\<lambda>h. Inr (h \<noteq> None))"

fun full_storage_root_children ::
  "('e, 'h, 't) backend \<Rightarrow> (child_info \<times> delta) list \<Rightarrow> state_version \<Rightarrow> 't \<Rightarrow> delta \<times> 't" where
  "full_storage_root_children b [] version txs = ([], txs)"
| "full_storage_root_children b ((ci, child_delta) # rest) version txs =
     (let (child_root, empty, child_txs) = b_child_storage_root b ci child_delta version;
          root = (prefixed_storage_key ci, if empty then None else Some (b_encode_root b child_root));
          (roots, txs') = full_storage_root_children b rest version (b_consolidate b txs child_txs)
      in (root # roots, txs'))"

definition full_storage_root ::
  "('e, 'h, 't) backend \<Rightarrow> delta \<Rightarrow> (child_info \<times> delta) list \<Rightarrow> state_version \<Rightarrow> 'h \<times> 't" where
  "full_storage_root b d child_deltas version =
     (let (child_roots, txs) = full_storage_root_children b child_deltas version (b_empty_transaction b);
          (root, parent_txs) = b_storage_root b (d @ child_roots) version
      in (root, b_consolidate b txs parent_txs))"

text \<open>\<open>changes_mut().map(|(k, v)| (k, v.value()))\<close>: every entry is materialized.\<close>

fun delta_of ::
  "compact_codec \<Rightarrow> (bytes, storage_entry overlayed_entry) btree
     \<Rightarrow> (delta \<times> (bytes, storage_entry overlayed_entry) btree) run" where
  "delta_of cd [] = Some ([], [])"
| "delta_of cd ((k, ts) # rest) =
     do { (v, ts') \<leftarrow> entry_value cd ts; (d, rest') \<leftarrow> delta_of cd rest; Some ((k, v) # d, (k, ts') # rest') }"

definition om_delta :: "compact_codec \<Rightarrow> bytes changeset \<Rightarrow> (delta \<times> bytes changeset) run" where
  "om_delta cd m = do { (d, c) \<leftarrow> delta_of cd (changes m); Some (d, m\<lparr>changes := c\<rparr>) }"

fun child_deltas ::
  "compact_codec \<Rightarrow> (bytes, bytes changeset \<times> child_info) btree
     \<Rightarrow> ((child_info \<times> delta) list \<times> (bytes, bytes changeset \<times> child_info) btree) run" where
  "child_deltas cd [] = Some ([], [])"
| "child_deltas cd ((k, (m, info)) # rest) =
     do { (d, m') \<leftarrow> om_delta cd m; (ds, rest') \<leftarrow> child_deltas cd rest;
          Some ((info, d) # ds, (k, (m', info)) # rest') }"

definition oc_storage_root ::
  "codecs \<Rightarrow> ('e, 'h, 't) backend \<Rightarrow> state_version \<Rightarrow> ('h, 't) overlayed_changes
     \<Rightarrow> (('h \<times> bool) \<times> ('h, 't) overlayed_changes) run" where
  "oc_storage_root cx b version oc =
     (let recompute =
        do { (d, m) \<leftarrow> om_delta (cx_compact cx) (oc_top oc);
             (cds, cs) \<leftarrow> child_deltas (cx_compact cx) (oc_children oc);
             let (root, tx) = full_storage_root b d cds version;
             Some ((root, False), oc\<lparr>oc_top := m, oc_children := cs, oc_storage_transaction_cache :=
               Some \<lparr>stc_transaction = tx, stc_root = root, stc_state_version = version\<rparr>\<rparr>) }
      in case oc_storage_transaction_cache oc of
           Some cache \<Rightarrow> if stc_state_version cache = version then Some ((stc_root cache, True), oc) else recompute
         | None \<Rightarrow> recompute)"

definition decode_or_empty :: "('e, 'h, 't) backend \<Rightarrow> bytes option \<Rightarrow> 'h" where
  "decode_or_empty b v = (case Option.bind v (b_decode_root b) of None \<Rightarrow> b_empty_child_root b | Some h \<Rightarrow> h)"

definition oc_child_storage_root ::
  "codecs \<Rightarrow> ('e, 'h, 't) backend \<Rightarrow> child_info \<Rightarrow> state_version \<Rightarrow> ('h, 't) overlayed_changes
     \<Rightarrow> (('e + 'h \<times> bool) \<times> ('h, 't) overlayed_changes) run" where
  "oc_child_storage_root cx b ci version oc =
     (let key = prefixed_storage_key ci in
      if oc_storage_transaction_cache oc \<noteq> None then
        do { (r, oc) \<leftarrow> oc_storage cx key oc;
             Some (case r of Some v \<Rightarrow> Inr (decode_or_empty b v, True)
                   | None \<Rightarrow> rbind (b_storage b key) (\<lambda>v. Inr (decode_or_empty b v, True)), oc) }
      else case bt_get (oc_children oc) (child_storage_key ci) of
        Some (m, info) \<Rightarrow>
          do { (d, m') \<leftarrow> om_delta (cx_compact cx) m;
               let oc = oc\<lparr>oc_children := bt_insert (child_storage_key ci) (m', info) (oc_children oc)\<rparr>;
               let (root, is_empty, _) = b_child_storage_root b info d version;
               oc \<leftarrow> oc_set_storage cx key (if is_empty then None else Some (b_encode_root b root)) oc;
               Some (Inr (root, False), mark_dirty oc) }
      | None \<Rightarrow> Some (rbind (b_storage b key) (\<lambda>v. Inr (decode_or_empty b v, False)), oc))"

subsection \<open>Draining\<close>

record ('h, 't) storage_changes =
  main_storage_changes :: delta
  child_storage_changes :: "(bytes \<times> delta) list"
  offchain_storage_changes :: "((bytes \<times> bytes) \<times> offchain_overlayed_change) list"
  sc_transaction :: 't
  transaction_storage_root :: 'h
  transaction_index_changes :: "index_operation list"

definition drain_to_options :: "compact_codec \<Rightarrow> bytes changeset \<Rightarrow> delta run" where
  "drain_to_options cd m = do { xs \<leftarrow> drain_committed m;
     those (map (\<lambda>(k, e). map_option (Pair k) (to_option cd e)) xs) }"

definition drain_root ::
  "codecs \<Rightarrow> ('e, 'h, 't) backend \<Rightarrow> state_version \<Rightarrow> ('h, 't) overlayed_changes \<Rightarrow> ('h, 't) overlayed_changes run" where
  "drain_root cx b version oc = (case oc_storage_transaction_cache oc of Some _ \<Rightarrow> Some oc
     | None \<Rightarrow> map_option snd (oc_storage_root cx b version oc))"

definition drain_storage_changes ::
  "codecs \<Rightarrow> ('e, 'h, 't) backend \<Rightarrow> state_version \<Rightarrow> ('h, 't) overlayed_changes
     \<Rightarrow> (('h, 't) storage_changes \<times> ('h, 't) overlayed_changes) run" where
  "drain_storage_changes cx b version oc =
     do { oc \<leftarrow> drain_root cx b version oc;
          cache \<leftarrow> oc_storage_transaction_cache oc;
          main \<leftarrow> drain_to_options (cx_compact cx) (oc_top oc);
          cs \<leftarrow> those (map (\<lambda>(k, (m, _)). map_option (Pair k) (drain_to_options (cx_compact cx) m)) (oc_children oc));
          (off, ofc) \<leftarrow> offchain_drain (oc_offchain oc);
          Some (\<lparr>main_storage_changes = main, child_storage_changes = cs, offchain_storage_changes = off,
                 sc_transaction = stc_transaction cache, transaction_storage_root = stc_root cache,
                 transaction_index_changes = oc_transaction_index_ops oc\<rparr>,
                oc\<lparr>oc_top := om_default, oc_children := [], oc_offchain := ofc,
                   oc_transaction_index_ops := [], oc_storage_transaction_cache := None\<rparr>) }"

end
