(* ===== verification/Extensions.thy ===== *)
theory Extensions
  imports BTree_Map
begin

text \<open>
  The stores of externalities extensions: \<open>Extensions\<close> of \<open>primitives/externalities/src/extensions.rs\<close>,
  which the host owns, and \<open>OverlayedExtensions\<close> of \<open>overlayed_changes/mod.rs\<close>, which borrows the host's
  extensions for one runtime call and owns the ones registered during it.  An extension is a value of
  a type of its own; what it does at the ends of a transaction is a record of functions, and its
  \<open>TypeId\<close> is a key of the store.
\<close>

datatype transaction_type = Host_Transaction | Runtime_Transaction

datatype 'i ext_error =
    ExtensionAlreadyRegistered
  | ExtensionsAreNotSupported
  | ExtensionIsNotRegistered 'i
  | StorageUpdateFailed string

definition is_host :: "transaction_type \<Rightarrow> bool" where
  "is_host ty \<longleftrightarrow> ty = Host_Transaction"

record ('i, 'x) extension_ops =
  x_type_id :: "'x \<Rightarrow> 'i"
  x_start :: "transaction_type \<Rightarrow> 'x \<Rightarrow> 'x"
  x_commit :: "transaction_type \<Rightarrow> 'x \<Rightarrow> 'x"
  x_rollback :: "transaction_type \<Rightarrow> 'x \<Rightarrow> 'x"

subsection \<open>The host's store\<close>

type_synonym ('i, 'x) extensions = "('i, 'x) btree"

definition exts_register :: "('i::linorder, 'x) extension_ops \<Rightarrow> 'x \<Rightarrow> ('i, 'x) extensions \<Rightarrow> ('i, 'x) extensions" where
  "exts_register ops e es = bt_insert (x_type_id ops e) e es"

definition exts_is_registered :: "'i \<Rightarrow> ('i, 'x) extensions \<Rightarrow> bool" where
  "exts_is_registered i es \<longleftrightarrow> bt_get es i \<noteq> None"

definition exts_register_with_type_id ::
  "'i::linorder \<Rightarrow> 'x \<Rightarrow> ('i, 'x) extensions \<Rightarrow> ('i ext_error + unit) \<times> ('i, 'x) extensions" where
  "exts_register_with_type_id i e es = (case bt_get es i of
     None \<Rightarrow> (Inr (), bt_insert i e es)
   | Some _ \<Rightarrow> (Inl ExtensionAlreadyRegistered, es))"

definition exts_deregister :: "'i \<Rightarrow> ('i, 'x) extensions \<Rightarrow> bool \<times> ('i, 'x) extensions" where
  "exts_deregister i es = (bt_get es i \<noteq> None, bt_remove i es)"

definition exts_merge :: "('i::linorder, 'x) extensions \<Rightarrow> ('i, 'x) extensions \<Rightarrow> ('i, 'x) extensions" where
  "exts_merge other es = fold (\<lambda>(i, e). bt_insert i e) other es"

definition exts_start_transaction ::
  "('i, 'x) extension_ops \<Rightarrow> transaction_type \<Rightarrow> ('i, 'x) extensions \<Rightarrow> ('i, 'x) extensions" where
  "exts_start_transaction ops ty es = map (\<lambda>(i, e). (i, x_start ops ty e)) es"

definition exts_commit_transaction ::
  "('i, 'x) extension_ops \<Rightarrow> transaction_type \<Rightarrow> ('i, 'x) extensions \<Rightarrow> ('i, 'x) extensions" where
  "exts_commit_transaction ops ty es = map (\<lambda>(i, e). (i, x_commit ops ty e)) es"

definition exts_rollback_transaction ::
  "('i, 'x) extension_ops \<Rightarrow> transaction_type \<Rightarrow> ('i, 'x) extensions \<Rightarrow> ('i, 'x) extensions" where
  "exts_rollback_transaction ops ty es = map (\<lambda>(i, e). (i, x_rollback ops ty e)) es"

subsection \<open>The store of one runtime call\<close>

datatype 'x overlayed_extension = MutRef 'x | Owned 'x

fun extension_of :: "'x overlayed_extension \<Rightarrow> 'x" where
  "extension_of (MutRef e) = e"
| "extension_of (Owned e) = e"

text \<open>A call on \<open>extension()\<close>, which gives access to the value in place.\<close>

fun on_extension :: "('x \<Rightarrow> 'x) \<Rightarrow> 'x overlayed_extension \<Rightarrow> 'x overlayed_extension" where
  "on_extension f (MutRef e) = MutRef (f e)"
| "on_extension f (Owned e) = Owned (f e)"

type_synonym ('i, 'x) overlayed_extensions = "('i, 'x overlayed_extension) btree"

definition oe_new :: "('i, 'x) extensions \<Rightarrow> ('i, 'x) overlayed_extensions" where
  "oe_new es = map (\<lambda>(i, e). (i, MutRef e)) es"

definition oe_get :: "'i \<Rightarrow> ('i, 'x) overlayed_extensions \<Rightarrow> 'x option" where
  "oe_get i es = map_option extension_of (bt_get es i)"

definition oe_register ::
  "'i::linorder \<Rightarrow> 'x \<Rightarrow> ('i, 'x) overlayed_extensions \<Rightarrow> ('i ext_error + unit) \<times> ('i, 'x) overlayed_extensions" where
  "oe_register i e es = (case bt_get es i of
     None \<Rightarrow> (Inr (), bt_insert i (Owned e) es)
   | Some _ \<Rightarrow> (Inl ExtensionAlreadyRegistered, es))"

definition oe_deregister :: "'i \<Rightarrow> ('i, 'x) overlayed_extensions \<Rightarrow> bool \<times> ('i, 'x) overlayed_extensions" where
  "oe_deregister i es = (bt_get es i \<noteq> None, bt_remove i es)"

definition oe_start_transaction ::
  "('i, 'x) extension_ops \<Rightarrow> transaction_type \<Rightarrow> ('i, 'x) overlayed_extensions \<Rightarrow> ('i, 'x) overlayed_extensions" where
  "oe_start_transaction ops ty es = map (\<lambda>(i, e). (i, on_extension (x_start ops ty) e)) es"

definition oe_commit_transaction ::
  "('i, 'x) extension_ops \<Rightarrow> transaction_type \<Rightarrow> ('i, 'x) overlayed_extensions \<Rightarrow> ('i, 'x) overlayed_extensions" where
  "oe_commit_transaction ops ty es = map (\<lambda>(i, e). (i, on_extension (x_commit ops ty) e)) es"

definition oe_rollback_transaction ::
  "('i, 'x) extension_ops \<Rightarrow> transaction_type \<Rightarrow> ('i, 'x) overlayed_extensions \<Rightarrow> ('i, 'x) overlayed_extensions" where
  "oe_rollback_transaction ops ty es = map (\<lambda>(i, e). (i, on_extension (x_rollback ops ty) e)) es"

subsection \<open>Lookups\<close>

lemma extension_of_on [simp]: "extension_of (on_extension f e) = f (extension_of e)"
  by (cases e) simp_all

lemma bt_wf_exts [simp]:
  "bt_wf (exts_start_transaction ops ty es) = bt_wf es"
  "bt_wf (exts_commit_transaction ops ty es) = bt_wf es"
  "bt_wf (exts_rollback_transaction ops ty es) = bt_wf es"
  "bt_wf (oe_start_transaction ops ty os) = bt_wf os"
  "bt_wf (oe_commit_transaction ops ty os) = bt_wf os"
  "bt_wf (oe_rollback_transaction ops ty os) = bt_wf os"
  "bt_wf (oe_new es) = bt_wf es"
  by (simp_all add: exts_start_transaction_def exts_commit_transaction_def exts_rollback_transaction_def
      oe_start_transaction_def oe_commit_transaction_def oe_rollback_transaction_def oe_new_def)

lemma oe_get_simps [simp]:
  "oe_get i (oe_new es) = bt_get es i"
  "oe_get i (oe_start_transaction ops ty os) = map_option (x_start ops ty) (oe_get i os)"
  "oe_get i (oe_commit_transaction ops ty os) = map_option (x_commit ops ty) (oe_get i os)"
  "oe_get i (oe_rollback_transaction ops ty os) = map_option (x_rollback ops ty) (oe_get i os)"
  by (simp_all add: oe_get_def oe_new_def oe_start_transaction_def oe_commit_transaction_def
      oe_rollback_transaction_def option.map_comp comp_def option.map_ident)

lemma oe_register_get:
  assumes "bt_wf os"
  shows "oe_get j (snd (oe_register i e os)) = (if j = i \<and> oe_get i os = None then Some e else oe_get j os)"
    "fst (oe_register i e os) = Inr () \<longleftrightarrow> oe_get i os = None"
  using assms by (auto simp: oe_register_def oe_get_def split: option.split)

lemma oe_deregister_get:
  "oe_get j (snd (oe_deregister i os)) = (if j = i then None else oe_get j os)"
  "fst (oe_deregister i os) \<longleftrightarrow> oe_get i os \<noteq> None"
  by (auto simp: oe_deregister_def oe_get_def)

lemma exts_merge_get:
  assumes "bt_wf es" "bt_wf other"
  shows "bt_get (exts_merge other es) = bt_get es ++ bt_get other" "bt_wf (exts_merge other es)"
proof -
  have "bt_get (exts_merge other es) = bt_get es ++ bt_get other \<and> bt_wf (exts_merge other es)"
    using assms
  proof (induction other arbitrary: es)
    case (Cons p other)
    obtain i e where p: "p = (i, e)" by (cases p)
    have fresh: "bt_get other i = None" using Cons.prems(2) p by (auto simp: bt_wf_Cons bt_get_None_iff)
    have wf: "bt_wf (bt_insert i e es)" "bt_wf other" using Cons.prems p by (auto simp: bt_wf_Cons)
    have step: "exts_merge (p # other) es = exts_merge other (bt_insert i e es)" by (simp add: exts_merge_def p)
    have "bt_get (bt_insert i e es) ++ bt_get other = bt_get es ++ bt_get (p # other)"
      using fresh Cons.prems(1) p by (auto simp: fun_eq_iff map_add_def split: option.split)
    with Cons.IH [OF wf] show ?case by (simp only: step)
  qed (simp add: exts_merge_def)
  then show "bt_get (exts_merge other es) = bt_get es ++ bt_get other" "bt_wf (exts_merge other es)" by auto
qed

end
