(* ===== verification/Externalities.thy ===== *)
theory Externalities
  imports Overlayed_Changes Extensions
begin

text \<open>
  \<open>Ext\<close> of \<open>primitives/state-machine/src/ext.rs\<close>: the externalities a runtime call sees, made of the overlay
  to write to, the backend to read from, and the extensions.  An error of the backend is a panic in
  every operation that says \<open>expect\<close>; the removals log it and stop.  Tracing is left out.
\<close>

record ('h, 't, 'i, 'x) ext =
  ext_overlay :: "('h, 't) overlayed_changes"
  ext_extensions :: "('i, 'x) overlayed_extensions option"

definition ext_new ::
  "('h, 't) overlayed_changes \<Rightarrow> ('i, 'x) extensions option \<Rightarrow> ('h, 't, 'i, 'x) ext" where
  "ext_new oc es = \<lparr>ext_overlay = oc, ext_extensions = map_option oe_new es\<rparr>"

text \<open>\<open>.expect(EXT_NOT_ALLOWED_TO_FAIL)\<close>.\<close>

definition expect_ok :: "'e + 'a \<Rightarrow> 'a run" where
  "expect_ok r = (case r of Inl _ \<Rightarrow> panic | Inr a \<Rightarrow> Some a)"

text \<open>An operation on the overlay that returns a value next to it, and one that does not.\<close>

definition on_overlay ::
  "(('h, 't) overlayed_changes \<Rightarrow> ('r \<times> ('h, 't) overlayed_changes) run) \<Rightarrow> ('h, 't, 'i, 'x) ext
     \<Rightarrow> ('r \<times> ('h, 't, 'i, 'x) ext) run" where
  "on_overlay f e = do { (r, oc) \<leftarrow> f (ext_overlay e); Some (r, e\<lparr>ext_overlay := oc\<rparr>) }"

definition upd_overlay ::
  "(('h, 't) overlayed_changes \<Rightarrow> ('h, 't) overlayed_changes run) \<Rightarrow> ('h, 't, 'i, 'x) ext
     \<Rightarrow> ('h, 't, 'i, 'x) ext run" where
  "upd_overlay f e = do { oc \<leftarrow> f (ext_overlay e); Some (e\<lparr>ext_overlay := oc\<rparr>) }"

subsection \<open>Reading\<close>

text \<open>The overlay's answer when it has one, the backend's otherwise.\<close>

definition or_backend :: "('a \<Rightarrow> 'b) \<Rightarrow> 'a option \<Rightarrow> (unit \<Rightarrow> 'e + 'b) \<Rightarrow> 'b run" where
  "or_backend f r b = (case r of Some x \<Rightarrow> Some (f x) | None \<Rightarrow> expect_ok (b ()))"

definition ext_storage ::
  "codecs \<Rightarrow> ('e, 'h, 't) backend \<Rightarrow> bytes \<Rightarrow> ('h, 't, 'i, 'x) ext \<Rightarrow> (bytes option \<times> ('h, 't, 'i, 'x) ext) run" where
  "ext_storage cx b key e =
     do { (r, e) \<leftarrow> on_overlay (oc_storage cx key) e;
          v \<leftarrow> or_backend id r (\<lambda>_. b_storage b key);
          Some (v, e) }"

definition ext_storage_hash ::
  "codecs \<Rightarrow> ('e, 'h, 't) backend \<Rightarrow> bytes \<Rightarrow> ('h, 't, 'i, 'x) ext \<Rightarrow> (bytes option \<times> ('h, 't, 'i, 'x) ext) run" where
  "ext_storage_hash cx b key e =
     do { (r, e) \<leftarrow> on_overlay (oc_storage cx key) e;
          h \<leftarrow> or_backend (map_option (b_hash b)) r (\<lambda>_. b_storage_hash b key);
          Some (map_option (b_encode_root b) h, e) }"

definition ext_child_storage ::
  "codecs \<Rightarrow> ('e, 'h, 't) backend \<Rightarrow> child_info \<Rightarrow> bytes \<Rightarrow> ('h, 't, 'i, 'x) ext
     \<Rightarrow> (bytes option \<times> ('h, 't, 'i, 'x) ext) run" where
  "ext_child_storage cx b ci key e =
     do { (r, e) \<leftarrow> on_overlay (oc_child_storage cx ci key) e;
          v \<leftarrow> or_backend id r (\<lambda>_. b_child_storage b ci key);
          Some (v, e) }"

definition ext_child_storage_hash ::
  "codecs \<Rightarrow> ('e, 'h, 't) backend \<Rightarrow> child_info \<Rightarrow> bytes \<Rightarrow> ('h, 't, 'i, 'x) ext
     \<Rightarrow> (bytes option \<times> ('h, 't, 'i, 'x) ext) run" where
  "ext_child_storage_hash cx b ci key e =
     do { (r, e) \<leftarrow> on_overlay (oc_child_storage cx ci key) e;
          h \<leftarrow> or_backend (map_option (b_hash b)) r (\<lambda>_. b_child_storage_hash b ci key);
          Some (map_option (b_encode_root b) h, e) }"

definition ext_exists_storage ::
  "codecs \<Rightarrow> ('e, 'h, 't) backend \<Rightarrow> bytes \<Rightarrow> ('h, 't, 'i, 'x) ext \<Rightarrow> (bool \<times> ('h, 't, 'i, 'x) ext) run" where
  "ext_exists_storage cx b key e =
     do { (r, e) \<leftarrow> on_overlay (oc_storage cx key) e;
          v \<leftarrow> or_backend (\<lambda>x. x \<noteq> None) r (\<lambda>_. exists_storage b key);
          Some (v, e) }"

definition ext_exists_child_storage ::
  "codecs \<Rightarrow> ('e, 'h, 't) backend \<Rightarrow> child_info \<Rightarrow> bytes \<Rightarrow> ('h, 't, 'i, 'x) ext
     \<Rightarrow> (bool \<times> ('h, 't, 'i, 'x) ext) run" where
  "ext_exists_child_storage cx b ci key e =
     do { (r, e) \<leftarrow> on_overlay (oc_child_storage cx ci key) e;
          v \<leftarrow> or_backend (\<lambda>x. x \<noteq> None) r (\<lambda>_. exists_child_storage b ci key);
          Some (v, e) }"

subsection \<open>Iterating\<close>

text \<open>
  The loop of \<open>next_storage_key\<close> over the changed keys after the given one, from the next key of the
  backend.  Looking at a value materializes it in place.
\<close>

fun next_merged ::
  "compact_codec \<Rightarrow> (bytes \<Rightarrow> 'e + bytes option) \<Rightarrow> bytes option \<Rightarrow> bytes list \<Rightarrow> bytes changeset
     \<Rightarrow> (bytes option \<times> bytes changeset) run" where
  "next_merged cd next_key cur [] m = Some (cur, m)"
| "next_merged cd next_key cur (k # ks) m =
     (if (case cur of Some c \<Rightarrow> c < k | None \<Rightarrow> False) then Some (cur, m)
      else do { (v, m) \<leftarrow> om_value cd k m;
                if (case v of Some (Some _) \<Rightarrow> True | _ \<Rightarrow> False) then Some (Some k, m)
                else if cur = Some k then do { cur \<leftarrow> expect_ok (next_key k); next_merged cd next_key cur ks m }
                else next_merged cd next_key cur ks m })"

text \<open>\<open>find_map\<close> over the changed keys: the first one with a value.\<close>

fun find_valued ::
  "compact_codec \<Rightarrow> bytes list \<Rightarrow> bytes changeset \<Rightarrow> (bytes option \<times> bytes changeset) run" where
  "find_valued cd [] m = Some (None, m)"
| "find_valued cd (k # ks) m =
     do { (v, m) \<leftarrow> om_value cd k m;
          if (case v of Some (Some _) \<Rightarrow> True | _ \<Rightarrow> False) then Some (Some k, m) else find_valued cd ks m }"

definition next_key_in ::
  "compact_codec \<Rightarrow> (bytes \<Rightarrow> 'e + bytes option) \<Rightarrow> bytes \<Rightarrow> bytes list \<Rightarrow> bytes changeset
     \<Rightarrow> (bytes option \<times> bytes changeset) run" where
  "next_key_in cd next_key key ks m =
     do { next_backend_key \<leftarrow> expect_ok (next_key key);
          (case (next_backend_key, ks) of
             (_, []) \<Rightarrow> Some (next_backend_key, m)
           | (Some _, _) \<Rightarrow> next_merged cd next_key next_backend_key ks m
           | (None, _) \<Rightarrow> find_valued cd ks m) }"

definition ext_next_storage_key ::
  "codecs \<Rightarrow> ('e, 'h, 't) backend \<Rightarrow> bytes \<Rightarrow> ('h, 't, 'i, 'x) ext \<Rightarrow> (bytes option \<times> ('h, 't, 'i, 'x) ext) run" where
  "ext_next_storage_key cx b key e =
     (let oc = ext_overlay e in
      do { (r, m) \<leftarrow> next_key_in (cx_compact cx) (b_next_storage_key b) key (map fst (iter_after key oc)) (oc_top oc);
           Some (r, e\<lparr>ext_overlay := oc\<lparr>oc_top := m\<rparr>\<rparr>) })"

definition ext_next_child_storage_key ::
  "codecs \<Rightarrow> ('e, 'h, 't) backend \<Rightarrow> child_info \<Rightarrow> bytes \<Rightarrow> ('h, 't, 'i, 'x) ext
     \<Rightarrow> (bytes option \<times> ('h, 't, 'i, 'x) ext) run" where
  "ext_next_child_storage_key cx b ci key e =
     (let oc = ext_overlay e; c = child_storage_key ci in
      case bt_get (oc_children oc) c of
        None \<Rightarrow> do { r \<leftarrow> expect_ok (b_next_child_storage_key b ci key); Some (r, e) }
      | Some (m, info) \<Rightarrow>
          do { (r, m) \<leftarrow> next_key_in (cx_compact cx) (b_next_child_storage_key b ci) key
                 (map fst (child_iter_after c key oc)) m;
               Some (r, e\<lparr>ext_overlay := oc\<lparr>oc_children := bt_insert c (m, info) (oc_children oc)\<rparr>\<rparr>) })"

subsection \<open>Writing\<close>

definition ext_set_offchain_storage ::
  "bytes \<Rightarrow> bytes option \<Rightarrow> ('h, 't, 'i, 'x) ext \<Rightarrow> ('h, 't, 'i, 'x) ext run" where
  "ext_set_offchain_storage key v = upd_overlay (oc_set_offchain_storage key v)"

definition ext_place_storage ::
  "codecs \<Rightarrow> bytes \<Rightarrow> bytes option \<Rightarrow> ('h, 't, 'i, 'x) ext \<Rightarrow> ('h, 't, 'i, 'x) ext run" where
  "ext_place_storage cx key v e =
     (if is_child_storage_key key then Some e else upd_overlay (oc_set_storage cx key v) e)"

definition ext_place_child_storage ::
  "codecs \<Rightarrow> child_info \<Rightarrow> bytes \<Rightarrow> bytes option \<Rightarrow> ('h, 't, 'i, 'x) ext \<Rightarrow> ('h, 't, 'i, 'x) ext run" where
  "ext_place_child_storage cx ci key v = upd_overlay (oc_set_child_storage cx ci key v)"

definition ext_storage_append ::
  "codecs \<Rightarrow> ('e, 'h, 't) backend \<Rightarrow> bytes \<Rightarrow> bytes \<Rightarrow> ('h, 't, 'i, 'x) ext \<Rightarrow> ('h, 't, 'i, 'x) ext run" where
  "ext_storage_append cx b key v =
     upd_overlay (oc_append_storage cx key v
       (\<lambda>_. map_option (\<lambda>x. case x of None \<Rightarrow> [] | Some bs \<Rightarrow> bs) (expect_ok (b_storage b key))))"

record multi_removal_results =
  maybe_cursor :: "bytes option"
  removed_backend :: u32
  removed_unique :: u32
  removal_loops :: u32

text \<open>
  \<open>limit_remove_from_backend\<close>: the keys the backend iterates over, with the number removed and the number
  looked at so far.
\<close>

definition remove_one ::
  "codecs \<Rightarrow> child_info option \<Rightarrow> bytes \<Rightarrow> ('h, 't) overlayed_changes \<Rightarrow> (bool \<times> ('h, 't) overlayed_changes) run" where
  "remove_one cx ci key oc =
     do { (r, oc) \<leftarrow> (case ci of Some c \<Rightarrow> oc_child_storage cx c key oc | None \<Rightarrow> oc_storage cx key oc);
          if r = Some None then Some (False, oc)
          else do { oc \<leftarrow> (case ci of Some c \<Rightarrow> oc_set_child_storage cx c key None oc
                           | None \<Rightarrow> oc_set_storage cx key None oc);
                    Some (True, oc) } }"

fun limit_remove_loop ::
  "codecs \<Rightarrow> child_info option \<Rightarrow> u32 option \<Rightarrow> ('e + bytes) list \<Rightarrow> u32 \<Rightarrow> u32 \<Rightarrow> ('h, 't) overlayed_changes
     \<Rightarrow> ((bytes option \<times> u32 \<times> u32) \<times> ('h, 't) overlayed_changes) run" where
  "limit_remove_loop cx ci maybe_limit [] delete_count loop_count oc = Some ((None, delete_count, loop_count), oc)"
| "limit_remove_loop cx ci maybe_limit (Inl _ # ks) delete_count loop_count oc =
     Some ((None, delete_count, loop_count), oc)"
| "limit_remove_loop cx ci maybe_limit (Inr key # ks) delete_count loop_count oc =
     (if (case maybe_limit of Some limit \<Rightarrow> loop_count = limit | None \<Rightarrow> False)
      then Some ((Some key, delete_count, loop_count), oc)
      else do { (removed, oc) \<leftarrow> remove_one cx ci key oc;
                limit_remove_loop cx ci maybe_limit ks
                  (if removed then saturating_add delete_count 1 else delete_count)
                  (saturating_add loop_count 1) oc })"

definition limit_remove_from_backend ::
  "codecs \<Rightarrow> ('e, 'h, 't) backend \<Rightarrow> child_info option \<Rightarrow> bytes option \<Rightarrow> u32 option \<Rightarrow> bytes option
     \<Rightarrow> ('h, 't) overlayed_changes \<Rightarrow> ((bytes option \<times> u32 \<times> u32) \<times> ('h, 't) overlayed_changes) run" where
  "limit_remove_from_backend cx b ci p maybe_limit start_at oc = (case b_keys b ci p start_at of
     Inl _ \<Rightarrow> Some ((None, 0, 0), oc)
   | Inr ks \<Rightarrow> limit_remove_loop cx ci maybe_limit ks 0 0 oc)"

definition removal_results :: "u32 \<Rightarrow> bytes option \<times> u32 \<times> u32 \<Rightarrow> multi_removal_results" where
  "removal_results overlay r = (case r of (cursor, backend, loops) \<Rightarrow>
     \<lparr>maybe_cursor = cursor, removed_backend = backend, removed_unique = overlay + backend, removal_loops = loops\<rparr>)"

definition ext_kill_child_storage ::
  "codecs \<Rightarrow> ('e, 'h, 't) backend \<Rightarrow> child_info \<Rightarrow> u32 option \<Rightarrow> bytes option \<Rightarrow> ('h, 't, 'i, 'x) ext
     \<Rightarrow> (multi_removal_results \<times> ('h, 't, 'i, 'x) ext) run" where
  "ext_kill_child_storage cx b ci maybe_limit cursor =
     on_overlay (\<lambda>oc. do { (overlay, oc) \<leftarrow> oc_clear_child_storage cx ci oc;
       (r, oc) \<leftarrow> limit_remove_from_backend cx b (Some ci) None maybe_limit cursor oc;
       Some (removal_results overlay r, oc) })"

definition ext_clear_prefix ::
  "codecs \<Rightarrow> ('e, 'h, 't) backend \<Rightarrow> bytes \<Rightarrow> u32 option \<Rightarrow> bytes option \<Rightarrow> ('h, 't, 'i, 'x) ext
     \<Rightarrow> (multi_removal_results \<times> ('h, 't, 'i, 'x) ext) run" where
  "ext_clear_prefix cx b p maybe_limit cursor e =
     (if starts_with_child_storage_key p then Some (removal_results 0 (None, 0, 0), e)
      else on_overlay (\<lambda>oc. do { (overlay, oc) \<leftarrow> oc_clear_prefix cx p oc;
        (r, oc) \<leftarrow> limit_remove_from_backend cx b None (Some p) maybe_limit cursor oc;
        Some (removal_results overlay r, oc) }) e)"

definition ext_clear_child_prefix ::
  "codecs \<Rightarrow> ('e, 'h, 't) backend \<Rightarrow> child_info \<Rightarrow> bytes \<Rightarrow> u32 option \<Rightarrow> bytes option \<Rightarrow> ('h, 't, 'i, 'x) ext
     \<Rightarrow> (multi_removal_results \<times> ('h, 't, 'i, 'x) ext) run" where
  "ext_clear_child_prefix cx b ci p maybe_limit cursor =
     on_overlay (\<lambda>oc. do { (overlay, oc) \<leftarrow> oc_clear_child_prefix cx ci p oc;
       (r, oc) \<leftarrow> limit_remove_from_backend cx b (Some ci) (Some p) maybe_limit cursor oc;
       Some (removal_results overlay r, oc) })"

subsection \<open>Roots and the transaction index\<close>

definition ext_storage_root ::
  "codecs \<Rightarrow> ('e, 'h, 't) backend \<Rightarrow> state_version \<Rightarrow> ('h, 't, 'i, 'x) ext \<Rightarrow> (bytes \<times> ('h, 't, 'i, 'x) ext) run" where
  "ext_storage_root cx b version e =
     do { ((root, _), e) \<leftarrow> on_overlay (oc_storage_root cx b version) e; Some (b_encode_root b root, e) }"

definition ext_child_storage_root ::
  "codecs \<Rightarrow> ('e, 'h, 't) backend \<Rightarrow> child_info \<Rightarrow> state_version \<Rightarrow> ('h, 't, 'i, 'x) ext
     \<Rightarrow> (bytes \<times> ('h, 't, 'i, 'x) ext) run" where
  "ext_child_storage_root cx b ci version e =
     do { (r, e) \<leftarrow> on_overlay (oc_child_storage_root cx b ci version) e;
          (root, _) \<leftarrow> expect_ok r; Some (b_encode_root b root, e) }"

definition ext_storage_index_transaction ::
  "u32 \<Rightarrow> bytes \<Rightarrow> u32 \<Rightarrow> ('h, 't, 'i, 'x) ext \<Rightarrow> ('h, 't, 'i, 'x) ext" where
  "ext_storage_index_transaction index h n e =
     e\<lparr>ext_overlay := add_transaction_index (Index_Insert index h n) (ext_overlay e)\<rparr>"

definition ext_storage_renew_transaction_index ::
  "u32 \<Rightarrow> bytes \<Rightarrow> ('h, 't, 'i, 'x) ext \<Rightarrow> ('h, 't, 'i, 'x) ext" where
  "ext_storage_renew_transaction_index index h e =
     e\<lparr>ext_overlay := add_transaction_index (Index_Renew index h) (ext_overlay e)\<rparr>"

subsection \<open>Transactions\<close>

definition ext_start_transaction :: "('i, 'x) extension_ops \<Rightarrow> ('h, 't, 'i, 'x) ext \<Rightarrow> ('h, 't, 'i, 'x) ext" where
  "ext_start_transaction ops e = e\<lparr>ext_overlay := oc_start_transaction (ext_overlay e),
     ext_extensions := map_option (oe_start_transaction ops Runtime_Transaction) (ext_extensions e)\<rparr>"

definition ext_rollback_transaction ::
  "codecs \<Rightarrow> ('i, 'x) extension_ops \<Rightarrow> ('h, 't, 'i, 'x) ext \<Rightarrow> ((unit + unit) \<times> ('h, 't, 'i, 'x) ext) run" where
  "ext_rollback_transaction cx ops e =
     do { (r, e) \<leftarrow> on_overlay (oc_rollback_transaction cx) e;
          Some (case r of Inl _ \<Rightarrow> (Inl (), e)
            | Inr _ \<Rightarrow> (Inr (), e\<lparr>ext_extensions :=
                map_option (oe_rollback_transaction ops Runtime_Transaction) (ext_extensions e)\<rparr>)) }"

definition ext_commit_transaction ::
  "codecs \<Rightarrow> ('i, 'x) extension_ops \<Rightarrow> ('h, 't, 'i, 'x) ext \<Rightarrow> ((unit + unit) \<times> ('h, 't, 'i, 'x) ext) run" where
  "ext_commit_transaction cx ops e =
     do { (r, e) \<leftarrow> on_overlay (oc_commit_transaction cx) e;
          Some (case r of Inl _ \<Rightarrow> (Inl (), e)
            | Inr _ \<Rightarrow> (Inr (), e\<lparr>ext_extensions :=
                map_option (oe_commit_transaction ops Runtime_Transaction) (ext_extensions e)\<rparr>)) }"

subsection \<open>Benchmarking\<close>

text \<open>
  \<open>wipe\<close> and \<open>commit\<close> close every transaction, drain the overlay, hand the state to the backend and enter the
  runtime again.  What the backend answers is an argument: a backend that does not implement
  them panics.
\<close>

fun repeat_close ::
  "nat \<Rightarrow> (('h, 't) overlayed_changes \<Rightarrow> ((no_open_transaction + unit) \<times> ('h, 't) overlayed_changes) run)
     \<Rightarrow> ('h, 't) overlayed_changes \<Rightarrow> ('h, 't) overlayed_changes run" where
  "repeat_close 0 close oc = Some oc"
| "repeat_close (Suc n) close oc = do { oc \<leftarrow> expect (close oc); repeat_close n close oc }"

definition ext_wipe ::
  "codecs \<Rightarrow> ('e, 'h, 't) backend \<Rightarrow> ('e + unit) run \<Rightarrow> ('h, 't, 'i, 'x) ext \<Rightarrow> ('h, 't, 'i, 'x) ext run" where
  "ext_wipe cx b wiped = upd_overlay (\<lambda>oc.
     do { oc \<leftarrow> repeat_close (oc_transaction_depth oc) (oc_rollback_transaction cx) oc;
          (_, oc) \<leftarrow> drain_storage_changes cx b V1 oc;
          w \<leftarrow> wiped;
          _ \<leftarrow> expect_ok w;
          expect (oc_enter_runtime oc) })"

definition ext_commit ::
  "codecs \<Rightarrow> ('e, 'h, 't) backend \<Rightarrow> ('h \<Rightarrow> 't \<Rightarrow> delta \<Rightarrow> (bytes \<times> delta) list \<Rightarrow> ('e + unit) run)
     \<Rightarrow> ('h, 't, 'i, 'x) ext \<Rightarrow> ('h, 't, 'i, 'x) ext run" where
  "ext_commit cx b commit = upd_overlay (\<lambda>oc.
     do { oc \<leftarrow> repeat_close (oc_transaction_depth oc) (oc_commit_transaction cx) oc;
          (sc, oc) \<leftarrow> drain_storage_changes cx b V1 oc;
          w \<leftarrow> commit (transaction_storage_root sc) (sc_transaction sc) (main_storage_changes sc)
            (child_storage_changes sc);
          _ \<leftarrow> expect_ok w;
          expect (oc_enter_runtime oc) })"

subsection \<open>Extensions\<close>

definition extension_by_type_id :: "'i \<Rightarrow> ('h, 't, 'i, 'x) ext \<Rightarrow> 'x option" where
  "extension_by_type_id i e = Option.bind (ext_extensions e) (oe_get i)"

definition register_extension_with_type_id ::
  "'i::linorder \<Rightarrow> 'x \<Rightarrow> ('h, 't, 'i, 'x) ext \<Rightarrow> ('i ext_error + unit) \<times> ('h, 't, 'i, 'x) ext" where
  "register_extension_with_type_id i x e = (case ext_extensions e of
     None \<Rightarrow> (Inl ExtensionsAreNotSupported, e)
   | Some es \<Rightarrow> (let (r, es) = oe_register i x es in (r, e\<lparr>ext_extensions := Some es\<rparr>)))"

definition deregister_extension_by_type_id ::
  "'i \<Rightarrow> ('h, 't, 'i, 'x) ext \<Rightarrow> ('i ext_error + unit) \<times> ('h, 't, 'i, 'x) ext" where
  "deregister_extension_by_type_id i e = (case ext_extensions e of
     None \<Rightarrow> (Inl ExtensionsAreNotSupported, e)
   | Some es \<Rightarrow> (let (found, es) = oe_deregister i es; e = e\<lparr>ext_extensions := Some es\<rparr> in
       if found then (Inr (), e) else (Inl (ExtensionIsNotRegistered i), e)))"

end
