(* ===== verification/Changeset_Views.thy ===== *)
theory Changeset_Views
  imports Changeset
begin

text \<open>
  What the history of one key means.  \<open>Entry_Append\<close> moves the bytes of the enclosing transaction into
  the newest version, so an older version is only readable after \<open>restore_append_to_parent\<close>.
  \<open>views\<close> performs these restorations and lists the value each transaction level sees;
  \<open>good_stack\<close> is the invariant that makes them possible.  The lemmas give the effect of every
  operation on the list of views: a write changes the first, a rollback drops it, a commit drops
  the second.
\<close>

subsection \<open>Views\<close>

definition entry_view :: "compact_codec \<Rightarrow> storage_entry \<Rightarrow> bytes option" where
  "entry_view cd e = (case e of Entry_Set d \<Rightarrow> Some d | Entry_Remove \<Rightarrow> None
     | Entry_Append d c m _ \<Rightarrow> Some (compact_encode cd c @ drop (compact_size cd m) d))"

definition give_back :: "compact_codec \<Rightarrow> storage_entry \<Rightarrow> storage_entry list \<Rightarrow> storage_entry list" where
  "give_back cd e es = (case e of
     Entry_Append d _ m (Some n) \<Rightarrow> (case es of [] \<Rightarrow> [] | p # r \<Rightarrow> restore_append_to_parent cd p d m n # r)
   | _ \<Rightarrow> es)"

lemma length_give_back [simp]: "length (give_back cd e es) = length es"
  by (simp add: give_back_def split: storage_entry.split option.split list.split)

function views :: "compact_codec \<Rightarrow> storage_entry list \<Rightarrow> bytes option list" where
  "views cd [] = []"
| "views cd (e # es) = entry_view cd e # views cd (give_back cd e es)"
  by pat_completeness auto
termination by (relation "measure (length \<circ> snd)") simp_all

text \<open>
  The bytes of an append carry the length prefix they claim to carry, and data taken from an
  enclosing append still contain that version's bytes.
\<close>

definition prefix_ok :: "compact_codec \<Rightarrow> bytes \<Rightarrow> u32 option \<Rightarrow> bool" where
  "prefix_ok cd d m \<longleftrightarrow> (case m of None \<Rightarrow> True
     | Some l \<Rightarrow> d = compact_encode cd l @ drop (compact_len cd l) d)"

definition entry_fits :: "compact_codec \<Rightarrow> storage_entry \<Rightarrow> storage_entry list \<Rightarrow> bool" where
  "entry_fits cd e es = (case e of
     Entry_Append d c m ps \<Rightarrow> prefix_ok cd d m \<and>
       (case ps of None \<Rightarrow> True
        | Some n \<Rightarrow> (case es of
            Entry_Append _ _ pm _ # _ \<Rightarrow>
              compact_size cd pm \<le> n \<and> n - compact_size cd pm + compact_size cd m \<le> length d
          | _ \<Rightarrow> False))
   | _ \<Rightarrow> True)"

function good_stack :: "compact_codec \<Rightarrow> storage_entry list \<Rightarrow> bool" where
  "good_stack cd [] = True"
| "good_stack cd (e # es) = (entry_fits cd e es \<and> good_stack cd (give_back cd e es))"
  by pat_completeness auto
termination by (relation "measure (length \<circ> snd)") simp_all

lemma length_views [simp]: "length (views cd es) = length es"
  by (induction cd es rule: views.induct) simp_all

lemma views_Nil_iff [simp]: "views cd es = [] \<longleftrightarrow> es = []"
  by (metis length_0_conv length_views)

subsection \<open>The specification of an append\<close>

text \<open>
  Appending one encoded element to an encoded list: bump the length prefix and add the bytes.  A
  value without a length prefix, and an absent one, become the list of the element alone.
\<close>

definition scale_append :: "compact_codec \<Rightarrow> bytes option \<Rightarrow> bytes \<Rightarrow> bytes" where
  "scale_append cd old x = (case Option.bind old (compact_decode cd) of
     Some len \<Rightarrow> compact_encode cd (len + 1) @ drop (compact_len cd len) (the old) @ x
   | None \<Rightarrow> compact_encode cd 1 @ x)"

subsection \<open>Restoration\<close>

lemma restore_target:
  assumes "pm_size \<le> n"
  shows "(if pm_size \<ge> m_size then usize_sub n (pm_size - m_size) else n + (m_size - pm_size))
       = n - pm_size + m_size"
  using assms by (auto simp: usize_sub_def)

lemma restore_append:
  assumes "compact_size cd pm \<le> n"
  shows "restore_append_to_parent cd (Entry_Append pd pc pm ps) d m n
       = Entry_Append (take (n - compact_size cd pm + compact_size cd m) d) pc m ps"
  using restore_target [OF assms, of "compact_size cd m"]
  by (simp add: restore_append_to_parent_def Let_def)

lemma give_back_simps [simp]:
  "give_back cd (Entry_Set v) es = es"
  "give_back cd Entry_Remove es = es"
  "give_back cd (Entry_Append d c m None) es = es"
  "give_back cd (Entry_Append d c m (Some n)) (p # r) = restore_append_to_parent cd p d m n # r"
  by (simp_all add: give_back_def)

lemma entry_fits_simps [simp]:
  "entry_fits cd (Entry_Set v) es"
  "entry_fits cd Entry_Remove es"
  "entry_fits cd (Entry_Append d c m None) es = prefix_ok cd d m"
  by (simp_all add: entry_fits_def)

lemma entry_fits_nested:
  "entry_fits cd (Entry_Append d c m (Some n)) es \<longleftrightarrow>
     prefix_ok cd d m \<and> (\<exists>pd pc pm ps r. es = Entry_Append pd pc pm ps # r \<and>
       compact_size cd pm \<le> n \<and> n - compact_size cd pm + compact_size cd m \<le> length d)"
  by (auto simp: entry_fits_def split: list.split storage_entry.split)

lemma entry_view_simps [simp]:
  "entry_view cd (Entry_Set v) = Some v"
  "entry_view cd Entry_Remove = None"
  "entry_view cd (Entry_Append d c m ps) = Some (compact_encode cd c @ drop (compact_size cd m) d)"
  by (simp_all add: entry_view_def)

definition same_payload :: "compact_codec \<Rightarrow> storage_entry \<Rightarrow> storage_entry \<Rightarrow> bool" where
  "same_payload cd e e' \<longleftrightarrow> e = e' \<or>
     (\<exists>d c m d' m' ps. e = Entry_Append d c m ps \<and> e' = Entry_Append d' c m' ps \<and>
        prefix_ok cd d m \<and> prefix_ok cd d' m' \<and>
        drop (compact_size cd m) d = drop (compact_size cd m') d')"

context compact_laws
begin

lemma prefix_ok_None [simp]: "prefix_ok cd d None"
  by (simp add: prefix_ok_def)

lemma prefix_ok_Some: "prefix_ok cd d (Some l) \<longleftrightarrow> (\<exists>r. d = compact_encode cd l @ r)"
  by (auto simp: prefix_ok_def len_encode)

lemma compact_size_simps [simp]:
  "compact_size cd None = 0"
  "compact_size cd (Some l) = length (compact_encode cd l)"
  by (simp_all add: compact_size_def len_encode)

lemma prefix_ok_size: "prefix_ok cd d m \<Longrightarrow> compact_size cd m \<le> length d"
  by (cases m) (auto simp: prefix_ok_Some)

lemma prefix_ok_take:
  "prefix_ok cd d m \<Longrightarrow> compact_size cd m \<le> t \<Longrightarrow> prefix_ok cd (take t d) m"
  by (cases m) (auto simp: prefix_ok_Some)

lemma prefix_ok_append: "prefix_ok cd d m \<Longrightarrow> prefix_ok cd (d @ x) m"
  by (cases m) (auto simp: prefix_ok_Some)

lemma prefix_ok_encode: "prefix_ok cd (compact_encode cd c @ d) (Some c)"
  by (simp add: prefix_ok_def len_encode)

lemma view_materialized:
  "prefix_ok cd d (Some c) \<Longrightarrow> compact_encode cd c @ drop (compact_size cd (Some c)) d = d"
  by (auto simp: prefix_ok_Some)

text \<open>
  Materializing rewrites the length prefix and keeps the payload.  Two versions that agree on the
  payload give the versions below them payloads that agree.
\<close>

lemma same_payload_stack:
  assumes "same_payload cd e e'" "good_stack cd (e # es)"
  shows "good_stack cd (e' # es) \<and> views cd (e' # es) = views cd (e # es)"
  using assms
proof (induction es arbitrary: e e')
  case Nil
  then show ?case
  proof (cases "e = e'")
    case False
    then obtain d c m d' m' ps where "e = Entry_Append d c m ps" "e' = Entry_Append d' c m' ps"
      "prefix_ok cd d m" "prefix_ok cd d' m'" "drop (compact_size cd m) d = drop (compact_size cd m') d'"
      using Nil.prems(1) unfolding same_payload_def by blast
    with Nil.prems(2) show ?thesis by (cases ps) (auto simp: entry_fits_nested)
  qed simp
next
  case (Cons p r)
  show ?case
  proof (cases "e = e'")
    case False
    then obtain d c m d' m' ps where e: "e = Entry_Append d c m ps" "e' = Entry_Append d' c m' ps"
      and ok: "prefix_ok cd d m" "prefix_ok cd d' m'"
      and pay: "drop (compact_size cd m) d = drop (compact_size cd m') d'"
      using Cons.prems(1) unfolding same_payload_def by blast
    show ?thesis
    proof (cases ps)
      case None
      with Cons.prems(2) e ok pay show ?thesis by simp
    next
      case (Some n)
      then obtain pd pc pm pps where p: "p = Entry_Append pd pc pm pps"
        and n: "compact_size cd pm \<le> n" "n - compact_size cd pm + compact_size cd m \<le> length d"
        using Cons.prems(2) e by (auto simp: entry_fits_nested)
      let ?q = "n - compact_size cd pm"
      let ?p1 = "Entry_Append (take (?q + compact_size cd m) d) pc m pps"
      let ?p2 = "Entry_Append (take (?q + compact_size cd m') d') pc m' pps"
      have g: "good_stack cd (?p1 # r)"
        using Cons.prems(2) e Some p n by (simp add: restore_append)
      have len: "?q + compact_size cd m' \<le> length d'"
        using n(2) prefix_ok_size [OF ok(1)] prefix_ok_size [OF ok(2)]
          arg_cong [OF pay, of length] by simp
      have "same_payload cd ?p1 ?p2"
        using ok pay by (auto simp: same_payload_def prefix_ok_take drop_take)
      from Cons.IH [OF this g] show ?thesis
        using e Some p n ok pay len by (auto simp: restore_append entry_fits_nested)
    qed
  qed (use Cons.prems in simp)
qed

end

subsection \<open>Operations on the history of a key\<close>

abbreviation entry_views :: "compact_codec \<Rightarrow> storage_entry overlayed_entry \<Rightarrow> bytes option list" where
  "entry_views cd ts \<equiv> views cd (map iv_value ts)"

abbreviation good_entry :: "compact_codec \<Rightarrow> storage_entry overlayed_entry \<Rightarrow> bool" where
  "good_entry cd ts \<equiv> good_stack cd (map iv_value ts)"

lemma note_extrinsic_values:
  "ts \<noteq> [] \<Longrightarrow> \<exists>ts'. note_extrinsic at ts = Some ts' \<and> map iv_value ts' = map iv_value ts"
  by (cases ts; cases at) (auto simp: note_extrinsic_def transaction_extrinsics_mut_def)

lemma map_push_value [simp]: "map iv_value (push_value v ts) = v # map iv_value ts"
  by (simp add: push_value_def)

lemma push_value_neq_Nil [simp]: "push_value v ts \<noteq> []"
  by (simp add: push_value_def)

lemma note_after:
  assumes "ts1 \<noteq> []" "P (map iv_value ts1)"
  shows "\<exists>ts'. Option.bind (Some ts1) (note_extrinsic at) = Some ts' \<and> P (map iv_value ts')"
  using note_extrinsic_values [OF assms(1), of at] assms(2) by auto

text \<open>The version below an append with a parent size, restored.\<close>

lemma restore_below_give_back:
  assumes "entry_fits cd (Entry_Append d c m (Some n)) (map iv_value rest)"
  shows "\<exists>rest'. restore_below cd d m n rest = Some rest' \<and> rest' \<noteq> [] \<and>
    map iv_value rest' = give_back cd (Entry_Append d c m (Some n)) (map iv_value rest)"
  using assms by (cases rest) (auto simp: entry_fits_nested restore_below_def value_mut_def)

lemma entry_set_views:
  assumes "good_entry cd ts"
  shows "\<exists>ts'. entry_set cd v first at ts = Some ts' \<and> good_entry cd ts' \<and>
    entry_views cd ts' = v # (if first then entry_views cd ts else tl (entry_views cd ts))"
proof -
  define new where "new = (case v of None \<Rightarrow> Entry_Remove | Some x \<Rightarrow> Entry_Set x)"
  have new: "entry_view cd new = v" "\<And>es. give_back cd new es = es" "\<And>es. entry_fits cd new es"
    by (simp_all add: new_def split: option.split)
  let ?P = "\<lambda>es. good_stack cd es \<and>
    views cd es = v # (if first then entry_views cd ts else tl (entry_views cd ts))"
  have "\<exists>ts1. entry_set cd v first at ts = Option.bind (Some ts1) (note_extrinsic at) \<and>
      ts1 \<noteq> [] \<and> ?P (map iv_value ts1)"
  proof (cases "first \<or> ts = []")
    case True
    then have "entry_set cd v first at ts = Option.bind (Some (push_value new ts)) (note_extrinsic at)"
      by (auto simp: entry_set_def new_def Let_def)
    moreover have "?P (map iv_value (push_value new ts))" using True assms by (auto simp: new)
    ultimately show ?thesis by (intro exI [of _ "push_value new ts"]) simp
  next
    case False
    then obtain t rest where ts: "ts = t # rest" by (cases ts) auto
    show ?thesis
    proof (cases "\<exists>d c m n. iv_value t = Entry_Append d c m (Some n)")
      case True
      then obtain d c m n where t: "iv_value t = Entry_Append d c m (Some n)" by blast
      then have "entry_fits cd (Entry_Append d c m (Some n)) (map iv_value rest)"
        using assms ts by simp
      then obtain rest' where "restore_below cd d m n rest = Some rest'"
        "map iv_value rest' = give_back cd (iv_value t) (map iv_value rest)"
        using restore_below_give_back [of cd d c m n rest] by (auto simp: t)
      then show ?thesis using False assms ts t new
        by (intro exI [of _ "t\<lparr>iv_value := new\<rparr> # rest'"])
          (simp add: entry_set_def new_def [symmetric] Let_def)
    next
      case none: False
      then have "give_back cd (iv_value t) es = es" for es
        by (cases "iv_value t") (auto simp: give_back_def split: option.split)
      moreover have "entry_set cd v first at ts = Option.bind (Some (t\<lparr>iv_value := new\<rparr> # rest)) (note_extrinsic at)"
        using none False ts
        by (auto simp: entry_set_def new_def [symmetric] Let_def split: storage_entry.split option.split)
      ultimately show ?thesis using False assms ts new
        by (intro exI [of _ "t\<lparr>iv_value := new\<rparr> # rest"]) simp
    qed
  qed
  then show ?thesis using note_after [of _ ?P at] by metis
qed

text \<open>The value an append starts from: the newest one, or the given initial value of an unknown key.\<close>

definition appended_value :: "bytes option list \<Rightarrow> bytes \<Rightarrow> bytes option" where
  "appended_value vs i = (case vs of [] \<Rightarrow> Some i | v # _ \<Rightarrow> v)"

context compact_laws
begin

lemma scale_append_None [simp]: "scale_append cd None x = compact_encode cd 1 @ x"
  by (simp add: scale_append_def)

lemma scale_append_encoded:
  "scale_append cd (Some (compact_encode cd c @ r)) x = compact_encode cd (c + 1) @ r @ x"
  by (simp add: scale_append_def decode_encode len_encode)

lemma append_start_spec:
  assumes "append_start cd prev x = (d, c, m)"
  shows "prefix_ok cd d m \<and> compact_encode cd c @ drop (compact_size cd m) d = scale_append cd (Some prev) x"
proof (cases "compact_decode cd prev")
  case None
  with assms show ?thesis by (auto simp: append_start_def extract_length_def scale_append_def)
next
  case (Some len)
  then have "prev = compact_encode cd len @ drop (compact_len cd len) prev" by (rule decode_split)
  then obtain r where "prev = compact_encode cd len @ r" by metis
  with assms Some show ?thesis
    by (auto simp: append_start_def extract_length_def scale_append_encoded decode_encode append_raw_def prefix_ok_Some)
qed

lemma grow_append:
  assumes "good_stack cd (Entry_Append d c m ps # es)"
  shows "good_stack cd (Entry_Append (d @ x) (c + 1) m ps # es) \<and>
    views cd (Entry_Append (d @ x) (c + 1) m ps # es)
      = Some (scale_append cd (Some (compact_encode cd c @ drop (compact_size cd m) d)) x)
        # tl (views cd (Entry_Append d c m ps # es))"
proof -
  have ok: "prefix_ok cd d m" using assms by (cases ps) (simp_all add: entry_fits_nested)
  have "give_back cd (Entry_Append (d @ x) (c + 1) m ps) es = give_back cd (Entry_Append d c m ps) es"
    using assms by (cases ps) (auto simp: entry_fits_nested restore_append)
  moreover have "entry_fits cd (Entry_Append (d @ x) (c + 1) m ps) es"
    using assms by (cases ps) (auto simp: entry_fits_nested prefix_ok_append)
  ultimately show ?thesis
    using assms ok prefix_ok_size [OF ok] by (simp add: scale_append_encoded)
qed

lemma nest_append:
  assumes "good_stack cd (Entry_Append d c m ps # es)"
  shows "good_stack cd (Entry_Append (d @ x) (c + 1) m (Some (length d)) # Entry_Append [] c m ps # es) \<and>
    views cd (Entry_Append (d @ x) (c + 1) m (Some (length d)) # Entry_Append [] c m ps # es)
      = Some (scale_append cd (Some (compact_encode cd c @ drop (compact_size cd m) d)) x)
        # views cd (Entry_Append d c m ps # es)"
proof -
  have ok: "prefix_ok cd d m" using assms by (cases ps) (simp_all add: entry_fits_nested)
  then have "give_back cd (Entry_Append (d @ x) (c + 1) m (Some (length d))) (Entry_Append [] c m ps # es)
      = Entry_Append d c m ps # es"
    using prefix_ok_size [OF ok] by (simp add: restore_append)
  with ok show ?thesis
    using assms prefix_ok_size [OF ok]
    by (simp add: entry_fits_nested prefix_ok_append scale_append_encoded)
qed

lemma entry_append_views:
  assumes "good_entry cd ts" "ts = [] \<Longrightarrow> init () = Some i"
  shows "\<exists>ts'. entry_append cd x first init at ts = Some ts' \<and> good_entry cd ts' \<and>
    entry_views cd ts' = Some (scale_append cd (appended_value (entry_views cd ts) i) x)
      # (if first then entry_views cd ts else tl (entry_views cd ts))"
proof -
  let ?P = "\<lambda>es. good_stack cd es \<and>
    views cd es = Some (scale_append cd (appended_value (entry_views cd ts) i) x)
      # (if first then entry_views cd ts else tl (entry_views cd ts))"
  have "\<exists>ts1. entry_append cd x first init at ts = Option.bind (Some ts1) (note_extrinsic at) \<and>
      ts1 \<noteq> [] \<and> ?P (map iv_value ts1)"
  proof (cases ts)
    case Nil
    obtain d c m where "append_start cd i x = (d, c, m)" by (metis prod_cases3)
    with append_start_spec [OF this] Nil assms(2) show ?thesis
      by (intro exI [of _ "push_value (Entry_Append d c m None) []"])
        (simp add: entry_append_def appended_value_def)
  next
    case (Cons t rest)
    show ?thesis
    proof (cases "iv_value t")
      case (Entry_Set prev)
      obtain d c m where "append_start cd prev x = (d, c, m)" by (metis prod_cases3)
      with append_start_spec [OF this] Entry_Set Cons assms(1) show ?thesis
        by (intro exI [of _ "if first then push_value (Entry_Append d c m None) ts
              else t\<lparr>iv_value := Entry_Append d c m None\<rparr> # rest"])
          (simp add: entry_append_def appended_value_def)
    next
      case Entry_Remove
      with Cons assms(1) show ?thesis
        by (intro exI [of _ "if first then push_value (Entry_Append x 1 None None) ts
              else t\<lparr>iv_value := Entry_Append x 1 None None\<rparr> # rest"])
          (simp add: entry_append_def appended_value_def)
    next
      case (Entry_Append d c m ps)
      with Cons assms(1) have g: "good_stack cd (Entry_Append d c m ps # map iv_value rest)" by simp
      have av: "appended_value (views cd (Entry_Append d c m ps # map iv_value rest)) i
          = Some (compact_encode cd c @ drop (compact_size cd m) d)"
        by (simp add: appended_value_def)
      show ?thesis
        using grow_append [OF g, of x] nest_append [OF g, of x] Entry_Append Cons
        by (intro exI [of _ "if first then push_value (Entry_Append (d @ x) (c + 1) m (Some (length d)))
                (t\<lparr>iv_value := Entry_Append [] c m ps\<rparr> # rest)
              else t\<lparr>iv_value := Entry_Append (d @ x) (c + 1) m ps\<rparr> # rest"])
          (simp add: av entry_append_def append_raw_def del: views.simps(2) good_stack.simps(2))
    qed
  qed
  then show ?thesis using note_after [of _ ?P at] by metis
qed

lemma entry_value_views:
  assumes "good_entry cd ts" "ts \<noteq> []"
  shows "\<exists>ts'. entry_value cd ts = Some (hd (entry_views cd ts), ts') \<and> good_entry cd ts' \<and>
    entry_views cd ts' = entry_views cd ts"
proof -
  obtain t rest where ts: "ts = t # rest" using assms(2) by (cases ts) auto
  have "\<exists>e'. as_option cd (iv_value t) = Some (entry_view cd (iv_value t), e') \<and>
      same_payload cd (iv_value t) e'"
  proof (cases "iv_value t")
    case (Entry_Append d c m ps)
    then have ok: "prefix_ok cd d m" using assms(1) ts by (cases ps) (simp_all add: entry_fits_nested)
    show ?thesis
    proof (cases "m = Some c")
      case True
      then show ?thesis using Entry_Append view_materialized ok
        by (simp add: as_option_def materialize_in_place_def entry_bytes_def same_payload_def)
    next
      case False
      let ?d' = "compact_encode cd c @ drop (compact_size cd m) d"
      have "same_payload cd (iv_value t) (Entry_Append ?d' c (Some c) ps)"
        using Entry_Append ok prefix_ok_encode by (simp add: same_payload_def)
      then show ?thesis using Entry_Append False prefix_ok_size [OF ok]
        by (simp add: as_option_def materialize_in_place_def entry_bytes_def replace_length_def)
    qed
  qed (simp_all add: as_option_def materialize_in_place_def entry_bytes_def same_payload_def)
  then obtain e' where e: "as_option cd (iv_value t) = Some (entry_view cd (iv_value t), e')"
    "same_payload cd (iv_value t) e'" by blast
  with same_payload_stack [OF e(2), of "map iv_value rest"] assms(1) ts show ?thesis
    by (intro exI [of _ "t\<lparr>iv_value := e'\<rparr> # rest"]) (simp add: entry_value_def)
qed

end

lemma rollback_restores:
  assumes "entry_fits cd (iv_value t) (map iv_value rest)"
  shows "\<exists>rest'. (case iv_value t of
      Entry_Append data _ mat (Some n) \<Rightarrow> restore_below cd data mat n rest | _ \<Rightarrow> Some rest) = Some rest' \<and>
    map iv_value rest' = give_back cd (iv_value t) (map iv_value rest)"
proof (cases "\<exists>d c m n. iv_value t = Entry_Append d c m (Some n)")
  case True
  then obtain d c m n where t: "iv_value t = Entry_Append d c m (Some n)" by blast
  with restore_below_give_back assms show ?thesis by fastforce
next
  case False
  then show ?thesis by (cases "iv_value t") (auto simp: give_back_def split: option.split)
qed

lemma transaction_extrinsics_values:
  "r \<noteq> [] \<Longrightarrow> \<exists>r'. transaction_extrinsics_mut f r = Some r' \<and> map iv_value r' = map iv_value r"
  by (cases r) (auto simp: transaction_extrinsics_mut_def)

lemma overwrite_committed_values:
  assumes "entry_fits cd (iv_value p) (map iv_value rest)"
  shows "\<exists>r'. overwrite_committed cd v (p # rest) = Some r' \<and>
    map iv_value r' = v # give_back cd (iv_value p) (map iv_value rest)"
proof (cases "\<exists>d c m n. iv_value p = Entry_Append d c m (Some n)")
  case True
  then obtain d c m n where p: "iv_value p = Entry_Append d c m (Some n)" by blast
  with assms obtain q qs where "rest = q # qs" by (cases rest) (auto simp: entry_fits_nested)
  with p show ?thesis by (simp add: overwrite_committed_def value_ref_def value_mut_def)
next
  case False
  then show ?thesis
    by (cases "iv_value p")
      (auto simp: give_back_def overwrite_committed_def value_ref_def value_mut_def split: option.split)
qed

context compact_laws
begin

text \<open>Two consecutive appends: the data the lower one holds for its own parent are still there.\<close>

lemma merge_appends:
  assumes "good_stack cd (Entry_Append d c m (Some n) # Entry_Append pd pc pm keep # es)"
  shows "good_stack cd (Entry_Append d c m keep # es) \<and>
    views cd (Entry_Append d c m keep # es)
      = entry_view cd (Entry_Append d c m (Some n))
        # tl (tl (views cd (Entry_Append d c m (Some n) # Entry_Append pd pc pm keep # es)))"
proof -
  let ?t = "n - compact_size cd pm + compact_size cd m"
  let ?p = "Entry_Append (take ?t d) pc m keep"
  have ok: "prefix_ok cd d m" and n: "compact_size cd pm \<le> n" "?t \<le> length d"
    using assms by (auto simp: entry_fits_nested)
  then have p: "good_stack cd (?p # es)" using assms by (simp add: restore_append)
  have "give_back cd (Entry_Append d c m keep) es = give_back cd ?p es \<and>
      entry_fits cd (Entry_Append d c m keep) es"
  proof (cases keep)
    case None
    with ok show ?thesis by simp
  next
    case (Some k)
    with p obtain rd rc rm rps r where es: "es = Entry_Append rd rc rm rps # r"
      and k: "compact_size cd rm \<le> k"
      and len: "k - compact_size cd rm + compact_size cd m \<le> length (take ?t d)"
      by (auto simp: entry_fits_nested)
    from len have "k - compact_size cd rm + compact_size cd m \<le> ?t"
      "k - compact_size cd rm + compact_size cd m \<le> length d" by simp_all
    then have "take (k - compact_size cd rm + compact_size cd m) (take ?t d)
        = take (k - compact_size cd rm + compact_size cd m) d"
      by (simp only: take_take min_absorb1)
    with Some es k ok \<open>k - compact_size cd rm + compact_size cd m \<le> length d\<close> show ?thesis
      by (simp only: give_back_simps restore_append entry_fits_nested) blast
  qed
  with p n show ?thesis by (simp add: restore_append)
qed

lemma merge_committed_views:
  assumes "good_entry cd (t # p # rest)"
  shows "\<exists>r'. merge_committed cd t (p # rest) = Some r' \<and> good_entry cd r' \<and>
    entry_views cd r' = hd (entry_views cd (t # p # rest)) # tl (tl (entry_views cd (t # p # rest)))"
proof -
  let ?P = "\<lambda>es. good_stack cd es \<and>
    views cd es = hd (entry_views cd (t # p # rest)) # tl (tl (entry_views cd (t # p # rest)))"
  have "\<exists>r1. merge_committed cd t (p # rest) = Option.bind (Some r1)
      (transaction_extrinsics_mut (\<lambda>es. extrinsics_extend es (iv_extrinsics t))) \<and>
      r1 \<noteq> [] \<and> ?P (map iv_value r1)"
  proof (cases "\<exists>d c m n. iv_value t = Entry_Append d c m (Some n)")
    case True
    then obtain d c m n where t: "iv_value t = Entry_Append d c m (Some n)" by blast
    then obtain pd pc pm keep where p: "iv_value p = Entry_Append pd pc pm keep"
      using assms by (auto simp: entry_fits_nested)
    show ?thesis
      using merge_appends [of d c m n pd pc pm keep "map iv_value rest"] assms t p
      by (intro exI [of _ "p\<lparr>iv_value := Entry_Append d c m keep\<rparr> # rest"])
        (simp add: merge_committed_def value_ref_def value_mut_def)
  next
    case False
    then have gb: "give_back cd (iv_value t) es = es" for es
      by (cases "iv_value t") (auto simp: give_back_def split: option.split)
    with assms have g: "entry_fits cd (iv_value p) (map iv_value rest)" by simp
    obtain r1 where r1: "overwrite_committed cd (iv_value t) (p # rest) = Some r1"
      "map iv_value r1 = iv_value t # give_back cd (iv_value p) (map iv_value rest)"
      using overwrite_committed_values [OF g, of "iv_value t"] by (elim exE conjE)
    have "entry_fits cd (iv_value t) es" for es
      using False assms by (cases "iv_value t") (auto simp: entry_fits_def split: option.splits)
    with r1 gb assms have "r1 \<noteq> [] \<and> ?P (map iv_value r1)" by auto
    moreover have "merge_committed cd t (p # rest) = Option.bind (Some r1)
      (transaction_extrinsics_mut (\<lambda>es. extrinsics_extend es (iv_extrinsics t)))"
      using False r1(1)
      by (cases "iv_value t") (auto simp: merge_committed_def split: option.split)
    ultimately show ?thesis by (intro exI [of _ r1] conjI) simp_all
  qed
  then obtain r1 where r1: "merge_committed cd t (p # rest) = Option.bind (Some r1)
      (transaction_extrinsics_mut (\<lambda>es. extrinsics_extend es (iv_extrinsics t)))"
    "r1 \<noteq> []" "?P (map iv_value r1)" by metis
  obtain r' where "transaction_extrinsics_mut (\<lambda>es. extrinsics_extend es (iv_extrinsics t)) r1 = Some r'"
    "map iv_value r' = map iv_value r1"
    using transaction_extrinsics_values [OF r1(2)] by metis
  with r1 show ?thesis by (intro exI [of _ r']) simp
qed

end

end
