(* ===== verification/Txn_Layers.thy ===== *)
theory Txn_Layers
  imports Changeset
begin

text \<open>
  What nested transactions mean, independently of how the overlay stores them.  The specification
  state is a stack of layers, one map per open transaction above the committed map, and the value
  of a key is the one of the highest layer that has it.  Starting pushes an empty layer, rolling
  back drops the highest, committing merges the two highest.  The locale \<open>txn_store\<close> is the
  interface of an implementation; its lemmas hold for any sequence of operations.
\<close>

type_synonym ('k, 'a) layers = "('k \<rightharpoonup> 'a) list"

subsection \<open>The specification\<close>

fun visible :: "('k, 'a) layers \<Rightarrow> ('k \<rightharpoonup> 'a)" where
  "visible [] = Map.empty"
| "visible (l # ls) = visible ls ++ l"

fun merge_top :: "('k, 'a) layers \<Rightarrow> ('k, 'a) layers" where
  "merge_top (l # b # ls) = (b ++ l) # ls"
| "merge_top ls = ls"

datatype 'w txn_op = Op_Write 'w | Op_Start | Op_Rollback | Op_Commit

fun spec_step ::
  "('w \<Rightarrow> ('k \<rightharpoonup> 'a) \<Rightarrow> ('k \<rightharpoonup> 'a)) \<Rightarrow> nat \<Rightarrow> 'w txn_op \<Rightarrow> ('k, 'a) layers \<Rightarrow> ('k, 'a) layers" where
  "spec_step eff p (Op_Write w) ls = (hd ls ++ eff w (visible ls)) # tl ls"
| "spec_step eff p Op_Start ls = Map.empty # ls"
| "spec_step eff p Op_Rollback ls = (if Suc p < length ls then tl ls else ls)"
| "spec_step eff p Op_Commit ls = (if Suc p < length ls then merge_top ls else ls)"

definition spec_run ::
  "('w \<Rightarrow> ('k \<rightharpoonup> 'a) \<Rightarrow> ('k \<rightharpoonup> 'a)) \<Rightarrow> nat \<Rightarrow> 'w txn_op list \<Rightarrow> ('k, 'a) layers \<Rightarrow> ('k, 'a) layers" where
  "spec_run eff p = fold (spec_step eff p)"

text \<open>Every transaction opened in the sequence is closed in it, and no other.\<close>

fun balanced :: "nat \<Rightarrow> 'w txn_op list \<Rightarrow> bool" where
  "balanced n [] = (n = 0)"
| "balanced n (Op_Write w # ops) = balanced n ops"
| "balanced n (Op_Start # ops) = balanced (Suc n) ops"
| "balanced n (Op_Rollback # ops) = (0 < n \<and> balanced (n - 1) ops)"
| "balanced n (Op_Commit # ops) = (0 < n \<and> balanced (n - 1) ops)"

lemma visible_merge_top [simp]: "visible (merge_top ls) = visible ls"
  by (induction ls rule: merge_top.induct) simp_all

lemma length_merge_top [simp]: "length (merge_top ls) = (if 1 < length ls then length ls - 1 else length ls)"
  by (induction ls rule: merge_top.induct) simp_all

lemma merge_top_drop: "n < length (merge_top ls) \<Longrightarrow> 0 < n \<Longrightarrow> drop n (merge_top ls) = drop (Suc n) ls"
  by (induction ls rule: merge_top.induct) (auto simp: drop_Cons')

lemma spec_run_simps [simp]:
  "spec_run eff p [] ls = ls"
  "spec_run eff p (op # ops) ls = spec_run eff p ops (spec_step eff p op ls)"
  by (simp_all add: spec_run_def)

text \<open>The layers below the protected ones never change.\<close>

lemma spec_step_protects:
  assumes "p < length ls"
  shows "p < length (spec_step eff p op ls) \<and>
    drop (length (spec_step eff p op ls) - p) (spec_step eff p op ls) = drop (length ls - p) ls"
proof (cases op)
  case (Op_Write w)
  obtain l r where "ls = l # r" using assms by (cases ls) auto
  with Op_Write assms show ?thesis by (simp add: Suc_diff_le)
next
  case Op_Start
  with assms show ?thesis by (simp add: Suc_diff_le)
next
  case Op_Rollback
  obtain l r where "ls = l # r" using assms by (cases ls) auto
  with Op_Rollback assms show ?thesis by (auto simp: Suc_diff_le)
next
  case Op_Commit
  show ?thesis
  proof (cases "Suc p < length ls")
    case True
    then obtain l b r where "ls = l # b # r" by (cases ls rule: merge_top.cases) auto
    with Op_Commit True show ?thesis by (auto simp: Suc_diff_le)
  qed (use Op_Commit assms in simp)
qed

lemma spec_run_protects:
  assumes "p < length ls"
  shows "p < length (spec_run eff p ops ls) \<and>
    drop (length (spec_run eff p ops ls) - p) (spec_run eff p ops ls) = drop (length ls - p) ls"
  using assms
proof (induction ops arbitrary: ls)
  case (Cons op ops)
  with spec_step_protects [of p ls eff op] Cons.IH [of "spec_step eff p op ls"] show ?case by simp
qed simp

lemma spec_run_balanced:
  assumes "balanced n ops" "length pre = Suc n" "p \<le> length ls"
  shows "\<exists>l. spec_run eff p ops (pre @ ls) = l # ls"
  using assms
proof (induction ops arbitrary: n pre)
  case Nil
  then show ?case by (cases pre) auto
next
  case (Cons op ops)
  obtain l r where pre: "pre = l # r" using Cons.prems(2) by (cases pre) auto
  show ?case
  proof (cases op)
    case (Op_Write w)
    with Cons.prems pre show ?thesis
      using Cons.IH [of n "(l ++ eff w (visible (pre @ ls))) # r"] by simp
  next
    case Op_Start
    with Cons.prems show ?thesis using Cons.IH [of "Suc n" "Map.empty # pre"] by simp
  next
    case Op_Rollback
    with Cons.prems pre show ?thesis using Cons.IH [of "n - 1" r] by simp
  next
    case Op_Commit
    with Cons.prems pre obtain b s where "r = b # s" by (cases r) auto
    with Op_Commit Cons.prems pre show ?thesis using Cons.IH [of "n - 1" "(b ++ l) # s"] by simp
  qed
qed

subsection \<open>The interface of an implementation\<close>

text \<open>
  \<open>lay\<close> reads the layers off a state, \<open>prot\<close> is the number of transactions the current caller must
  not close, \<open>modify\<close> covers every operation that changes values and \<open>eff\<close> is its effect on the
  highest layer, given what is visible.
\<close>

locale txn_store =
  fixes inv :: "'s \<Rightarrow> bool"
    and lay :: "'s \<Rightarrow> ('k, 'a) layers"
    and prot :: "'s \<Rightarrow> nat"
    and in_runtime :: "'s \<Rightarrow> bool"
    and modify :: "'w \<Rightarrow> 's \<Rightarrow> 's run"
    and eff :: "'w \<Rightarrow> ('k \<rightharpoonup> 'a) \<Rightarrow> ('k \<rightharpoonup> 'a)"
    and start :: "'s \<Rightarrow> 's"
    and close :: "bool \<Rightarrow> 's \<Rightarrow> ((no_open_transaction + unit) \<times> 's) run"
    and enter :: "'s \<Rightarrow> ((already_in_runtime + unit) \<times> 's) run"
    and exit :: "'s \<Rightarrow> ((not_in_runtime + unit) \<times> 's) run"
  assumes prot_less: "inv s \<Longrightarrow> prot s < length (lay s)"
    and prot_client: "\<not> in_runtime s \<Longrightarrow> prot s = 0"
    and modify_ok: "inv s \<Longrightarrow> \<exists>s'. modify w s = Some s' \<and> inv s' \<and> prot s' = prot s \<and>
      in_runtime s' = in_runtime s \<and> lay s' = (hd (lay s) ++ eff w (visible (lay s))) # tl (lay s)"
    and start_ok: "inv s \<Longrightarrow> inv (start s) \<and> prot (start s) = prot s \<and>
      in_runtime (start s) = in_runtime s \<and> lay (start s) = Map.empty # lay s"
    and close_ok: "inv s \<Longrightarrow> Suc (prot s) < length (lay s) \<Longrightarrow>
      \<exists>s'. close rollback s = Some (Inr (), s') \<and> inv s' \<and> prot s' = prot s \<and>
        in_runtime s' = in_runtime s \<and>
        lay s' = (if rollback then tl (lay s) else merge_top (lay s))"
    and close_refused: "inv s \<Longrightarrow> \<not> Suc (prot s) < length (lay s) \<Longrightarrow>
      \<exists>s'. close rollback s = Some (Inl NoOpenTransaction, s') \<and> inv s' \<and> prot s' = prot s \<and>
        in_runtime s' = in_runtime s \<and> lay s' = lay s"
    and enter_ok: "inv s \<Longrightarrow> \<not> in_runtime s \<Longrightarrow> \<exists>s'. enter s = Some (Inr (), s') \<and> inv s' \<and>
      in_runtime s' \<and> prot s' = length (lay s) - 1 \<and> lay s' = lay s"
    and enter_refused: "in_runtime s \<Longrightarrow> enter s = Some (Inl AlreadyInRuntime, s)"
    and exit_ok: "inv s \<Longrightarrow> in_runtime s \<Longrightarrow> \<exists>s'. exit s = Some (Inr (), s') \<and> inv s' \<and>
      \<not> in_runtime s' \<and> lay s' = drop (length (lay s) - Suc (prot s)) (lay s)"
    and exit_refused: "\<not> in_runtime s \<Longrightarrow> exit s = Some (Inl NotInRuntime, s)"

text \<open>One operation, and a sequence; a refused close leaves the state as it is.\<close>

fun txn_step ::
  "('w \<Rightarrow> 's \<Rightarrow> 's run) \<Rightarrow> ('s \<Rightarrow> 's) \<Rightarrow> (bool \<Rightarrow> 's \<Rightarrow> ((no_open_transaction + unit) \<times> 's) run)
     \<Rightarrow> 'w txn_op \<Rightarrow> 's \<Rightarrow> 's run" where
  "txn_step modify start close (Op_Write w) s = modify w s"
| "txn_step modify start close Op_Start s = Some (start s)"
| "txn_step modify start close Op_Rollback s = map_option snd (close True s)"
| "txn_step modify start close Op_Commit s = map_option snd (close False s)"

definition txn_run ::
  "('w \<Rightarrow> 's \<Rightarrow> 's run) \<Rightarrow> ('s \<Rightarrow> 's) \<Rightarrow> (bool \<Rightarrow> 's \<Rightarrow> ((no_open_transaction + unit) \<times> 's) run)
     \<Rightarrow> 'w txn_op list \<Rightarrow> 's \<Rightarrow> 's run" where
  "txn_run modify start close = for_keys (txn_step modify start close)"

context txn_store
begin

lemma step_refines:
  assumes "inv s"
  shows "\<exists>s'. txn_step modify start close op s = Some s' \<and> inv s' \<and> prot s' = prot s \<and>
    in_runtime s' = in_runtime s \<and> lay s' = spec_step eff (prot s) op (lay s)"
proof (cases op)
  case Op_Rollback
  then show ?thesis
    using assms close_ok [of s True] close_refused [of s True] by (cases "Suc (prot s) < length (lay s)") auto
next
  case Op_Commit
  then show ?thesis
    using assms close_ok [of s False] close_refused [of s False] by (cases "Suc (prot s) < length (lay s)") auto
qed (use assms modify_ok start_ok in auto)

theorem run_refines:
  assumes "inv s"
  shows "\<exists>s'. txn_run modify start close ops s = Some s' \<and> inv s' \<and> prot s' = prot s \<and>
    in_runtime s' = in_runtime s \<and> lay s' = spec_run eff (prot s) ops (lay s)"
  using assms
proof (induction ops arbitrary: s)
  case (Cons op ops)
  obtain s1 where s1: "txn_step modify start close op s = Some s1" "inv s1" "prot s1 = prot s"
    "in_runtime s1 = in_runtime s" "lay s1 = spec_step eff (prot s) op (lay s)"
    using step_refines [OF Cons.prems, of op] by blast
  with Cons.IH [of s1] show ?case by (auto simp: txn_run_def)
qed (simp add: txn_run_def)

theorem balanced_rollback:
  assumes "inv s" "balanced 0 ops"
  shows "\<exists>s'. txn_run modify start close (Op_Start # ops @ [Op_Rollback]) s = Some s' \<and> inv s' \<and>
    lay s' = lay s"
proof -
  obtain l where l: "spec_run eff (prot s) ops ([Map.empty] @ lay s) = l # lay s"
    using spec_run_balanced [OF assms(2), of "[Map.empty]" "prot s" "lay s" eff]
      prot_less [OF assms(1)] by auto
  have "spec_run eff (prot s) (Op_Start # ops @ [Op_Rollback]) (lay s) = lay s"
    using l prot_less [OF assms(1)] by (simp add: spec_run_def)
  then show ?thesis using run_refines [OF assms(1), of "Op_Start # ops @ [Op_Rollback]"] by force
qed

theorem balanced_commit:
  assumes "inv s" "balanced 0 ops"
  shows "\<exists>s'. txn_run modify start close (Op_Start # ops @ [Op_Commit]) s = Some s' \<and> inv s' \<and>
    tl (lay s') = tl (lay s) \<and>
    visible (lay s') = visible (spec_run eff (prot s) ops (Map.empty # lay s))"
proof -
  obtain b r where s: "lay s = b # r" using prot_less [OF assms(1)] by (cases "lay s") auto
  obtain l where l: "spec_run eff (prot s) ops ([Map.empty] @ lay s) = l # lay s"
    using spec_run_balanced [OF assms(2), of "[Map.empty]" "prot s" "lay s" eff]
      prot_less [OF assms(1)] by auto
  have "spec_run eff (prot s) (Op_Start # ops @ [Op_Commit]) (lay s) = (b ++ l) # r"
    using l s prot_less [OF assms(1)] by (simp add: spec_run_def)
  moreover have "visible ((b ++ l) # r) = visible (l # lay s)" by (simp add: s)
  ultimately show ?thesis
    using run_refines [OF assms(1), of "Op_Start # ops @ [Op_Commit]"] s l by fastforce
qed

theorem runtime_session:
  assumes "inv s" "\<not> in_runtime s"
  shows "\<exists>s1 s2 s3. enter s = Some (Inr (), s1) \<and> txn_run modify start close ops s1 = Some s2 \<and>
    exit s2 = Some (Inr (), s3) \<and> inv s3 \<and> \<not> in_runtime s3 \<and>
    length (lay s3) = length (lay s) \<and> tl (lay s3) = tl (lay s) \<and>
    lay s3 = drop (length (lay s2) - length (lay s)) (spec_run eff (length (lay s) - 1) ops (lay s))"
proof -
  let ?p = "length (lay s) - 1"
  obtain b r where s: "lay s = b # r" using prot_less [OF assms(1)] by (cases "lay s") auto
  obtain s1 where s1: "enter s = Some (Inr (), s1)" "inv s1" "in_runtime s1" "prot s1 = ?p" "lay s1 = lay s"
    using enter_ok [OF assms] by blast
  obtain s2 where s2: "txn_run modify start close ops s1 = Some s2" "inv s2" "in_runtime s2"
    "prot s2 = ?p" "lay s2 = spec_run eff ?p ops (lay s)"
    using run_refines [OF s1(2), of ops] s1 by auto
  obtain s3 where s3: "exit s2 = Some (Inr (), s3)" "inv s3" "\<not> in_runtime s3"
    "lay s3 = drop (length (lay s2) - Suc ?p) (lay s2)"
    using exit_ok [OF s2(2,3)] s2(4) by auto
  have p: "?p < length (lay s2)" "drop (length (lay s2) - ?p) (lay s2) = r"
    using spec_run_protects [of ?p "lay s" eff ops] s2(5) s by auto
  have "tl (lay s3) = drop (Suc (length (lay s2) - Suc ?p)) (lay s2)"
    by (simp add: s3(4) drop_Suc tl_drop)
  also have "\<dots> = r" using p by (simp add: Suc_diff_Suc)
  finally have "tl (lay s3) = r" .
  moreover have "length (lay s3) = length (lay s)" using p(1) s s3(4) by simp
  moreover have "Suc ?p = length (lay s)" using s by simp
  ultimately show ?thesis using s s1(1) s2(1,5) s3
    by (intro exI [of _ s1] exI [of _ s2] exI [of _ s3]) (simp only: list.sel, simp)
qed

end

end
