(* ===== verification/Changeset_Layers.thy ===== *)
theory Changeset_Layers
  imports Txn_Layers
begin

text \<open>
  From the overlay's representation, a history per key plus the sets of dirty keys, to layers.  The
  locale \<open>versioned_entry\<close> collects what the two kinds of history (plain values of the offchain
  overlay, storage entries with appends) promise about one key; its lemmas lift this to the map.
\<close>

subsection \<open>Layers of a family of histories\<close>

fun layers :: "('k \<Rightarrow> 'a list) \<Rightarrow> 'k set list \<Rightarrow> ('k, 'a) layers" where
  "layers vs [] = [\<lambda>k. case vs k of [] \<Rightarrow> None | v # _ \<Rightarrow> Some v]"
| "layers vs (d # ds) = (\<lambda>k. if k \<in> d then Some (hd (vs k)) else None)
     # layers (\<lambda>k. if k \<in> d then tl (vs k) else vs k) ds"

fun stacked :: "('k \<Rightarrow> 'a list) \<Rightarrow> 'k set list \<Rightarrow> bool" where
  "stacked vs [] = (\<forall>k. length (vs k) \<le> 1)"
| "stacked vs (d # ds) = ((\<forall>k \<in> d. vs k \<noteq> []) \<and> stacked (\<lambda>k. if k \<in> d then tl (vs k) else vs k) ds)"

lemma length_layers [simp]: "length (layers vs ds) = Suc (length ds)"
  by (induction ds arbitrary: vs) simp_all

lemma layers_neq_Nil [simp]: "layers vs ds \<noteq> []"
  by (cases ds) simp_all

text \<open>The visible value of a key is the newest version of its history.\<close>

lemma visible_layers:
  "stacked vs ds \<Longrightarrow> visible (layers vs ds) k = (case vs k of [] \<Rightarrow> None | v # _ \<Rightarrow> Some v)"
proof (induction ds arbitrary: vs)
  case (Cons d ds)
  then show ?case
  proof (cases "k \<in> d")
    case True
    then obtain v r where "vs k = v # r" using Cons.prems by (cases "vs k") auto
    with True show ?thesis by (simp add: map_add_def)
  next
    case False
    with Cons show ?thesis by (simp add: map_add_def)
  qed
qed simp

definition write_views :: "'k \<Rightarrow> 'a \<Rightarrow> 'k list list \<Rightarrow> ('k \<Rightarrow> 'a list) \<Rightarrow> 'k \<Rightarrow> 'a list" where
  "write_views k x ds vs = vs(k := x # (if fst (insert_dirty k ds) then vs k else tl (vs k)))"

lemma layers_write:
  "layers (write_views k x ds vs) (map set (snd (insert_dirty k ds)))
     = (hd (layers vs (map set ds)))(k \<mapsto> x) # tl (layers vs (map set ds))"
proof (cases ds)
  case (Cons d r)
  have eq: "(\<lambda>j. if j \<in> D then tl ((vs(k := x # ys)) j) else (vs(k := x # ys)) j)
      = (\<lambda>j. if j \<in> set d then tl (vs j) else vs j)"
    if "k \<in> D" "\<And>j. j \<noteq> k \<Longrightarrow> j \<in> D \<longleftrightarrow> j \<in> set d" "ys = (if k \<in> set d then tl (vs k) else vs k)" for D ys
    using that by auto
  show ?thesis
  proof (cases "k \<in> set d")
    case True
    with Cons eq [of "set d" "tl (vs k)"] show ?thesis
      by (auto simp: write_views_def insert_dirty_def fun_eq_iff)
  next
    case False
    with Cons eq [of "insert k (set d)" "vs k"] show ?thesis
      by (auto simp: write_views_def insert_dirty_def fun_eq_iff)
  qed
qed (auto simp: write_views_def insert_dirty_def fun_eq_iff)

lemma stacked_write:
  assumes "stacked vs (map set ds)"
  shows "stacked (write_views k x ds vs) (map set (snd (insert_dirty k ds)))"
proof (cases ds)
  case [simp]: (Cons d r)
  show ?thesis
  proof (cases "k \<in> set d")
    case True
    then have "(\<lambda>j. if j \<in> set d then tl (write_views k x (d # r) vs j) else write_views k x (d # r) vs j)
        = (\<lambda>j. if j \<in> set d then tl (vs j) else vs j)"
      by (auto simp: write_views_def insert_dirty_def)
    moreover have "\<forall>j \<in> set d. write_views k x (d # r) vs j \<noteq> []"
      using assms by (auto simp: write_views_def)
    ultimately show ?thesis using True assms by (simp add: insert_dirty_def)
  next
    case False
    then have "(\<lambda>j. if j \<in> insert k (set d) then tl (write_views k x (d # r) vs j) else write_views k x (d # r) vs j)
        = (\<lambda>j. if j \<in> set d then tl (vs j) else vs j)"
      by (auto simp: write_views_def insert_dirty_def)
    moreover have "\<forall>j \<in> insert k (set d). write_views k x (d # r) vs j \<noteq> []"
      using assms by (auto simp: write_views_def)
    ultimately show ?thesis using False assms by (simp add: insert_dirty_def)
  qed
qed (use assms in \<open>auto simp: write_views_def insert_dirty_def\<close>)

definition drop_version :: "'k set \<Rightarrow> ('k \<Rightarrow> 'a list) \<Rightarrow> 'k \<Rightarrow> 'a list" where
  "drop_version d vs = (\<lambda>k. if k \<in> d then tl (vs k) else vs k)"

lemma layers_rollback: "layers (drop_version d vs) ds = tl (layers vs (d # ds))"
  by (simp add: drop_version_def)

lemma stacked_rollback: "stacked vs (d # ds) \<Longrightarrow> stacked (drop_version d vs) ds"
  by (simp add: drop_version_def)

text \<open>
  A commit merges the versions of the keys that the layer below has too, where the layer below is the
  enclosing transaction or, for the outermost one, the committed values.
\<close>

definition has_below :: "'k set list \<Rightarrow> ('k \<Rightarrow> 'a list) \<Rightarrow> 'k \<Rightarrow> bool" where
  "has_below ds vs k = (case ds of [] \<Rightarrow> 1 < length (vs k) | e # _ \<Rightarrow> k \<in> e)"

definition commit_views :: "'k set \<Rightarrow> 'k set list \<Rightarrow> ('k \<Rightarrow> 'a list) \<Rightarrow> 'k \<Rightarrow> 'a list" where
  "commit_views d ds vs = (\<lambda>k. if k \<in> d \<and> has_below ds vs k then hd (vs k) # tl (tl (vs k)) else vs k)"

definition commit_dirty :: "'k set \<Rightarrow> 'k set list \<Rightarrow> 'k set list" where
  "commit_dirty d ds = (case ds of [] \<Rightarrow> [] | e # r \<Rightarrow> (e \<union> d) # r)"

lemma commit_below_eq:
  "(\<lambda>k. if k \<in> e \<union> d then tl (commit_views d (e # r) vs k) else commit_views d (e # r) vs k)
     = (\<lambda>k. if k \<in> e then tl ((if k \<in> d then tl (vs k) else vs k)) else (if k \<in> d then tl (vs k) else vs k))"
  by (auto simp: commit_views_def has_below_def fun_eq_iff)

lemma stacked_base: "stacked vs [d] \<Longrightarrow> length (if k \<in> d then tl (vs k) else vs k) \<le> 1"
  by (simp only: stacked.simps)

lemma layers_commit:
  assumes "stacked vs (d # ds)"
  shows "layers (commit_views d ds vs) (commit_dirty d ds) = merge_top (layers vs (d # ds))"
proof (cases ds)
  case Nil
  have "tl (vs k) = (case tl (vs k) of [] \<Rightarrow> [] | v # _ \<Rightarrow> [v])" if "k \<in> d" for k
    using stacked_base [of vs d k] assms Nil that
    by (cases "tl (vs k)") (simp_all del: length_tl stacked.simps)
  with assms Nil show ?thesis
    by (auto simp: commit_views_def has_below_def commit_dirty_def map_add_def fun_eq_iff
        split: list.splits)
next
  case (Cons e r)
  have "(\<lambda>k. if k \<in> e \<union> d then Some (hd (commit_views d (e # r) vs k)) else None)
      = (\<lambda>k. if k \<in> e then Some (hd (if k \<in> d then tl (vs k) else vs k)) else None)
        ++ (\<lambda>k. if k \<in> d then Some (hd (vs k)) else None)"
    by (auto simp: commit_views_def has_below_def map_add_def fun_eq_iff)
  with Cons show ?thesis by (simp only: commit_dirty_def layers.simps list.case commit_below_eq merge_top.simps)
qed

lemma stacked_commit:
  assumes "stacked vs (d # ds)"
  shows "stacked (commit_views d ds vs) (commit_dirty d ds)"
proof (cases ds)
  case Nil
  have "length (commit_views d [] vs k) \<le> 1" for k
  proof (cases "k \<in> d")
    case True
    then have "length (tl (vs k)) \<le> 1" using stacked_base [of vs d k] assms Nil by simp
    with True show ?thesis by (cases "vs k"; cases "tl (vs k)") (auto simp: commit_views_def has_below_def)
  next
    case False
    then show ?thesis using stacked_base [of vs d k] assms Nil by (simp add: commit_views_def)
  qed
  with Nil show ?thesis by (simp add: commit_dirty_def)
next
  case (Cons e r)
  have "\<forall>k \<in> e \<union> d. commit_views d (e # r) vs k \<noteq> []"
    using assms Cons by (auto simp: commit_views_def has_below_def split: if_splits)
  with assms Cons show ?thesis by (simp only: commit_dirty_def stacked.simps list.case commit_below_eq)
qed

subsection \<open>Layers of an overlay\<close>

definition om_views :: "('v overlayed_entry \<Rightarrow> 'a list) \<Rightarrow> ('k, 'v) overlayed_map \<Rightarrow> 'k \<Rightarrow> 'a list" where
  "om_views vw m = (\<lambda>k. vw (or_default (bt_get (changes m) k)))"

definition om_layers :: "('v overlayed_entry \<Rightarrow> 'a list) \<Rightarrow> ('k, 'v) overlayed_map \<Rightarrow> ('k, 'a) layers" where
  "om_layers vw m = layers (om_views vw m) (map set (dirty_keys m))"

definition om_inv ::
  "('v overlayed_entry \<Rightarrow> bool) \<Rightarrow> ('v overlayed_entry \<Rightarrow> 'a list) \<Rightarrow> ('k::linorder, 'v) overlayed_map \<Rightarrow> bool"
  where
  "om_inv good vw m \<longleftrightarrow>
     bt_wf (changes m) \<and>
     (\<forall>d \<in> set (dirty_keys m). distinct d) \<and>
     (\<forall>k ts. bt_get (changes m) k = Some ts \<longrightarrow> ts \<noteq> [] \<and> good ts) \<and>
     stacked (om_views vw m) (map set (dirty_keys m)) \<and>
     (execution_mode m = Runtime \<longrightarrow> num_client_transactions m \<le> transaction_depth m)"

text \<open>The transactions that the current caller must not close.\<close>

definition om_protected :: "('k, 'v) overlayed_map \<Rightarrow> nat" where
  "om_protected m = (if execution_mode m = Runtime then num_client_transactions m else 0)"

definition om_in_runtime :: "('k, 'v) overlayed_map \<Rightarrow> bool" where
  "om_in_runtime m \<longleftrightarrow> execution_mode m = Runtime"

lemma length_om_layers [simp]: "length (om_layers vw m) = Suc (transaction_depth m)"
  by (simp add: om_layers_def transaction_depth_def)

lemma insert_dirty_length [simp]: "length (snd (insert_dirty k ds)) = length ds"
  by (simp add: insert_dirty_def split: list.split)

lemma insert_dirty_distinct:
  "\<forall>d \<in> set ds. distinct d \<Longrightarrow> \<forall>d \<in> set (snd (insert_dirty k ds)). distinct d"
  by (auto simp: insert_dirty_def split: list.split)

lemma store_or_remove_get:
  "bt_wf c \<Longrightarrow> bt_get (store_or_remove k rest c) = (bt_get c)(k := if rest = [] then None else Some rest)"
  by (simp add: store_or_remove_def)

lemma store_or_remove_wf: "bt_wf c \<Longrightarrow> bt_wf (store_or_remove k rest c)"
  by (auto simp: store_or_remove_def)

definition entries_ok :: "('v overlayed_entry \<Rightarrow> bool) \<Rightarrow> ('k::linorder, 'v) overlayed_map \<Rightarrow> bool" where
  "entries_ok good m \<longleftrightarrow> bt_wf (changes m) \<and>
     (\<forall>k ts. bt_get (changes m) k = Some ts \<longrightarrow> ts \<noteq> [] \<and> good ts)"

text \<open>Everything but the histories and the dirty keys.\<close>

definition same_mode :: "('k, 'v) overlayed_map \<Rightarrow> ('k, 'v) overlayed_map \<Rightarrow> bool" where
  "same_mode m m' \<longleftrightarrow> execution_mode m' = execution_mode m \<and>
     num_client_transactions m' = num_client_transactions m"

lemma or_default_simps [simp]: "or_default None = []" "or_default (Some ts) = ts"
  by (simp_all add: or_default_def)

locale versioned_entry =
  fixes good :: "'v overlayed_entry \<Rightarrow> bool"
    and vw :: "'v overlayed_entry \<Rightarrow> 'a list"
    and close_k :: "bool \<Rightarrow> 'k::linorder \<Rightarrow> ('k, 'v) overlayed_map \<Rightarrow> ('k, 'v) overlayed_map run"
  assumes vw_length: "length (vw ts) = length ts"
    and good_Nil: "good []"
    and rollback_key: "bt_get (changes m) k = Some ts \<Longrightarrow> good ts \<Longrightarrow> ts \<noteq> [] \<Longrightarrow>
      \<exists>rest. close_k True k m = Some (m\<lparr>changes := store_or_remove k rest (changes m)\<rparr>) \<and>
        good rest \<and> vw rest = tl (vw ts)"
    and commit_key: "bt_get (changes m) k = Some ts \<Longrightarrow> good ts \<Longrightarrow> ts \<noteq> [] \<Longrightarrow>
      has_predecessor k ts (dirty_keys m) = (pred, ds) \<Longrightarrow> (pred \<Longrightarrow> 2 \<le> length ts) \<Longrightarrow>
      \<exists>ts'. close_k False k m = Some (m\<lparr>changes := bt_insert k ts' (changes m), dirty_keys := ds\<rparr>) \<and>
        good ts' \<and> vw ts' = (if pred then hd (vw ts) # tl (tl (vw ts)) else vw ts)"
begin

lemma vw_Nil_iff [simp]: "vw ts = [] \<longleftrightarrow> ts = []"
  by (metis length_0_conv vw_length)

abbreviation "okm \<equiv> om_inv good vw"
abbreviation "lay \<equiv> om_layers vw"

lemma inv_good: "okm m \<Longrightarrow> good (or_default (bt_get (changes m) k))"
  by (cases "bt_get (changes m) k") (simp_all add: om_inv_def good_Nil)

lemma visible_lay:
  "okm m \<Longrightarrow> visible (lay m) k = (case vw (or_default (bt_get (changes m) k)) of [] \<Rightarrow> None | v # _ \<Rightarrow> Some v)"
  by (simp add: om_layers_def visible_layers om_inv_def om_views_def)

text \<open>Writing one key through \<open>om_write\<close>.\<close>

lemma om_write_layers:
  assumes "okm m"
    and "\<And>first. \<exists>ts'. f first (or_default (bt_get (changes m) k)) = Some ts' \<and> good ts' \<and>
      vw ts' = x # (if first then om_views vw m k else tl (om_views vw m k))"
  shows "\<exists>m'. om_write k f m = Some m' \<and> okm m' \<and> lay m' = (hd (lay m))(k \<mapsto> x) # tl (lay m) \<and>
    same_mode m m'"
proof -
  let ?ins = "insert_dirty k (dirty_keys m)"
  obtain ts' where ts': "f (fst ?ins) (or_default (bt_get (changes m) k)) = Some ts'" "good ts'"
    "vw ts' = x # (if fst ?ins then om_views vw m k else tl (om_views vw m k))"
    using assms(2) by blast
  let ?m' = "m\<lparr>changes := bt_insert k ts' (changes m), dirty_keys := snd ?ins\<rparr>"
  have wf: "bt_wf (changes m)" using assms(1) by (simp add: om_inv_def)
  have run: "om_write k f m = Some ?m'"
    using ts'(1) by (simp add: om_write_def case_prod_unfold Let_def)
  have vs: "om_views vw ?m' = write_views k x (dirty_keys m) (om_views vw m)"
    using wf ts'(3) by (auto simp: om_views_def write_views_def fun_eq_iff)
  have "ts' \<noteq> []" using ts'(3) by (metis list.distinct(1) vw_Nil_iff)
  then have "okm ?m'"
    using assms(1) ts'(2) wf vs stacked_write [of "om_views vw m" "dirty_keys m" k x]
      insert_dirty_distinct [of "dirty_keys m" k]
    by (auto simp: om_inv_def transaction_depth_def)
  moreover have "lay ?m' = (hd (lay m))(k \<mapsto> x) # tl (lay m)"
    using layers_write [of k x "dirty_keys m" "om_views vw m"] vs by (simp add: om_layers_def)
  ultimately show ?thesis using run by (intro exI [of _ ?m']) (simp add: same_mode_def)
qed

lemma rollback_keys:
  assumes "distinct ks" "entries_ok good m" "\<forall>k \<in> set ks. om_views vw m k \<noteq> []"
  shows "\<exists>m'. for_keys (close_k True) ks m = Some m' \<and> entries_ok good m' \<and>
    om_views vw m' = drop_version (set ks) (om_views vw m) \<and> dirty_keys m' = dirty_keys m \<and> same_mode m m'"
  using assms
proof (induction ks arbitrary: m)
  case (Cons k ks)
  have wf: "bt_wf (changes m)" using Cons.prems(2) by (simp add: entries_ok_def)
  obtain ts where ts: "bt_get (changes m) k = Some ts" "ts \<noteq> []" "good ts"
    using Cons.prems(2,3) by (cases "bt_get (changes m) k") (auto simp: om_views_def entries_ok_def)
  obtain rest where rest: "close_k True k m = Some (m\<lparr>changes := store_or_remove k rest (changes m)\<rparr>)"
    "good rest" "vw rest = tl (vw ts)"
    using rollback_key [OF ts(1,3,2)] by blast
  let ?m1 = "m\<lparr>changes := store_or_remove k rest (changes m)\<rparr>"
  have ok: "entries_ok good ?m1"
    using Cons.prems(2) rest(2) wf
    by (auto simp: entries_ok_def store_or_remove_get store_or_remove_wf split: if_splits)
  have "vw (or_default (if rest = [] then None else Some rest)) = tl (vw ts)" using rest(3) by auto
  then have vs: "om_views vw ?m1 = (om_views vw m)(k := tl (om_views vw m k))"
    using wf ts(1) by (auto simp: om_views_def store_or_remove_get fun_eq_iff)
  then have "\<forall>j \<in> set ks. om_views vw ?m1 j \<noteq> []" using Cons.prems(1,3) by auto
  from Cons.IH [OF _ ok this] Cons.prems(1) obtain m' where
    "for_keys (close_k True) ks ?m1 = Some m'" "entries_ok good m'"
    "om_views vw m' = drop_version (set ks) (om_views vw ?m1)" "dirty_keys m' = dirty_keys m" "same_mode m m'"
    by (auto simp: same_mode_def)
  moreover have "drop_version (set ks) (om_views vw ?m1) = drop_version (set (k # ks)) (om_views vw m)"
    using vs Cons.prems(1) by (auto simp: drop_version_def fun_eq_iff)
  ultimately show ?case using rest(1) by auto
qed (simp add: drop_version_def same_mode_def)

text \<open>While committing, the keys done so far have joined the dirty set below.\<close>

lemma commit_keys:
  assumes "distinct ks" "entries_ok good m"
    and "\<forall>k \<in> set ks. om_views vw m k \<noteq> [] \<and>
      (dirty_keys m \<noteq> [] \<and> k \<in> set (hd (dirty_keys m)) \<longrightarrow> 2 \<le> length (om_views vw m k))"
    and "\<forall>d \<in> set (dirty_keys m). distinct d"
  shows "\<exists>m'. for_keys (close_k False) ks m = Some m' \<and> entries_ok good m' \<and>
    om_views vw m' = commit_views (set ks) (map set (dirty_keys m)) (om_views vw m) \<and>
    map set (dirty_keys m') = commit_dirty (set ks) (map set (dirty_keys m)) \<and>
    (\<forall>d \<in> set (dirty_keys m'). distinct d) \<and> same_mode m m'"
  using assms
proof (induction ks arbitrary: m)
  case (Cons k ks)
  have wf: "bt_wf (changes m)" using Cons.prems(2) by (simp add: entries_ok_def)
  obtain ts where ts: "bt_get (changes m) k = Some ts" "ts \<noteq> []" "good ts"
    using Cons.prems(2,3) by (cases "bt_get (changes m) k") (auto simp: om_views_def entries_ok_def)
  obtain pr ds where hp: "has_predecessor k ts (dirty_keys m) = (pr, ds)" by fastforce
  have len: "length (om_views vw m k) = length ts" using ts(1) by (simp add: om_views_def vw_length)
  have pr: "pr \<longleftrightarrow> has_below (map set (dirty_keys m)) (om_views vw m) k"
    and ds: "map set ds = commit_dirty {k} (map set (dirty_keys m))"
    and dd: "\<forall>d \<in> set ds. distinct d"
    using hp len Cons.prems(4)
    by (cases "dirty_keys m"; auto simp: has_predecessor_def has_below_def insert_dirty_def
        commit_dirty_def insert_absorb split: if_splits)+
  have two: "pr \<Longrightarrow> 2 \<le> length ts"
    using pr len Cons.prems(3) by (cases "dirty_keys m") (auto simp: has_below_def)
  obtain ts' where ts': "close_k False k m = Some (m\<lparr>changes := bt_insert k ts' (changes m), dirty_keys := ds\<rparr>)"
    "good ts'" "vw ts' = (if pr then hd (vw ts) # tl (tl (vw ts)) else vw ts)"
    using commit_key [OF ts(1,3,2) hp two] by blast
  let ?m1 = "m\<lparr>changes := bt_insert k ts' (changes m), dirty_keys := ds\<rparr>"
  have "vw ts' \<noteq> []" using ts'(3) ts(2) by auto
  then have ok: "entries_ok good ?m1"
    using Cons.prems(2) ts'(2) wf by (auto simp: entries_ok_def)
  have vs: "om_views vw ?m1 = commit_views {k} (map set (dirty_keys m)) (om_views vw m)"
    using wf ts(1) ts'(3) pr by (auto simp: om_views_def commit_views_def fun_eq_iff)
  have keep: "om_views vw ?m1 j = om_views vw m j" if "j \<in> set ks" for j
    using vs Cons.prems(1) that by (auto simp: commit_views_def)
  have hd: "ds \<noteq> [] \<and> j \<in> set (hd ds) \<longleftrightarrow> dirty_keys m \<noteq> [] \<and> j \<in> set (hd (dirty_keys m))"
    if "j \<in> set ks" for j
    using ds Cons.prems(1) that
    by (cases "dirty_keys m"; cases ds) (auto simp: commit_dirty_def)
  have "\<forall>j \<in> set ks. om_views vw ?m1 j \<noteq> [] \<and>
      (dirty_keys ?m1 \<noteq> [] \<and> j \<in> set (hd (dirty_keys ?m1)) \<longrightarrow> 2 \<le> length (om_views vw ?m1 j))"
    using Cons.prems(3) keep hd by auto
  from Cons.IH [OF _ ok this] Cons.prems(1) dd obtain m' where m':
    "for_keys (close_k False) ks ?m1 = Some m'" "entries_ok good m'"
    "om_views vw m' = commit_views (set ks) (map set ds) (om_views vw ?m1)"
    "map set (dirty_keys m') = commit_dirty (set ks) (map set ds)"
    "\<forall>d \<in> set (dirty_keys m'). distinct d" "same_mode m m'"
    by (auto simp: same_mode_def)
  have "commit_dirty (set ks) (map set ds) = commit_dirty (set (k # ks)) (map set (dirty_keys m))"
    by (auto simp: ds commit_dirty_def split: list.split)
  moreover have "commit_views (set ks) (map set ds) (om_views vw ?m1)
      = commit_views (set (k # ks)) (map set (dirty_keys m)) (om_views vw m)"
    using Cons.prems(1) unfolding vs ds
    by (auto simp: commit_views_def has_below_def commit_dirty_def fun_eq_iff split: list.split)
  ultimately show ?case using ts'(1) m' by auto
qed (auto simp: commit_views_def commit_dirty_def same_mode_def split: list.split)

lemma close_layers:
  assumes "okm m" "Suc (om_protected m) < length (lay m)"
  shows "\<exists>m'. close_with (close_k rollback) m = Some (Inr (), m') \<and> okm m' \<and> same_mode m m' \<and>
    lay m' = (if rollback then tl (lay m) else merge_top (lay m)) \<and>
    transaction_depth m = Suc (transaction_depth m')"
proof -
  obtain d ds where dirty: "dirty_keys m = d # ds"
    using assms(2) by (cases "dirty_keys m") (simp_all add: transaction_depth_def)
  have guard: "\<not> (execution_mode m = Runtime \<and> \<not> has_open_runtime_transactions m)"
    using assms(2) by (auto simp: om_protected_def has_open_runtime_transactions_def)
  let ?m0 = "m\<lparr>dirty_keys := ds\<rparr>"
  have vs0: "om_views vw ?m0 = om_views vw m" by (simp add: om_views_def)
  have st: "stacked (om_views vw m) (set d # map set ds)"
    using assms(1) dirty by (simp add: om_inv_def)
  have ok: "entries_ok good ?m0" "distinct d" "\<forall>d \<in> set ds. distinct d"
    "\<forall>k \<in> set d. om_views vw ?m0 k \<noteq> []"
    using assms(1) dirty vs0 by (auto simp: om_inv_def entries_ok_def)
  have "\<exists>m'. for_keys (close_k rollback) d ?m0 = Some m' \<and> okm m' \<and> same_mode ?m0 m' \<and>
    lay m' = (if rollback then tl (lay m) else merge_top (lay m)) \<and>
    transaction_depth m = Suc (transaction_depth m')"
  proof (cases rollback)
    case True
    from rollback_keys [OF ok(2,1,4)] obtain m' where m': "for_keys (close_k True) d ?m0 = Some m'"
      "entries_ok good m'" "om_views vw m' = drop_version (set d) (om_views vw m)" "dirty_keys m' = ds"
      "same_mode ?m0 m'" by (auto simp: vs0)
    have "okm m'" using m' ok(3) stacked_rollback [OF st] guard dirty
      by (auto simp: om_inv_def entries_ok_def same_mode_def has_open_runtime_transactions_def transaction_depth_def)
    moreover have "lay m' = tl (lay m)"
      using m'(3,4) dirty layers_rollback [of "set d" "om_views vw m" "map set ds"] by (simp add: om_layers_def)
    ultimately show ?thesis using m' True dirty by (auto simp: transaction_depth_def)
  next
    case False
    have "\<forall>k \<in> set d. om_views vw ?m0 k \<noteq> [] \<and> (dirty_keys ?m0 \<noteq> [] \<and> k \<in> set (hd (dirty_keys ?m0))
        \<longrightarrow> 2 \<le> length (om_views vw ?m0 k))"
    proof (intro ballI conjI impI)
      fix k assume k: "k \<in> set d" "dirty_keys ?m0 \<noteq> [] \<and> k \<in> set (hd (dirty_keys ?m0))"
      then have "tl (om_views vw m k) \<noteq> []" using st by (cases ds) auto
      then show "2 \<le> length (om_views vw ?m0 k)"
        unfolding vs0 by (cases "om_views vw m k") (auto simp: Suc_le_eq)
    qed (use ok(4) in blast)
    from commit_keys [OF ok(2,1) this] ok(3) obtain m' where m': "for_keys (close_k False) d ?m0 = Some m'"
      "entries_ok good m'" "om_views vw m' = commit_views (set d) (map set ds) (om_views vw m)"
      "map set (dirty_keys m') = commit_dirty (set d) (map set ds)"
      "\<forall>d \<in> set (dirty_keys m'). distinct d" "same_mode ?m0 m'" by (auto simp: vs0)
    have len: "length (dirty_keys m') = length ds"
      using arg_cong [OF m'(4), of length] by (cases ds) (simp_all add: commit_dirty_def)
    have "okm m'" using m' len stacked_commit [OF st] guard dirty
      by (auto simp: om_inv_def entries_ok_def same_mode_def has_open_runtime_transactions_def transaction_depth_def)
    moreover have "lay m' = merge_top (lay m)"
      using m'(3,4) dirty layers_commit [OF st] by (simp add: om_layers_def)
    ultimately show ?thesis using m' False dirty len by (auto simp: transaction_depth_def)
  qed
  then show ?thesis using guard dirty by (auto simp: close_with_def same_mode_def)
qed

lemma close_none:
  assumes "okm m" "\<not> Suc (om_protected m) < length (lay m)"
  shows "close_with c m = Some (Inl NoOpenTransaction, m)"
  using assms
  by (auto simp: close_with_def om_protected_def has_open_runtime_transactions_def transaction_depth_def
      split: list.split if_splits)

lemma start_layers:
  "okm m \<Longrightarrow> okm (om_start_transaction m) \<and> lay (om_start_transaction m) = Map.empty # lay m \<and>
    same_mode m (om_start_transaction m)"
  by (auto simp: om_start_transaction_def om_inv_def om_layers_def om_views_def same_mode_def transaction_depth_def)

lemma enter_layers:
  "okm m \<Longrightarrow> \<not> om_in_runtime m \<Longrightarrow> \<exists>m'. om_enter_runtime m = (Inr (), m') \<and> okm m' \<and>
    om_in_runtime m' \<and> om_protected m' = length (lay m) - 1 \<and> lay m' = lay m"
  by (cases "execution_mode m") (simp_all add: om_enter_runtime_def om_in_runtime_def om_inv_def
      om_layers_def om_views_def om_protected_def transaction_depth_def)

lemma rollback_dangling_layers:
  assumes "okm m" "execution_mode m = Client" "num_client_transactions m \<le> transaction_depth m"
    "transaction_depth m \<le> fuel"
  shows "\<exists>m'. rollback_dangling fuel (close_with (close_k True)) m = Some m' \<and> okm m' \<and>
    execution_mode m' = Client \<and>
    lay m' = drop (transaction_depth m - num_client_transactions m) (lay m)"
  using assms
proof (induction fuel arbitrary: m)
  case 0
  then show ?case by (simp add: rollback_dangling.simps has_open_runtime_transactions_def)
next
  case (Suc fuel)
  show ?case
  proof (cases "has_open_runtime_transactions m")
    case True
    then have "Suc (om_protected m) < length (lay m)"
      using Suc.prems(2) by (simp add: om_protected_def has_open_runtime_transactions_def)
    from close_layers [OF Suc.prems(1) this, of True] obtain m1 where m1:
      "close_with (close_k True) m = Some (Inr (), m1)" "okm m1" "same_mode m m1" "lay m1 = tl (lay m)"
      "transaction_depth m = Suc (transaction_depth m1)" by auto
    with Suc.IH [of m1] Suc.prems True obtain m' where
      "rollback_dangling fuel (close_with (close_k True)) m1 = Some m'" "okm m'" "execution_mode m' = Client"
      "lay m' = drop (transaction_depth m1 - num_client_transactions m1) (lay m1)"
      by (auto simp: same_mode_def has_open_runtime_transactions_def)
    moreover have "Suc (transaction_depth m1 - num_client_transactions m)
        = transaction_depth m - num_client_transactions m"
      using m1(5) True by (simp add: has_open_runtime_transactions_def)
    ultimately show ?thesis
      using m1 True by (auto simp: rollback_dangling.simps [of "Suc fuel"] same_mode_def drop_Suc [symmetric])
  next
    case False
    with Suc.prems show ?thesis
      by (simp add: rollback_dangling.simps has_open_runtime_transactions_def)
  qed
qed

lemma exit_layers:
  assumes "okm m" "om_in_runtime m"
  shows "\<exists>m'. exit_with (close_with (close_k True)) m = Some (Inr (), m') \<and> okm m' \<and> \<not> om_in_runtime m' \<and>
    lay m' = drop (length (lay m) - Suc (om_protected m)) (lay m)"
proof -
  let ?m0 = "m\<lparr>execution_mode := Client\<rparr>"
  have ok: "okm ?m0" "lay ?m0 = lay m" "transaction_depth ?m0 = transaction_depth m"
    using assms(1) by (simp_all add: om_inv_def om_layers_def om_views_def transaction_depth_def)
  have "num_client_transactions ?m0 \<le> transaction_depth ?m0"
    using assms ok(3) by (simp add: om_inv_def om_in_runtime_def)
  from rollback_dangling_layers [OF ok(1) _ this] obtain m' where
    "rollback_dangling (transaction_depth m) (close_with (close_k True)) ?m0 = Some m'" "okm m'"
    "execution_mode m' = Client" "lay m' = drop (transaction_depth m - num_client_transactions m) (lay m)"
    using ok by auto
  then show ?thesis
    using assms by (auto simp: exit_with_def om_in_runtime_def om_protected_def)
qed

lemma mode_facts:
  "okm m \<Longrightarrow> om_protected m < length (lay m)"
  "\<not> om_in_runtime m \<Longrightarrow> om_protected m = 0"
  "same_mode m m' \<Longrightarrow> om_protected m' = om_protected m \<and> om_in_runtime m' = om_in_runtime m"
  "om_in_runtime m \<Longrightarrow> om_enter_runtime m = (Inl AlreadyInRuntime, m)"
  "\<not> om_in_runtime m \<Longrightarrow> exit_with c m = Some (Inl NotInRuntime, m)"
  by (auto simp: om_inv_def om_protected_def om_in_runtime_def same_mode_def om_enter_runtime_def
      exit_with_def split: execution_mode.splits)

lemma vw_Nil [simp]: "vw [] = []"
  by simp

lemma okm_default: "okm om_default" "lay om_default = [Map.empty]"
  by (simp_all add: om_inv_def om_default_def om_views_def om_layers_def)

lemma okm_spawn_child:
  fixes m :: "('k, 'w) overlayed_map"
  assumes "execution_mode m = Runtime \<longrightarrow> num_client_transactions m \<le> transaction_depth m"
  shows "okm (spawn_child m) \<and> lay (spawn_child m) = replicate (Suc (transaction_depth m)) Map.empty \<and>
    om_protected (spawn_child m) = om_protected m"
proof -
  have "stacked (\<lambda>_ :: 'k. [] :: 'a list) (replicate n {})" for n by (induction n) simp_all
  moreover have "layers (\<lambda>_ :: 'k. [] :: 'a list) (replicate n {}) = replicate (Suc n) Map.empty" for n
    by (induction n) simp_all
  moreover have "om_views vw (spawn_child m) = (\<lambda>_. [])" by (simp add: om_views_def spawn_child_def)
  ultimately show ?thesis using assms
    by (auto simp: om_inv_def om_layers_def spawn_child_def transaction_depth_def om_protected_def)
qed

text \<open>With any writes that change the highest layer, the overlay is a transactional store.\<close>

lemma txn_store_axioms:
  fixes modify :: "'w \<Rightarrow> ('k, 'v) overlayed_map \<Rightarrow> ('k, 'v) overlayed_map run"
  assumes "\<And>w m. okm m \<Longrightarrow> \<exists>m'. modify w m = Some m' \<and> okm m' \<and> same_mode m m' \<and>
    lay m' = (hd (lay m) ++ eff w (visible (lay m))) # tl (lay m)"
  shows "txn_store okm lay om_protected om_in_runtime modify eff om_start_transaction
    (\<lambda>rollback. close_with (close_k rollback)) (\<lambda>m. Some (om_enter_runtime m)) (exit_with (close_with (close_k True)))"
proof
  fix m :: "('k, 'v) overlayed_map" and w
  assume "okm m"
  from assms [OF this, of w] show "\<exists>m'. modify w m = Some m' \<and> okm m' \<and> om_protected m' = om_protected m \<and>
      om_in_runtime m' = om_in_runtime m \<and> lay m' = (hd (lay m) ++ eff w (visible (lay m))) # tl (lay m)"
    using mode_facts(3) by metis
next
  fix m :: "('k, 'v) overlayed_map" and rollback
  assume "okm m" "Suc (om_protected m) < length (lay m)"
  from close_layers [OF this, of rollback] show "\<exists>m'. close_with (close_k rollback) m = Some (Inr (), m') \<and>
      okm m' \<and> om_protected m' = om_protected m \<and> om_in_runtime m' = om_in_runtime m \<and>
      lay m' = (if rollback then tl (lay m) else merge_top (lay m))"
    using mode_facts(3) by metis
next
  fix m :: "('k, 'v) overlayed_map"
  assume "okm m" "om_in_runtime m"
  then show "\<exists>m'. exit_with (close_with (close_k True)) m = Some (Inr (), m') \<and> okm m' \<and>
      \<not> om_in_runtime m' \<and> lay m' = drop (length (lay m) - Suc (om_protected m)) (lay m)"
    by (rule exit_layers)
qed (simp_all add: mode_facts start_layers close_none enter_layers del: length_om_layers One_nat_def)

end

end
