(* ===== verification/Changeset_Correct.thy ===== *)
theory Changeset_Correct
  imports Changeset_Views Changeset_Layers
begin

text \<open>
  The overlay implements nested transactions: both kinds of history satisfy \<open>versioned_entry\<close>, and
  with their writes the two overlays satisfy \<open>txn_store\<close>.  The properties of the changeset follow
  from the interface.
\<close>

subsection \<open>Histories\<close>

lemma close_key_offchain_commit:
  fixes m :: "('k::linorder, 'v) overlayed_map"
  assumes "bt_get (changes m) k = Some ts" "ts \<noteq> []" "has_predecessor k ts (dirty_keys m) = (pred, ds)"
    "pred \<Longrightarrow> 2 \<le> length ts"
  shows "\<exists>ts'. close_key_offchain False k m
      = Some (m\<lparr>changes := bt_insert k ts' (changes m), dirty_keys := ds\<rparr>) \<and>
    map iv_value ts' = (if pred then hd (map iv_value ts) # tl (tl (map iv_value ts)) else map iv_value ts)"
proof (cases pred)
  case True
  then obtain t p r where "ts = t # p # r" using assms(4) two_elements by blast
  with True assms show ?thesis
    by (intro exI [of _ "p\<lparr>iv_value := iv_value t,
          iv_extrinsics := extrinsics_extend (iv_extrinsics p) (iv_extrinsics t)\<rparr> # r"])
      (simp add: close_key_offchain_def pop_transaction_def value_mut_def transaction_extrinsics_mut_def)
qed (use assms in \<open>intro exI [of _ ts]; simp add: close_key_offchain_def\<close>)

interpretation offchain_entry: versioned_entry "\<lambda>_. True" "map iv_value" close_key_offchain
proof
  fix m :: "('k::linorder, 'v) overlayed_map" and k ts
  assume "bt_get (changes m) k = Some ts" "ts \<noteq> []"
  then show "\<exists>rest. close_key_offchain True k m = Some (m\<lparr>changes := store_or_remove k rest (changes m)\<rparr>) \<and>
      True \<and> map iv_value rest = tl (map iv_value ts)"
    by (cases ts) (auto simp: close_key_offchain_def pop_transaction_def)
next
  fix m :: "('k::linorder, 'v) overlayed_map" and k ts pred ds
  assume "bt_get (changes m) k = Some ts" "ts \<noteq> []" "has_predecessor k ts (dirty_keys m) = (pred, ds)"
    "pred \<Longrightarrow> 2 \<le> length ts"
  from close_key_offchain_commit [OF this] show "\<exists>ts'. close_key_offchain False k m
      = Some (m\<lparr>changes := bt_insert k ts' (changes m), dirty_keys := ds\<rparr>) \<and> True \<and>
    map iv_value ts' = (if pred then hd (map iv_value ts) # tl (tl (map iv_value ts)) else map iv_value ts)"
    by simp
qed simp_all

context compact_laws
begin

lemma close_key_rollback:
  fixes m :: "'k::linorder changeset"
  assumes "bt_get (changes m) k = Some ts" "good_entry cd ts" "ts \<noteq> []"
  shows "\<exists>rest. close_key cd True k m = Some (m\<lparr>changes := store_or_remove k rest (changes m)\<rparr>) \<and>
    good_entry cd rest \<and> entry_views cd rest = tl (entry_views cd ts)"
proof -
  obtain t r where ts: "ts = t # r" using assms(3) by (cases ts) auto
  then have "entry_fits cd (iv_value t) (map iv_value r)" using assms(2) by simp
  from rollback_restores [OF this] obtain rest where
    r: "(case iv_value t of Entry_Append data _ mat (Some n) \<Rightarrow> restore_below cd data mat n r | _ \<Rightarrow> Some r)
      = Some rest" "map iv_value rest = give_back cd (iv_value t) (map iv_value r)" by metis
  have "close_key cd True k m = Some (m\<lparr>changes := store_or_remove k rest (changes m)\<rparr>)"
    using assms(1) ts r(1) by (simp add: close_key_def pop_transaction_def)
  with assms(2) ts r(2) show ?thesis by auto
qed

lemma close_key_commit:
  fixes m :: "'k::linorder changeset"
  assumes "bt_get (changes m) k = Some ts" "good_entry cd ts" "ts \<noteq> []"
    "has_predecessor k ts (dirty_keys m) = (pred, ds)" "pred \<Longrightarrow> 2 \<le> length ts"
  shows "\<exists>ts'. close_key cd False k m
      = Some (m\<lparr>changes := bt_insert k ts' (changes m), dirty_keys := ds\<rparr>) \<and> good_entry cd ts' \<and>
    entry_views cd ts' = (if pred then hd (entry_views cd ts) # tl (tl (entry_views cd ts)) else entry_views cd ts)"
proof (cases pred)
  case True
  then obtain t p r where ts: "ts = t # p # r" using assms(5) two_elements by blast
  then obtain ts' where "merge_committed cd t (p # r) = Some ts'" "good_entry cd ts'"
    "entry_views cd ts' = hd (entry_views cd ts) # tl (tl (entry_views cd ts))"
    using merge_committed_views assms(2) by metis
  then show ?thesis
    using True ts assms(1,4) by (intro exI [of _ ts']) (simp add: close_key_def pop_transaction_def)
qed (use assms in \<open>intro exI [of _ ts]; simp add: close_key_def\<close>)

end

sublocale compact_laws \<subseteq> entry: versioned_entry "good_entry cd" "entry_views cd"
  "close_key cd :: bool \<Rightarrow> 'k::linorder \<Rightarrow> 'k changeset \<Rightarrow> 'k changeset run"
  by unfold_locales (simp_all only: length_views length_map list.map good_stack.simps,
      (rule close_key_rollback close_key_commit; assumption)+)

subsection \<open>Writes\<close>

text \<open>
  The operations that touch values: \<open>set\<close>, \<open>append_storage\<close> with the initial value the backend would
  give, \<open>clear_where\<close> with a predicate on keys, and reading, which materializes.
\<close>

datatype 'k overlay_write =
    W_Set 'k "bytes option" "u32 option"
  | W_Append 'k bytes bytes "u32 option"
  | W_Clear "'k \<Rightarrow> bool" "u32 option"
  | W_Read 'k

fun overlay_apply :: "compact_codec \<Rightarrow> 'k::linorder overlay_write \<Rightarrow> 'k changeset \<Rightarrow> 'k changeset run" where
  "overlay_apply cd (W_Set k v at) m = om_set cd k v at m"
| "overlay_apply cd (W_Append k x i at) m = append_storage cd k x (\<lambda>_. Some i) at m"
| "overlay_apply cd (W_Clear P at) m = map_option snd (clear_where cd (\<lambda>k _. P k) at m)"
| "overlay_apply cd (W_Read k) m = map_option snd (om_value cd k m)"

fun overlay_effect ::
  "compact_codec \<Rightarrow> 'k overlay_write \<Rightarrow> ('k \<rightharpoonup> bytes option) \<Rightarrow> ('k \<rightharpoonup> bytes option)" where
  "overlay_effect cd (W_Set k v at) vis = [k \<mapsto> v]"
| "overlay_effect cd (W_Append k x i at) vis =
     [k \<mapsto> Some (scale_append cd (case vis k of None \<Rightarrow> Some i | Some v \<Rightarrow> v) x)]"
| "overlay_effect cd (W_Clear P at) vis = (\<lambda>k. if P k \<and> vis k \<noteq> None then Some None else None)"
| "overlay_effect cd (W_Read k) vis = Map.empty"

abbreviation overlay_inv :: "compact_codec \<Rightarrow> 'k::linorder changeset \<Rightarrow> bool" where
  "overlay_inv cd \<equiv> om_inv (good_entry cd) (entry_views cd)"

abbreviation overlay_layers :: "compact_codec \<Rightarrow> 'k changeset \<Rightarrow> ('k, bytes option) layers" where
  "overlay_layers cd \<equiv> om_layers (entry_views cd)"

text \<open>\<open>clear_where\<close> writes a removal to every matching key, one after the other.\<close>

definition is_live :: "storage_entry overlayed_entry \<Rightarrow> bool" where
  "is_live ts \<longleftrightarrow> ts \<noteq> [] \<and> iv_value (hd ts) \<noteq> Entry_Remove"

lemma clear_entries_sets:
  assumes "bt_wf (p @ c)" "\<forall>(k, ts) \<in> set c. ts \<noteq> [] \<and> good_entry cd ts"
    "changes m = p @ c" "dirty_keys m = ds"
  shows "\<exists>c' ds'. clear_entries cd (\<lambda>k _. P k) at c ds
      = Some (of_nat (length (filter (\<lambda>(k, ts). P k \<and> is_live ts) c)), c', ds') \<and>
    for_keys (\<lambda>k. om_set cd k None at) (filter P (map fst c)) m = Some (m\<lparr>changes := p @ c', dirty_keys := ds'\<rparr>)"
  using assms
proof (induction c arbitrary: p m ds)
  case Nil
  then show ?case by simp
next
  case (Cons e c)
  obtain k ts where e: "e = (k, ts)" by (cases e)
  show ?case
  proof (cases "P k")
    case False
    with Cons.IH [of "p @ [e]" m ds] Cons.prems e show ?thesis by auto
  next
    case True
    obtain first ds1 where ins: "insert_dirty k ds = (first, ds1)" by fastforce
    have ok: "ts \<noteq> []" "good_entry cd ts" using Cons.prems(2) e by auto
    then obtain ts' where set: "entry_set cd None first at ts = Some ts'"
      using entry_set_views by blast
    let ?m1 = "m\<lparr>changes := p @ (k, ts') # c, dirty_keys := ds1\<rparr>"
    have get: "bt_get (changes m) k = Some ts"
      using Cons.prems(1,3) e bt_get_Some_iff [of "changes m" k ts] by simp
    have "bt_insert k ts' (changes m) = p @ (k, ts') # c"
      using Cons.prems(1,3) e bt_insert_present by metis
    then have step: "om_set cd k None at m = Some ?m1"
      using get ins set Cons.prems(4) by (simp add: om_set_def om_write_def or_default_def)
    have wf: "bt_wf ((p @ [(k, ts')]) @ c)"
      using Cons.prems(1) e by (simp add: bt_wf_def)
    obtain c' ds' where rec: "clear_entries cd (\<lambda>k _. P k) at c ds1
        = Some (of_nat (length (filter (\<lambda>(k, ts). P k \<and> is_live ts) c)), c', ds')"
      "for_keys (\<lambda>k. om_set cd k None at) (filter P (map fst c)) ?m1
        = Some (?m1\<lparr>changes := (p @ [(k, ts')]) @ c', dirty_keys := ds'\<rparr>)"
      using Cons.IH [OF wf, of ?m1 ds1] Cons.prems(2) by auto
    have "value_ref ts = Some (iv_value (hd ts))"
      using ok(1) by (cases ts) (simp_all add: value_ref_def)
    then have "clear_entries cd (\<lambda>k _. P k) at (e # c) ds
        = Some (of_nat (length (filter (\<lambda>(k, ts). P k \<and> is_live ts) (e # c))), (k, ts') # c', ds')"
      using True e ins set rec(1) ok(1) by (simp add: is_live_def add.commute)
    moreover have "for_keys (\<lambda>k. om_set cd k None at) (filter P (map fst (e # c))) m
        = Some (m\<lparr>changes := p @ (k, ts') # c', dirty_keys := ds'\<rparr>)"
      using True e step rec(2) by simp
    ultimately show ?thesis by blast
  qed
qed

context compact_laws
begin

lemma om_set_layers:
  fixes m :: "'k::linorder changeset"
  assumes "overlay_inv cd m"
  shows "\<exists>m'. om_set cd k v at m = Some m' \<and> overlay_inv cd m' \<and> same_mode m m' \<and>
    overlay_layers cd m' = (hd (overlay_layers cd m))(k \<mapsto> v) # tl (overlay_layers cd m)"
proof -
  have "\<exists>ts'. entry_set cd v first at (or_default (bt_get (changes m) k)) = Some ts' \<and> good_entry cd ts' \<and>
      entry_views cd ts' = v # (if first then om_views (entry_views cd) m k else tl (om_views (entry_views cd) m k))"
    for first using entry_set_views [OF entry.inv_good [OF assms, of k], of v first at] by (simp only: om_views_def)
  from entry.om_write_layers [of m "\<lambda>first ts. entry_set cd v first at ts" k v, OF assms this] show ?thesis
    by (auto simp: om_set_def)
qed

lemma append_storage_layers:
  fixes m :: "'k::linorder changeset"
  assumes "overlay_inv cd m" "visible (overlay_layers cd m) k = None \<Longrightarrow> init () = Some i"
  shows "\<exists>m'. append_storage cd k x init at m = Some m' \<and> overlay_inv cd m' \<and> same_mode m m' \<and>
    overlay_layers cd m' = (hd (overlay_layers cd m))(k \<mapsto> Some (scale_append cd
      (case visible (overlay_layers cd m) k of None \<Rightarrow> Some i | Some v \<Rightarrow> v) x)) # tl (overlay_layers cd m)"
proof -
  let ?ts = "or_default (bt_get (changes m) k)"
  have vis: "visible (overlay_layers cd m) k = (case entry_views cd ?ts of [] \<Rightarrow> None | v # _ \<Rightarrow> Some v)"
    by (rule entry.visible_lay [OF assms(1)])
  then have init: "?ts = [] \<Longrightarrow> init () = Some i" using assms(2) by simp
  have av: "appended_value (entry_views cd ?ts) i
      = (case visible (overlay_layers cd m) k of None \<Rightarrow> Some i | Some v \<Rightarrow> v)"
    unfolding vis by (simp add: appended_value_def split: list.split)
  have "\<exists>ts'. entry_append cd x first init at ?ts = Some ts' \<and> good_entry cd ts' \<and>
      entry_views cd ts' = Some (scale_append cd
        (case visible (overlay_layers cd m) k of None \<Rightarrow> Some i | Some v \<Rightarrow> v) x)
      # (if first then om_views (entry_views cd) m k else tl (om_views (entry_views cd) m k))"
    for first using entry_append_views [of ?ts init i x first at, OF entry.inv_good [OF assms(1)] init]
    by (simp only: om_views_def av)
  from entry.om_write_layers [of m "\<lambda>first ts. entry_append cd x first init at ts" k, OF assms(1) this]
  show ?thesis by (auto simp: append_storage_def)
qed

lemma om_value_layers:
  fixes m :: "'k::linorder changeset"
  assumes "overlay_inv cd m"
  shows "\<exists>m'. om_value cd k m = Some (visible (overlay_layers cd m) k, m') \<and> overlay_inv cd m' \<and>
    same_mode m m' \<and> dirty_keys m' = dirty_keys m \<and>
    om_views (entry_views cd) m' = om_views (entry_views cd) m \<and>
    overlay_layers cd m' = overlay_layers cd m \<and> map fst (changes m') = map fst (changes m)"
proof (cases "bt_get (changes m) k")
  case None
  then show ?thesis using assms entry.visible_lay [OF assms, of k]
    by (simp add: om_value_def om_get_def same_mode_def)
next
  case (Some ts)
  have wf: "bt_wf (changes m)" and ok: "good_entry cd ts" "ts \<noteq> []"
    using assms Some by (auto simp: om_inv_def)
  from entry_value_views [OF ok] obtain ts' where ts': "entry_value cd ts = Some (hd (entry_views cd ts), ts')"
    "good_entry cd ts'" "entry_views cd ts' = entry_views cd ts" by metis
  let ?m' = "m\<lparr>changes := bt_insert k ts' (changes m)\<rparr>"
  have vs: "om_views (entry_views cd) ?m' = om_views (entry_views cd) m"
    using wf Some ts'(3) by (auto simp: om_views_def fun_eq_iff)
  have "ts' \<noteq> []" using ts'(3) ok(2) by (metis list.map_disc_iff views_Nil_iff)
  then have inv: "overlay_inv cd ?m'"
    using assms ts'(2) wf vs by (auto simp: om_inv_def transaction_depth_def)
  have lay: "overlay_layers cd ?m' = overlay_layers cd m" by (simp add: om_layers_def vs)
  obtain p r where "changes m = p @ (k, ts) # r"
    using Some bt_get_Some_iff [OF wf] by (metis split_list)
  then have keys: "map fst (changes ?m') = map fst (changes m)"
    using wf bt_insert_present [of p k ts r ts'] by simp
  have "entry_views cd ts \<noteq> []" using ok(2) by simp
  then have "visible (overlay_layers cd m) k = Some (hd (entry_views cd ts))"
    using entry.visible_lay [OF assms, of k] Some by (simp split: list.split)
  then show ?thesis
    using Some ts'(1) inv lay vs keys
    by (intro exI [of _ ?m']) (simp add: om_value_def om_get_def same_mode_def)
qed

lemma for_keys_set_layers:
  fixes m :: "'k::linorder changeset"
  assumes "overlay_inv cd m"
  shows "\<exists>m'. for_keys (\<lambda>k. om_set cd k v at) ks m = Some m' \<and> overlay_inv cd m' \<and> same_mode m m' \<and>
    overlay_layers cd m' = (hd (overlay_layers cd m) ++ (\<lambda>k. if k \<in> set ks then Some v else None))
      # tl (overlay_layers cd m)"
  using assms
proof (induction ks arbitrary: m)
  case Nil
  then show ?case
    by (auto simp: same_mode_def om_layers_def map_add_def)
next
  case (Cons k ks)
  obtain m1 where m1: "om_set cd k v at m = Some m1" "overlay_inv cd m1" "same_mode m m1"
    "overlay_layers cd m1 = (hd (overlay_layers cd m))(k \<mapsto> v) # tl (overlay_layers cd m)"
    using om_set_layers [OF Cons.prems] by metis
  obtain m' where m': "for_keys (\<lambda>k. om_set cd k v at) ks m1 = Some m'" "overlay_inv cd m'" "same_mode m1 m'"
    "overlay_layers cd m' = (hd (overlay_layers cd m1) ++ (\<lambda>k. if k \<in> set ks then Some v else None))
      # tl (overlay_layers cd m1)"
    using Cons.IH [OF m1(2)] by metis
  have "((hd (overlay_layers cd m))(k \<mapsto> v)) ++ (\<lambda>j. if j \<in> set ks then Some v else None)
      = hd (overlay_layers cd m) ++ (\<lambda>j. if j \<in> set (k # ks) then Some v else None)"
    by (auto simp: map_add_def fun_eq_iff)
  with m1 m' show ?case by (auto simp: same_mode_def)
qed

lemma live_count:
  fixes m :: "'k::linorder changeset"
  assumes "overlay_inv cd m"
  shows "length (filter (\<lambda>(k, ts). P k \<and> is_live ts) (changes m))
    = card {k. P k \<and> (\<exists>v. visible (overlay_layers cd m) k = Some (Some v))}"
proof -
  let ?live = "filter (\<lambda>(k, ts). P k \<and> is_live ts) (changes m)"
  have wf: "bt_wf (changes m)" using assms by (simp add: om_inv_def)
  have live: "is_live ts \<longleftrightarrow> (\<exists>v. visible (overlay_layers cd m) k = Some (Some v))" if "(k, ts) \<in> set (changes m)" for k ts
  proof -
    have get: "bt_get (changes m) k = Some ts" using bt_get_Some_iff [OF wf] that by simp
    then obtain t r where ts: "ts = t # r" using assms by (cases ts) (auto simp: om_inv_def)
    show ?thesis using entry.visible_lay [OF assms, of k] get ts by (cases "iv_value t") (simp_all add: is_live_def)
  qed
  have "\<exists>ts. (k, ts) \<in> set (changes m)" if "visible (overlay_layers cd m) k = Some v" for k v
    using entry.visible_lay [OF assms, of k] that bt_get_Some_iff [OF wf] by (cases "bt_get (changes m) k") auto
  then have "{k. P k \<and> (\<exists>v. visible (overlay_layers cd m) k = Some (Some v))} = set (map fst ?live)"
    using live by force
  moreover have "distinct (map fst ?live)"
    using wf by (auto simp: bt_wf_def strict_sorted_iff intro: distinct_map_filter)
  ultimately show ?thesis using distinct_card by fastforce
qed

lemma clear_where_layers:
  fixes m :: "'k::linorder changeset"
  assumes "overlay_inv cd m"
  shows "\<exists>m'. clear_where cd (\<lambda>k _. P k) at m
      = Some (of_nat (length (filter (\<lambda>(k, ts). P k \<and> is_live ts) (changes m))), m') \<and>
    for_keys (\<lambda>k. om_set cd k None at) (filter P (map fst (changes m))) m = Some m' \<and>
    overlay_inv cd m' \<and> same_mode m m' \<and>
    overlay_layers cd m' = (hd (overlay_layers cd m)
      ++ (\<lambda>k. if P k \<and> visible (overlay_layers cd m) k \<noteq> None then Some None else None)) # tl (overlay_layers cd m)"
proof -
  let ?ks = "filter P (map fst (changes m))"
  have wf: "bt_wf (changes m)" using assms by (simp add: om_inv_def)
  then have ok: "\<forall>(k, ts) \<in> set (changes m). ts \<noteq> [] \<and> good_entry cd ts"
    using assms bt_get_Some_iff [OF wf] by (auto simp: om_inv_def)
  obtain m' where m': "for_keys (\<lambda>k. om_set cd k None at) ?ks m = Some m'" "overlay_inv cd m'" "same_mode m m'"
    "overlay_layers cd m' = (hd (overlay_layers cd m) ++ (\<lambda>k. if k \<in> set ?ks then Some None else None))
      # tl (overlay_layers cd m)"
    using for_keys_set_layers [OF assms, of None at ?ks] by metis
  have "visible (overlay_layers cd m) k \<noteq> None \<longleftrightarrow> k \<in> fst ` set (changes m)" for k
  proof (cases "bt_get (changes m) k")
    case None
    then show ?thesis using entry.visible_lay [OF assms, of k] bt_get_None_iff [of "changes m" k] by simp
  next
    case (Some ts)
    then have "ts \<noteq> []" "k \<in> fst ` set (changes m)"
      using ok bt_get_Some_iff [OF wf] by (auto intro: rev_image_eqI)
    then show ?thesis using entry.visible_lay [OF assms, of k] Some by (cases "entry_views cd ts") auto
  qed
  then have eq: "(\<lambda>k. if k \<in> set ?ks then Some None else None)
      = (\<lambda>k. if P k \<and> visible (overlay_layers cd m) k \<noteq> None then Some None else None)"
    by (auto simp: fun_eq_iff)
  obtain c' ds' where c': "clear_entries cd (\<lambda>k _. P k) at (changes m) (dirty_keys m)
      = Some (of_nat (length (filter (\<lambda>(k, ts). P k \<and> is_live ts) (changes m))), c', ds')"
    "m' = m\<lparr>changes := c', dirty_keys := ds'\<rparr>"
    using clear_entries_sets [of "[]" "changes m" cd m "dirty_keys m" P at] wf ok m'(1) by auto
  then have "clear_where cd (\<lambda>k _. P k) at m
      = Some (of_nat (length (filter (\<lambda>(k, ts). P k \<and> is_live ts) (changes m))), m')"
    by (simp add: clear_where_def)
  with m' [unfolded eq] show ?thesis by (intro exI [of _ m'] conjI)
qed

end

subsection \<open>The two overlays are transactional stores\<close>

lemma set_offchain_layers:
  fixes m :: "('k::linorder, 'v) overlayed_map"
  assumes "om_inv (\<lambda>_. True) (map iv_value) m"
  shows "\<exists>m'. set_offchain k v at m = Some m' \<and> om_inv (\<lambda>_. True) (map iv_value) m' \<and>
    om_layers (map iv_value) m' = (hd (om_layers (map iv_value) m))(k \<mapsto> v) # tl (om_layers (map iv_value) m) \<and>
    same_mode m m'"
proof -
  have "\<exists>ts'. entry_set_offchain v first at ts = Some ts' \<and> True \<and>
      map iv_value ts' = v # (if first then map iv_value ts else tl (map iv_value ts))"
    for first and ts :: "'v overlayed_entry"
  proof -
    have "\<exists>ts1. entry_set_offchain v first at ts = Option.bind (Some ts1) (note_extrinsic at) \<and> ts1 \<noteq> [] \<and>
        map iv_value ts1 = v # (if first then map iv_value ts else tl (map iv_value ts))"
      by (cases ts; cases first) (auto simp: entry_set_offchain_def value_mut_def)
    then show ?thesis using note_extrinsic_values by fastforce
  qed
  then show ?thesis
    unfolding set_offchain_def
    by (intro offchain_entry.om_write_layers [OF assms]) (simp only: om_views_def)
qed

fun offchain_apply ::
  "'k::linorder \<times> 'v \<times> u32 option \<Rightarrow> ('k, 'v) overlayed_map \<Rightarrow> ('k, 'v) overlayed_map run" where
  "offchain_apply (k, v, at) m = set_offchain k v at m"

fun offchain_effect :: "'k \<times> 'v \<times> u32 option \<Rightarrow> ('k \<rightharpoonup> 'v) \<Rightarrow> ('k \<rightharpoonup> 'v)" where
  "offchain_effect (k, v, at) vis = [k \<mapsto> v]"

abbreviation "offchain_inv \<equiv> om_inv (\<lambda>_. True) (map iv_value)"
abbreviation "offchain_layers \<equiv> om_layers (map iv_value)"

lemma close_eta:
  "close_transaction_offchain = (\<lambda>rollback. close_with (close_key_offchain rollback))"
  "close_transaction cd = (\<lambda>rollback. close_with (close_key cd rollback))"
  by (simp_all add: fun_eq_iff close_transaction_offchain_def close_transaction_def)

lemma exit_eta:
  "om_exit_runtime_offchain = exit_with (close_with (close_key_offchain True))"
  "om_exit_runtime cd = exit_with (close_with (close_key cd True))"
  by (simp_all add: fun_eq_iff om_exit_runtime_offchain_def om_exit_runtime_def close_eta)

interpretation offchain_store: txn_store offchain_inv offchain_layers om_protected om_in_runtime
  offchain_apply offchain_effect om_start_transaction close_transaction_offchain "\<lambda>m. Some (om_enter_runtime m)"
  om_exit_runtime_offchain
proof -
  have "\<exists>m'. offchain_apply w m = Some m' \<and> offchain_inv m' \<and> same_mode m m' \<and> offchain_layers m'
      = (hd (offchain_layers m) ++ offchain_effect w (visible (offchain_layers m))) # tl (offchain_layers m)"
    if "offchain_inv m" for w :: "'k::linorder \<times> 'v \<times> u32 option" and m
    using set_offchain_layers [OF that] by (cases w) fastforce
  from offchain_entry.txn_store_axioms [of offchain_apply offchain_effect, OF this]
  show "txn_store offchain_inv offchain_layers om_protected om_in_runtime
      (offchain_apply :: 'k::linorder \<times> 'v \<times> u32 option \<Rightarrow> _) offchain_effect om_start_transaction
      close_transaction_offchain (\<lambda>m. Some (om_enter_runtime m)) om_exit_runtime_offchain"
    by (simp only: close_eta exit_eta)
qed

context compact_laws
begin

lemma overlay_apply_layers:
  fixes m :: "'k::linorder changeset"
  assumes "overlay_inv cd m"
  shows "\<exists>m'. overlay_apply cd w m = Some m' \<and> overlay_inv cd m' \<and> same_mode m m' \<and> overlay_layers cd m'
    = (hd (overlay_layers cd m) ++ overlay_effect cd w (visible (overlay_layers cd m))) # tl (overlay_layers cd m)"
proof (cases w)
  case (W_Set k v at)
  with om_set_layers [OF assms, of k v at] show ?thesis by auto
next
  case (W_Append k x i at)
  with append_storage_layers [OF assms, of k "\<lambda>_. Some i" i x at] show ?thesis by auto
next
  case (W_Clear P at)
  with clear_where_layers [OF assms, of P at] show ?thesis by auto
next
  case (W_Read k)
  have "overlay_layers cd m = hd (overlay_layers cd m) # tl (overlay_layers cd m)"
    by (simp add: om_layers_def)
  with W_Read om_value_layers [OF assms, of k] show ?thesis by auto
qed

end

sublocale compact_laws \<subseteq> store: txn_store "overlay_inv cd :: 'k::linorder changeset \<Rightarrow> bool" "overlay_layers cd"
  om_protected om_in_runtime "overlay_apply cd" "overlay_effect cd" om_start_transaction
  "close_transaction cd" "\<lambda>m. Some (om_enter_runtime m)" "om_exit_runtime cd"
proof -
  show "txn_store (overlay_inv cd :: 'k changeset \<Rightarrow> bool) (overlay_layers cd)
    om_protected om_in_runtime (overlay_apply cd) (overlay_effect cd) om_start_transaction
    (close_transaction cd) (\<lambda>m. Some (om_enter_runtime m)) (om_exit_runtime cd)"
    using entry.txn_store_axioms [of "overlay_apply cd" "overlay_effect cd", OF overlay_apply_layers]
    by (simp only: close_eta exit_eta)
qed

context compact_laws
begin

lemmas overlay_run_refines = store.run_refines
lemmas overlay_balanced_rollback = store.balanced_rollback
lemmas overlay_runtime_session = store.runtime_session
lemmas overlay_close_refused = entry.close_none [of _ "close_key cd _", folded close_transaction_def]
lemmas overlay_close_ok = store.close_ok
lemmas overlay_default = entry.okm_default

lemma to_option_view:
  assumes "entry_fits cd e es"
  shows "to_option cd e = Some (entry_view cd e)"
proof (cases e)
  case (Entry_Append d c m ps)
  then have "prefix_ok cd d m" using assms by (cases ps) (simp_all add: entry_fits_nested)
  then show ?thesis using Entry_Append prefix_ok_size view_materialized
    by (auto simp: to_option_def materialize_in_place_def entry_bytes_def replace_length_def)
qed (simp_all add: to_option_def materialize_in_place_def entry_bytes_def)

lemma drain_visible:
  fixes m :: "'k::linorder changeset"
  assumes "overlay_inv cd m" "transaction_depth m = 0"
  shows "\<exists>xs. drain_committed m = Some xs \<and> map fst xs = map fst (changes m) \<and>
    (\<forall>k e. (k, e) \<in> set xs \<longrightarrow> map_option Some (to_option cd e) = Some (visible (overlay_layers cd m) k))"
proof -
  have wf: "bt_wf (changes m)" using assms(1) by (simp add: om_inv_def)
  have ne: "ts \<noteq> [] \<and> good_entry cd ts" if "(k, ts) \<in> set (changes m)" for k ts
    using assms(1) bt_get_Some_iff [OF wf] that by (auto simp: om_inv_def)
  let ?f = "\<lambda>(k, ts). (k, iv_value (hd ts))"
  have some: "(case e of (k, ts) \<Rightarrow> Option.bind (pop_transaction ts) (\<lambda>(t, _). Some (k, iv_value t))) = Some (?f e)"
    if "e \<in> set (changes m)" for e
    using ne that by (cases e; cases "snd e") (auto simp: pop_transaction_def)
  have those: "those (map g xs) = Some (map f xs)" if "\<And>x. x \<in> set xs \<Longrightarrow> g x = Some (f x)" for g f and xs :: "'z list"
    using that by (induction xs) auto
  have "drain_committed m = Some (map ?f (changes m))"
    using assms(2) those [of "changes m", OF some] by (simp add: drain_committed_def)
  moreover have "map_option Some (to_option cd e) = Some (visible (overlay_layers cd m) k)"
    if ke: "(k, e) \<in> set (map ?f (changes m))" for k e
  proof -
    obtain ts where ts: "(k, ts) \<in> set (changes m)" "e = iv_value (hd ts)" using ke by auto
    then obtain t r where tr: "ts = t # r" using ne by (cases ts) auto
    then have "to_option cd e = Some (entry_view cd e)"
      using to_option_view [of "iv_value t" "map iv_value r"] ne [OF ts(1)] ts(2) by simp
    moreover have "bt_get (changes m) k = Some ts" using bt_get_Some_iff [OF wf] ts(1) by simp
    ultimately show ?thesis using entry.visible_lay [OF assms(1), of k] tr ts(2) by simp
  qed
  ultimately show ?thesis by (intro exI [of _ "map ?f (changes m)"]) (auto simp: case_prod_unfold)
qed

lemma read_after_append:
  fixes m :: "'k::linorder changeset"
  assumes "overlay_inv cd m" "visible (overlay_layers cd m) k = Some (Some (compact_encode cd n @ payload))"
  shows "\<exists>m1 m2. append_storage cd k x init at m = Some m1 \<and>
    om_value cd k m1 = Some (Some (Some (compact_encode cd (n + 1) @ payload @ x)), m2) \<and>
    (\<forall>j. j \<noteq> k \<longrightarrow> visible (overlay_layers cd m1) j = visible (overlay_layers cd m) j)"
proof -
  obtain l ls where lay: "overlay_layers cd m = l # ls" by (cases "overlay_layers cd m") (auto simp: om_layers_def)
  obtain m1 where m1: "append_storage cd k x init at m = Some m1" "overlay_inv cd m1"
    "overlay_layers cd m1 = l(k \<mapsto> Some (compact_encode cd (n + 1) @ payload @ x)) # ls"
    using append_storage_layers [OF assms(1), of k init "[]" x at] assms(2) lay
    by (auto simp: scale_append_encoded)
  then have "visible (overlay_layers cd m1) k = Some (Some (compact_encode cd (n + 1) @ payload @ x))"
    by simp
  moreover have "visible (overlay_layers cd m1) j = visible (overlay_layers cd m) j" if "j \<noteq> k" for j
    using m1(3) lay that by (simp add: map_add_def)
  ultimately show ?thesis using m1(1) om_value_layers [OF m1(2), of k] by metis
qed

end

end
