(* ===== verification/Changeset_Props.thy ===== *)
theory Changeset_Props
  imports Changeset_Correct
begin

text \<open>
  The properties of the transactional overlay.  The codec is any one that obeys \<open>compact_laws\<close>; the
  witnesses use the SCALE format.
\<close>

abbreviation "overlay_run cd \<equiv> txn_run (overlay_apply cd) om_start_transaction (close_transaction cd)"
abbreviation "offchain_run \<equiv> txn_run offchain_apply om_start_transaction close_transaction_offchain"

lemmas scale_laws = scale.compact_laws_axioms
lemma om_protected_default [simp]: "om_protected om_default = 0"
  by (simp add: om_protected_def om_default_def)

lemma om_value_result:
  assumes "compact_laws cd" "overlay_inv cd m"
  shows "map_option fst (om_value cd k m) = Some (visible (overlay_layers cd m) k)"
  using compact_laws.om_value_layers [OF assms, of k] by force

lemmas overlay_default_ok = compact_laws.overlay_default [OF scale_laws]

text \<open>An overlay built from a storage map shows that map.\<close>

lemma om_from_storage_views:
  "om_views (entry_views cd) (om_from_storage storage) k = (case bt_get storage k of None \<Rightarrow> [] | Some v \<Rightarrow> [Some v])"
  by (simp add: om_views_def om_from_storage_def split: option.split)

lemma om_from_storage_ok:
  assumes "bt_wf storage"
  shows "overlay_inv cd (om_from_storage storage)"
    and "overlay_layers cd (om_from_storage storage) = [\<lambda>k. map_option Some (bt_get storage k)]"
proof -
  have "length (om_views (entry_views cd) (om_from_storage storage) k) \<le> 1" for k
    by (simp add: om_from_storage_views split: option.split)
  then show "overlay_inv cd (om_from_storage storage)"
    using assms by (auto simp: om_inv_def om_from_storage_def)
  show "overlay_layers cd (om_from_storage storage) = [\<lambda>k. map_option Some (bt_get storage k)]"
  proof -
    have "dirty_keys (om_from_storage storage) = []" by (simp add: om_from_storage_def)
    then show ?thesis
      by (auto simp: om_layers_def om_from_storage_views fun_eq_iff split: option.split)
  qed
qed

definition sample_overlay :: "nat changeset" where
  "sample_overlay = om_from_storage [(3, [4, 7]), (5, [8, 1, 2])]"

lemma sample_overlay_ok:
  "overlay_inv cd sample_overlay"
  "overlay_layers cd sample_overlay = [[3 \<mapsto> Some [4, 7], 5 \<mapsto> Some [8, 1, 2]]]"
  "transaction_depth sample_overlay = 0"
  unfolding sample_overlay_def
  by (rule om_from_storage_ok, simp add: bt_wf_def,
      subst om_from_storage_ok(2), simp add: bt_wf_def, fastforce,
      simp add: om_from_storage_def transaction_depth_def)

subsection \<open>Storage overlay\<close>

text \<open>
  C1: The overlay refines a stack of maps.  Any sequence of sets, appends, removals by predicate,
  reads, transaction starts, rollbacks and commits runs without reaching a panic, keeps the
  invariant, and leaves exactly the layers that the same sequence leaves on the stack of maps,
  where an append extends the visible encoded list, a rollback drops the highest map, a commit merges
  the two highest, and a close that would touch a protected transaction changes nothing.
\<close>

theorem overlay_refines_layers:
  fixes m :: "'k::linorder changeset"
  assumes "compact_laws cd" "overlay_inv cd m"
  shows "\<exists>m'. overlay_run cd ops m = Some m' \<and> overlay_inv cd m' \<and>
    overlay_layers cd m' = spec_run (overlay_effect cd) (om_protected m) ops (overlay_layers cd m)"
  using compact_laws.overlay_run_refines [OF assms, of ops] by blast

theorem overlay_refines_layers_witness:
  "\<exists>m'. overlay_run scale_compact
      [Op_Write (W_Set 5 (Some [4, 7]) None), Op_Start, Op_Write (W_Append 5 [8] [] None), Op_Commit]
      (om_default :: nat changeset) = Some m' \<and>
    visible (overlay_layers scale_compact m') 5 = Some (Some [8, 7, 8])"
proof -
  let ?ops = "[Op_Write (W_Set 5 (Some [4, 7]) None), Op_Start, Op_Write (W_Append 5 [8] [] None), Op_Commit]"
  have sa: "scale_append scale_compact (Some [4, 7]) [8] = [8, 7, 8]" by code_simp
  have "visible (spec_run (overlay_effect scale_compact) 0 ?ops [Map.empty]) (5 :: nat) = Some (Some [8, 7, 8])"
    by (simp add: sa)
  with overlay_refines_layers [OF scale_laws overlay_default_ok(1), of ?ops] overlay_default_ok(2)
  show ?thesis by (metis om_protected_default)
qed

text \<open>
  C4: Rolling back restores.  Whatever is done inside a transaction, nested transactions that are
  themselves closed included, rolling it back leaves the layers of before, and every key reads as
  it did, also where an append had moved the bytes of the enclosing layer.
\<close>

theorem overlay_rollback_restores:
  fixes m :: "'k::linorder changeset"
  assumes "compact_laws cd" "overlay_inv cd m" "balanced 0 ops"
  shows "\<exists>m'. overlay_run cd (Op_Start # ops @ [Op_Rollback]) m = Some m' \<and>
    overlay_layers cd m' = overlay_layers cd m \<and>
    (\<forall>k. map_option fst (om_value cd k m') = map_option fst (om_value cd k m))"
proof -
  obtain m' where "overlay_run cd (Op_Start # ops @ [Op_Rollback]) m = Some m'" "overlay_inv cd m'"
    "overlay_layers cd m' = overlay_layers cd m"
    using compact_laws.overlay_balanced_rollback [OF assms] by blast
  then show ?thesis using om_value_result [OF assms(1)] assms(2) by metis
qed

theorem overlay_rollback_restores_witness:
  "balanced 0 [Op_Write (W_Append (1 :: nat) [8] [] None)] \<and>
   (\<exists>m'. overlay_run scale_compact (Op_Start # [Op_Write (W_Append 1 [8] [] None)] @ [Op_Rollback])
      (om_default :: nat changeset) = Some m' \<and> overlay_layers scale_compact m' = [Map.empty])"
  using overlay_rollback_restores [OF scale_laws overlay_default_ok(1),
      of "[Op_Write (W_Append (1 :: nat) [8] [] None)]"] overlay_default_ok(2) by auto

text \<open>
  C8: The runtime cannot undo or merge the client's transactions.  From \<open>enter_runtime\<close> to
  \<open>exit_runtime\<close>, whatever the runtime does, balanced or not, the layers below the one that was on
  top are untouched, the same number of transactions is open afterwards, and what the runtime left
  open is rolled back.  The comments on \<open>exit_runtime\<close> in changeset.rs and on \<open>storage_start_transaction\<close> in
  the externalities say such transactions are committed; the code, its warning and the comment on
  \<open>exit_runtime\<close> of \<open>OverlayedChanges\<close> roll them back, and so does the model.
\<close>

theorem overlay_runtime_isolated:
  fixes m :: "'k::linorder changeset"
  assumes "compact_laws cd" "overlay_inv cd m" "execution_mode m = Client"
  shows "\<exists>m1 m2 m3. om_enter_runtime m = (Inr (), m1) \<and> overlay_run cd ops m1 = Some m2 \<and>
    om_exit_runtime cd m2 = Some (Inr (), m3) \<and> overlay_inv cd m3 \<and>
    transaction_depth m3 = transaction_depth m \<and>
    tl (overlay_layers cd m3) = tl (overlay_layers cd m) \<and>
    overlay_layers cd m3 = drop (transaction_depth m2 - transaction_depth m)
      (spec_run (overlay_effect cd) (transaction_depth m) ops (overlay_layers cd m))"
proof -
  have "\<not> om_in_runtime m" using assms(3) by (simp add: om_in_runtime_def)
  from compact_laws.overlay_runtime_session [OF assms(1,2) this, of ops] show ?thesis
    unfolding length_om_layers diff_Suc_1 diff_Suc_Suc nat.inject option.inject by blast
qed

theorem overlay_runtime_isolated_witness:
  "\<exists>m1 m2 m3. om_enter_runtime (om_default :: nat changeset) = (Inr (), m1) \<and>
    overlay_run scale_compact [Op_Rollback, Op_Start, Op_Write (W_Set 1 None None)] m1 = Some m2 \<and>
    om_exit_runtime scale_compact m2 = Some (Inr (), m3) \<and> transaction_depth m3 = 0"
  using overlay_runtime_isolated [OF scale_laws overlay_default_ok(1),
      of "[Op_Rollback, Op_Start, Op_Write (W_Set (1 :: nat) None None)]"]
  by (auto simp: om_default_def transaction_depth_def)

text \<open>
  C35: Closing without an open transaction of one's own is refused: in client mode when none is open,
  in the runtime when all open ones were started by the client.  The overlay is unchanged.
\<close>

theorem overlay_close_refused_iff:
  fixes m :: "'k::linorder changeset"
  assumes "compact_laws cd" "overlay_inv cd m"
  shows "close_transaction cd rollback m = Some (Inl NoOpenTransaction, m) \<longleftrightarrow>
    transaction_depth m = (if execution_mode m = Runtime then num_client_transactions m else 0)"
proof (cases "Suc (om_protected m) < length (overlay_layers cd m)")
  case True
  then show ?thesis
    using compact_laws.overlay_close_ok [OF assms True, of rollback] by (auto simp: om_protected_def)
next
  case False
  then have "close_transaction cd rollback m = Some (Inl NoOpenTransaction, m)"
    using compact_laws.overlay_close_refused [OF assms] by blast
  moreover have "transaction_depth m = (if execution_mode m = Runtime then num_client_transactions m else 0)"
    using False assms(2) by (auto simp: om_protected_def om_inv_def)
  ultimately show ?thesis by simp
qed

theorem overlay_close_refused_iff_witness:
  "close_transaction scale_compact True (om_default :: nat changeset) = Some (Inl NoOpenTransaction, om_default)"
  using overlay_close_refused_iff [OF scale_laws overlay_default_ok(1), of True]
  by (simp add: om_default_def transaction_depth_def)

text \<open>
  C23: Appending to a key that reads as a SCALE list of \<open>n\<close> elements makes it read as the list of \<open>n + 1\<close>
  elements with the new one last (the length wraps at \<open>2 ^ 32\<close>), and no other key changes, at any
  nesting of transactions.
\<close>

theorem append_reads_back:
  fixes m :: "'k::linorder changeset"
  assumes "compact_laws cd" "overlay_inv cd m"
    "visible (overlay_layers cd m) k = Some (Some (compact_encode cd n @ payload))"
  shows "\<exists>m1 m2. append_storage cd k x init at m = Some m1 \<and>
    om_value cd k m1 = Some (Some (Some (compact_encode cd (n + 1) @ payload @ x)), m2) \<and>
    (\<forall>j. j \<noteq> k \<longrightarrow> visible (overlay_layers cd m1) j = visible (overlay_layers cd m) j)"
  using compact_laws.read_after_append [OF assms] by blast

theorem append_reads_back_witness:
  "\<exists>m1 m2. append_storage scale_compact 3 [9] (\<lambda>_. None) None sample_overlay = Some m1 \<and>
    om_value scale_compact 3 m1 = Some (Some (Some [8, 7, 9]), m2)"
proof -
  have e: "compact_encode scale_compact 1 = [4]" "compact_encode scale_compact (1 + 1) = [8]"
    by (code_simp, code_simp)
  have "visible (overlay_layers scale_compact sample_overlay) 3 = Some (Some (compact_encode scale_compact 1 @ [7]))"
    unfolding e by (simp add: sample_overlay_ok)
  from append_reads_back [OF scale_laws sample_overlay_ok(1) this, of "[9]" "\<lambda>_. None" None]
  show ?thesis unfolding e by auto
qed

text \<open>
  Removing by a predicate on keys equals removing the matching keys one after the other, makes them
  read as deleted, leaves the others, and counts the ones that held a value, modulo \<open>2 ^ 32\<close>.
\<close>

theorem clear_where_removes:
  fixes m :: "'k::linorder changeset"
  assumes "compact_laws cd" "overlay_inv cd m"
  shows "\<exists>m'. clear_where cd (\<lambda>k _. P k) at m
      = Some (of_nat (length (filter (\<lambda>(k, ts). P k \<and> is_live ts) (changes m))), m') \<and>
    for_keys (\<lambda>k. om_set cd k None at) (filter P (map fst (changes m))) m = Some m' \<and>
    (\<forall>k. visible (overlay_layers cd m') k =
      (if P k \<and> visible (overlay_layers cd m) k \<noteq> None then Some None else visible (overlay_layers cd m) k))"
proof -
  obtain l ls where lay: "overlay_layers cd m = l # ls" by (cases "overlay_layers cd m") (auto simp: om_layers_def)
  from compact_laws.clear_where_layers [OF assms, of P at] obtain m' where m':
    "clear_where cd (\<lambda>k _. P k) at m
      = Some (of_nat (length (filter (\<lambda>(k, ts). P k \<and> is_live ts) (changes m))), m')"
    "for_keys (\<lambda>k. om_set cd k None at) (filter P (map fst (changes m))) m = Some m'"
    "overlay_layers cd m' = (l ++ (\<lambda>k. if P k \<and> visible (l # ls) k \<noteq> None then Some None else None)) # ls"
    unfolding lay by auto
  have "visible (overlay_layers cd m') k = (if P k \<and> visible (overlay_layers cd m) k \<noteq> None then Some None
      else visible (overlay_layers cd m) k)" for k
    unfolding m'(3) lay by (simp add: map_add_def)
  with m'(1,2) show ?thesis by (intro exI [of _ m']) simp
qed

theorem clear_where_removes_witness:
  "\<exists>m'. clear_where scale_compact (\<lambda>k _. k = 3) None sample_overlay = Some (1, m') \<and>
    visible (overlay_layers scale_compact m') 3 = Some None \<and>
    visible (overlay_layers scale_compact m') 5 = Some (Some [8, 1, 2])"
proof -
  have n: "length (filter (\<lambda>(k, ts). k = 3 \<and> is_live ts) (changes sample_overlay)) = 1"
    by (simp add: sample_overlay_def om_from_storage_def is_live_def)
  obtain m' where m': "clear_where scale_compact (\<lambda>k _. k = 3) None sample_overlay = Some (1, m')"
    "\<forall>k. visible (overlay_layers scale_compact m') k =
      (if k = 3 \<and> visible (overlay_layers scale_compact sample_overlay) k \<noteq> None then Some None
       else visible (overlay_layers scale_compact sample_overlay) k)"
    using clear_where_removes [OF scale_laws sample_overlay_ok(1), of "\<lambda>k. k = 3" None] n by auto
  have "visible (overlay_layers scale_compact m') 3 = Some None"
    "visible (overlay_layers scale_compact m') 5 = Some (Some [8, 1, 2])"
    using m'(2) [rule_format, of 3] m'(2) [rule_format, of 5] by (simp_all add: sample_overlay_ok)
  with m'(1) show ?thesis by blast
qed

text \<open>
  C26: With no transaction open, \<open>drain_committed\<close> returns every changed key once, in key order, with an
  entry whose value is what the overlay shows for the key.
\<close>

theorem drain_committed_visible:
  fixes m :: "'k::linorder changeset"
  assumes "compact_laws cd" "overlay_inv cd m" "transaction_depth m = 0"
  shows "\<exists>xs. drain_committed m = Some xs \<and> map fst xs = map fst (changes m) \<and>
    sorted_wrt (<) (map fst xs) \<and>
    (\<forall>k e. (k, e) \<in> set xs \<longrightarrow> map_option Some (to_option cd e) = Some (visible (overlay_layers cd m) k))"
  using compact_laws.drain_visible [OF assms] assms(2) by (auto simp: om_inv_def bt_wf_def)

theorem drain_committed_visible_witness:
  "\<exists>xs. drain_committed sample_overlay = Some xs \<and> map fst xs = [3, 5]"
  using drain_committed_visible [OF scale_laws sample_overlay_ok(1,3)]
  by (auto simp: sample_overlay_def om_from_storage_def)

subsection \<open>Offchain overlay\<close>

text \<open>
  C28: The offchain overlay refines the same stack of maps, with plain values.
\<close>

theorem offchain_refines_layers:
  fixes m :: "('k::linorder, 'v) overlayed_map"
  assumes "offchain_inv m"
  shows "\<exists>m'. offchain_run ops m = Some m' \<and> offchain_inv m' \<and>
    offchain_layers m' = spec_run offchain_effect (om_protected m) ops (offchain_layers m)"
  using offchain_store.run_refines [OF assms, of ops] by blast

theorem offchain_refines_layers_witness:
  "\<exists>m'. offchain_run [Op_Start, Op_Write (5, 7, None), Op_Commit] (om_default :: (nat, nat) overlayed_map) = Some m' \<and>
    offchain_layers m' = [[5 \<mapsto> 7]]"
  using offchain_refines_layers [OF offchain_entry.okm_default(1), of "[Op_Start, Op_Write (5 :: nat, 7 :: nat, None), Op_Commit]"]
  by (auto simp: offchain_entry.okm_default(2))

end
