(* ===== verification/Overlayed_Inv.thy ===== *)
theory Overlayed_Inv
  imports Overlayed_Changes Changeset_Props
begin

text \<open>
  The parts of the overlay move in lockstep: the top changes, every child's and the offchain ones have
  the same number of open transactions, of which the same are protected.  Read together, slot by
  slot, they form one stack of layers, and the operations on transactions act on it as the
  specification says.
\<close>

subsection \<open>Slots\<close>

datatype storage_slot =
    Top_Slot bytes
  | Child_Slot bytes bytes
  | Offchain_Slot "bytes \<times> bytes"

definition change_value :: "offchain_overlayed_change \<Rightarrow> bytes option" where
  "change_value c = (case c of Offchain_Remove \<Rightarrow> None | Offchain_SetValue v \<Rightarrow> Some v)"

definition child_layer :: "compact_codec \<Rightarrow> (bytes changeset \<times> child_info) option \<Rightarrow> nat \<Rightarrow> (bytes \<rightharpoonup> bytes option)" where
  "child_layer cd c i = (case c of None \<Rightarrow> Map.empty | Some (m, _) \<Rightarrow> overlay_layers cd m ! i)"

definition oc_layer :: "compact_codec \<Rightarrow> ('h, 't) overlayed_changes \<Rightarrow> nat \<Rightarrow> (storage_slot \<rightharpoonup> bytes option)" where
  "oc_layer cd oc i slot = (case slot of
     Top_Slot k \<Rightarrow> (overlay_layers cd (oc_top oc) ! i) k
   | Child_Slot c k \<Rightarrow> child_layer cd (bt_get (oc_children oc) c) i k
   | Offchain_Slot pk \<Rightarrow> map_option change_value ((offchain_layers (oc_offchain oc) ! i) pk))"

definition oc_layers :: "compact_codec \<Rightarrow> ('h, 't) overlayed_changes \<Rightarrow> (storage_slot, bytes option) layers" where
  "oc_layers cd oc = map (oc_layer cd oc) [0..<Suc (oc_transaction_depth oc)]"

text \<open>Same position in the stack of transactions.\<close>

definition locked :: "('k, 'v) overlayed_map \<Rightarrow> ('l, 'w) overlayed_map \<Rightarrow> bool" where
  "locked m m' \<longleftrightarrow> transaction_depth m' = transaction_depth m \<and> om_protected m' = om_protected m \<and>
     om_in_runtime m' = om_in_runtime m"

definition child_ok :: "compact_codec \<Rightarrow> ('k, 'v) overlayed_map \<Rightarrow> bytes changeset \<Rightarrow> bool" where
  "child_ok cd top_changes m \<longleftrightarrow> overlay_inv cd m \<and> locked top_changes m"

definition oc_inv :: "compact_codec \<Rightarrow> ('h, 't) overlayed_changes \<Rightarrow> bool" where
  "oc_inv cd oc \<longleftrightarrow> overlay_inv cd (oc_top oc) \<and>
     offchain_inv (oc_offchain oc) \<and> locked (oc_top oc) (oc_offchain oc) \<and>
     bt_wf (oc_children oc) \<and>
     (\<forall>k m info. bt_get (oc_children oc) k = Some (m, info) \<longrightarrow> child_ok cd (oc_top oc) m)"

lemma length_oc_layers [simp]: "length (oc_layers cd oc) = Suc (oc_transaction_depth oc)"
  by (simp add: oc_layers_def)

lemma oc_layers_nth: "i \<le> oc_transaction_depth oc \<Longrightarrow> oc_layers cd oc ! i = oc_layer cd oc i"
  by (simp add: oc_layers_def del: upt_Suc)

lemma oc_layersI:
  assumes "length ls = Suc (oc_transaction_depth oc)"
    "\<And>i slot. i \<le> oc_transaction_depth oc \<Longrightarrow> oc_layer cd oc i slot = (ls ! i) slot"
  shows "oc_layers cd oc = ls"
  using assms by (intro nth_equalityI) (auto simp: oc_layers_nth fun_eq_iff)

lemma locked_refl [simp]: "locked m m"
  by (simp add: locked_def)

lemma locked_trans: "locked a b \<Longrightarrow> locked a c \<Longrightarrow> locked b c"
  by (simp add: locked_def)

lemma locked_swap:
  "locked a a' \<Longrightarrow> locked b b' \<Longrightarrow> locked a b \<Longrightarrow> locked a' b'"
  by (simp add: locked_def)

lemma locked_start: "locked m m' \<Longrightarrow> locked (om_start_transaction m) (om_start_transaction m')"
  by (auto simp: locked_def om_start_transaction_def transaction_depth_def om_protected_def
      om_in_runtime_def split: if_splits)

text \<open>Every child after an operation on all of them.\<close>

lemma for_children_all:
  assumes "\<forall>(k, (m, info)) \<in> set cs. \<exists>m'. f m = Some m' \<and> R m m'"
  shows "\<exists>cs'. for_children f cs = Some cs' \<and> map fst cs' = map fst cs \<and>
    (\<forall>k. bt_get cs k = None \<longleftrightarrow> bt_get cs' k = None) \<and>
    (\<forall>k m info. bt_get cs k = Some (m, info) \<longrightarrow> (\<exists>m'. bt_get cs' k = Some (m', info) \<and> R m m'))"
  using assms
proof (induction cs)
  case (Cons e cs)
  obtain k m info where e: "e = (k, (m, info))" by (cases e) auto
  then obtain m' where m': "f m = Some m'" "R m m'" using Cons.prems by auto
  obtain cs' where cs': "for_children f cs = Some cs'" "map fst cs' = map fst cs"
    "\<forall>k. bt_get cs k = None \<longleftrightarrow> bt_get cs' k = None"
    "\<forall>k m info. bt_get cs k = Some (m, info) \<longrightarrow> (\<exists>m'. bt_get cs' k = Some (m', info) \<and> R m m')"
    using Cons by auto
  then show ?case using e m' by (intro exI [of _ "(k, (m', info)) # cs'"]) auto
qed simp

lemma bt_wf_same_keys: "map fst cs' = map fst cs \<Longrightarrow> bt_wf cs' = bt_wf cs"
  by (simp add: bt_wf_def)

lemma oc_inv_child: "oc_inv cd oc \<Longrightarrow> \<forall>(k, (m, info)) \<in> set (oc_children oc). child_ok cd (oc_top oc) m"
  unfolding oc_inv_def using bt_get_Some_iff by fastforce

text \<open>The layers of an overlay without entries are empty.\<close>

lemma layers_empty:
  "stacked (\<lambda>_. [] :: 'a list) ds \<Longrightarrow> i \<le> length ds \<Longrightarrow> layers (\<lambda>_. [] :: 'a list) ds ! i = Map.empty"
  by (induction ds arbitrary: i) (auto simp: nth_Cons split: nat.split)

lemma empty_overlay_layers:
  assumes "om_is_empty m" "overlay_inv cd m" "i \<le> transaction_depth m"
  shows "overlay_layers cd m ! i = Map.empty"
proof -
  have vs: "om_views (entry_views cd) m = (\<lambda>_. [])"
    using assms(1) by (simp add: om_views_def om_is_empty_def)
  show ?thesis using assms(2,3) vs
    by (simp add: om_inv_def om_layers_def transaction_depth_def layers_empty)
qed

subsection \<open>Transactions act on all layers\<close>

lemma depth_drop:
  assumes "om_layers vw m' = drop n (om_layers vw m)" "n \<le> transaction_depth m"
  shows "transaction_depth m' = transaction_depth m - n"
proof -
  have "length (om_layers vw m') = length (drop n (om_layers vw m))" using assms(1) by (rule arg_cong)
  then show ?thesis using assms(2) by simp
qed

locale overlay_codecs = compact_laws "cx_compact cx" for cx :: codecs

text \<open>A fixed-width \<open>u32\<close> is four little-endian bytes.\<close>

definition scale_codecs :: codecs where
  "scale_codecs = \<lparr>cx_compact = scale_compact,
     cx_decode_u32 = (\<lambda>bs. if length bs < 4 then None else Some (of_nat (le_value (take 4 bs))))\<rparr>"

interpretation scale_cx: overlay_codecs scale_codecs
  by unfold_locales (simp_all add: scale_codecs_def scale_decode_encode scale_decode_canonical scale_len_encode)

context overlay_codecs
begin

abbreviation "cdc \<equiv> cx_compact cx"

lemma inv_parts:
  assumes "oc_inv cdc oc"
  shows "overlay_inv cdc (oc_top oc)" "offchain_inv (oc_offchain oc)" "locked (oc_top oc) (oc_offchain oc)"
    "bt_wf (oc_children oc)"
    "\<And>k m info. bt_get (oc_children oc) k = Some (m, info) \<Longrightarrow> overlay_inv cdc m \<and> locked (oc_top oc) m"
  using assms by (auto simp: oc_inv_def child_ok_def)

lemma start_ok:
  assumes "oc_inv cdc oc"
  shows "oc_inv cdc (oc_start_transaction oc) \<and>
    om_protected (oc_top (oc_start_transaction oc)) = om_protected (oc_top oc) \<and>
    om_in_runtime (oc_top (oc_start_transaction oc)) = om_in_runtime (oc_top oc) \<and>
    oc_layers cdc (oc_start_transaction oc) = Map.empty # oc_layers cdc oc"
proof -
  note p = inv_parts [OF assms]
  have get: "bt_get (oc_children (oc_start_transaction oc)) k
      = map_option (\<lambda>(m, info). (om_start_transaction m, info)) (bt_get (oc_children oc) k)" for k
    by (simp add: oc_start_transaction_def case_prod_unfold flip: bt_get_map_snd)
  have topL: "overlay_inv cdc (oc_top (oc_start_transaction oc))"
      "overlay_layers cdc (oc_top (oc_start_transaction oc)) = Map.empty # overlay_layers cdc (oc_top oc)"
    using store.start_ok [OF p(1)] by (simp_all add: oc_start_transaction_def)
  have offL: "offchain_inv (oc_offchain (oc_start_transaction oc))"
      "offchain_layers (oc_offchain (oc_start_transaction oc)) = Map.empty # offchain_layers (oc_offchain oc)"
      "locked (oc_top (oc_start_transaction oc)) (oc_offchain (oc_start_transaction oc))"
    using offchain_store.start_ok [OF p(2)] locked_start [OF p(3)] by (simp_all add: oc_start_transaction_def)
  have kid: "child_ok cdc (oc_top (oc_start_transaction oc)) (om_start_transaction m)"
      "overlay_layers cdc (om_start_transaction m) = Map.empty # overlay_layers cdc m"
    if "bt_get (oc_children oc) k = Some (m, info)" for k m info
    using store.start_ok [of m] p(5) [OF that] locked_start [of "oc_top oc" m] by (simp_all add: child_ok_def oc_start_transaction_def)
  have "bt_wf (oc_children (oc_start_transaction oc))"
    using p(4) by (simp add: oc_start_transaction_def case_prod_unfold bt_wf_def comp_def)
  then have "oc_inv cdc (oc_start_transaction oc)"
    using topL(1) offL(1,3) kid(1) by (auto simp: oc_inv_def get)
  moreover have "oc_layers cdc (oc_start_transaction oc) = Map.empty # oc_layers cdc oc"
  proof (rule oc_layersI)
    fix i slot
    assume i: "i \<le> oc_transaction_depth (oc_start_transaction oc)"
    then have j: "i - 1 \<le> oc_transaction_depth oc"
      by (simp add: oc_transaction_depth_def oc_start_transaction_def om_start_transaction_def transaction_depth_def)
    show "oc_layer cdc (oc_start_transaction oc) i slot = ((Map.empty # oc_layers cdc oc) ! i) slot"
    proof (cases slot)
      case (Child_Slot c k)
      then show ?thesis using j kid(2)
        by (cases i; cases "bt_get (oc_children oc) c") (auto simp: oc_layer_def oc_layers_nth child_layer_def get)
    qed (use j topL(2) offL(2) in \<open>cases i; simp add: oc_layer_def oc_layers_nth\<close>)+
  qed (simp add: oc_transaction_depth_def oc_start_transaction_def om_start_transaction_def transaction_depth_def)
  ultimately show ?thesis
    by (simp add: oc_start_transaction_def om_start_transaction_def om_protected_def om_in_runtime_def)
qed

text \<open>
  A component whose layers lost the highest \<open>n\<close>, with the given protection and mode.
\<close>

definition dropped :: "nat \<Rightarrow> nat \<Rightarrow> bool \<Rightarrow> bytes changeset \<Rightarrow> bytes changeset \<Rightarrow> bool" where
  "dropped n p r m m' \<longleftrightarrow> overlay_inv cdc m' \<and> overlay_layers cdc m' = drop n (overlay_layers cdc m) \<and>
     om_protected m' = p \<and> om_in_runtime m' = r"

lemma dropped_depth:
  "dropped n p r m m' \<Longrightarrow> n \<le> transaction_depth m \<Longrightarrow> transaction_depth m' = transaction_depth m - n"
  unfolding dropped_def by (blast intro: depth_drop)

lemma drop_ok:
  assumes inv: "oc_inv cdc oc" and n: "n \<le> oc_transaction_depth oc"
    and t: "dropped n p r (oc_top oc) (oc_top oc')"
    and off: "offchain_inv (oc_offchain oc')" "om_protected (oc_offchain oc') = p" "om_in_runtime (oc_offchain oc') = r"
      "offchain_layers (oc_offchain oc') = drop n (offchain_layers (oc_offchain oc))"
    and wf: "bt_wf (oc_children oc')"
    and kid: "\<And>c m info. bt_get (oc_children oc) c = Some (m, info) \<Longrightarrow>
      (\<exists>m'. dropped n p r m m' \<and> (bt_get (oc_children oc') c = Some (m', info) \<or>
        bt_get (oc_children oc') c = None \<and> om_is_empty m'))"
    and new: "\<And>c. bt_get (oc_children oc) c = None \<Longrightarrow> bt_get (oc_children oc') c = None"
  shows "oc_inv cdc oc' \<and> om_protected (oc_top oc') = p \<and> om_in_runtime (oc_top oc') = r \<and>
    oc_layers cdc oc' = drop n (oc_layers cdc oc)"
proof -
  note pt = inv_parts [OF inv]
  have depth: "transaction_depth (oc_top oc') = transaction_depth (oc_top oc) - n"
    using dropped_depth [OF t] n by (simp add: oc_transaction_depth_def)
  have same: "transaction_depth m = transaction_depth (oc_top oc)" if "bt_get (oc_children oc) c = Some (m, info)" for c m info
    using pt(5) [OF that] by (simp add: locked_def)
  have kept: "\<exists>m. bt_get (oc_children oc) c = Some (m, info) \<and> dropped n p r m m'"
    if "bt_get (oc_children oc') c = Some (m', info)" for c m' info
  proof (cases "bt_get (oc_children oc) c")
    case (Some e)
    then show ?thesis using kid [of c "fst e" "snd e"] that by (cases e) auto
  qed (use new that in simp)
  have "child_ok cdc (oc_top oc') m'" if "bt_get (oc_children oc') c = Some (m', info)" for c m' info
    using kept [OF that] same dropped_depth n depth t
    by (force simp: child_ok_def locked_def dropped_def oc_transaction_depth_def)
  moreover have "locked (oc_top oc') (oc_offchain oc')"
    using off depth_drop [OF off(4)] n depth pt(3) t
    by (auto simp: locked_def dropped_def oc_transaction_depth_def)
  ultimately have "oc_inv cdc oc'"
    using t off(1) wf by (auto simp: oc_inv_def dropped_def)
  moreover have "oc_layers cdc oc' = drop n (oc_layers cdc oc)"
  proof (rule oc_layersI)
    show "length (drop n (oc_layers cdc oc)) = Suc (oc_transaction_depth oc')"
      using n depth by (simp add: oc_transaction_depth_def)
    fix i slot
    assume i: "i \<le> oc_transaction_depth oc'"
    then have in_oc: "n + i \<le> oc_transaction_depth oc" using n depth by (simp add: oc_transaction_depth_def)
    have "oc_layer cdc oc' i slot = oc_layer cdc oc (n + i) slot"
    proof (cases slot)
      case (Child_Slot c k)
      have "child_layer cdc (bt_get (oc_children oc') c) i = child_layer cdc (bt_get (oc_children oc) c) (n + i)"
      proof (cases "bt_get (oc_children oc) c")
        case None
        then show ?thesis using new by (simp add: child_layer_def)
      next
        case (Some e)
        obtain m info where e: "e = (m, info)" by (cases e)
        from kid [OF Some [unfolded e]] obtain m' where m': "dropped n p r m m'"
          "bt_get (oc_children oc') c = Some (m', info) \<or> bt_get (oc_children oc') c = None \<and> om_is_empty m'"
          by blast
        have d: "n + i \<le> transaction_depth m" using in_oc same [OF Some [unfolded e]] by (simp add: oc_transaction_depth_def)
        then have nth: "overlay_layers cdc m' ! i = overlay_layers cdc m ! (n + i)"
          using m'(1) by (simp add: dropped_def)
        have "i \<le> transaction_depth m'" using dropped_depth [OF m'(1)] d by simp
        then have "om_is_empty m' \<Longrightarrow> overlay_layers cdc m' ! i = Map.empty"
          using empty_overlay_layers [of m' cdc i] m'(1) unfolding dropped_def by blast
        then show ?thesis using m'(2) nth Some e by (auto simp: child_layer_def)
      qed
      then show ?thesis using Child_Slot by (simp add: oc_layer_def)
    qed (use in_oc t off(4) pt(3) in \<open>simp_all add: oc_layer_def dropped_def oc_transaction_depth_def locked_def\<close>)
    then show "oc_layer cdc oc' i slot = (drop n (oc_layers cdc oc) ! i) slot"
      using in_oc by (simp add: oc_layers_nth)
  qed
  ultimately show ?thesis using t by (simp add: dropped_def)
qed

lemma expect_Some: "x = Some (Inr (), s) \<Longrightarrow> expect x = Some s"
  by (simp add: expect_def)

lemma protected_depth:
  assumes "oc_inv cdc oc"
  shows "om_protected (oc_top oc) < length (oc_layers cdc oc)"
  using store.prot_less [OF inv_parts(1) [OF assms]] by (simp add: oc_transaction_depth_def)

lemma protected_kid:
  assumes "oc_inv cdc oc" "bt_get (oc_children oc) c = Some (m, info)"
  shows "Suc (om_protected m) < length (overlay_layers cdc m)
      \<longleftrightarrow> Suc (om_protected (oc_top oc)) < length (oc_layers cdc oc)"
  using inv_parts(5) [OF assms] by (simp add: locked_def oc_transaction_depth_def)

lemma rollback_ok:
  assumes inv: "oc_inv cdc oc" and open_tx: "Suc (om_protected (oc_top oc)) < length (oc_layers cdc oc)"
  shows "\<exists>oc'. oc_rollback_transaction cx oc = Some (Inr (), oc') \<and> oc_inv cdc oc' \<and>
    om_protected (oc_top oc') = om_protected (oc_top oc) \<and> om_in_runtime (oc_top oc') = om_in_runtime (oc_top oc) \<and>
    oc_layers cdc oc' = tl (oc_layers cdc oc) \<and> oc_storage_transaction_cache oc' = None"
proof -
  note pt = inv_parts [OF inv]
  let ?p = "om_protected (oc_top oc)" and ?r = "om_in_runtime (oc_top oc)"
  let ?rb = "\<lambda>c. expect (om_rollback_transaction cdc c)"
  have step: "\<exists>m'. om_rollback_transaction cdc m = Some (Inr (), m') \<and> dropped 1 ?p ?r m m'"
    if "overlay_inv cdc m" "locked (oc_top oc) m" for m
    using store.close_ok [of m True] that open_tx
    by (auto simp: locked_def oc_transaction_depth_def dropped_def drop_Suc)
  obtain t where t: "om_rollback_transaction cdc (oc_top oc) = Some (Inr (), t)" "dropped 1 ?p ?r (oc_top oc) t"
    using step [OF pt(1)] by auto
  have "\<forall>(k, (m, info)) \<in> set (oc_children oc). \<exists>m'. ?rb m = Some m' \<and> dropped 1 ?p ?r m m'"
    using oc_inv_child [OF inv] step expect_Some by (fastforce simp: child_ok_def)
  from for_children_all [OF this] obtain cs where cs: "for_children ?rb (oc_children oc) = Some cs"
    "map fst cs = map fst (oc_children oc)" "\<forall>k. bt_get (oc_children oc) k = None \<longleftrightarrow> bt_get cs k = None"
    "\<forall>k m info. bt_get (oc_children oc) k = Some (m, info) \<longrightarrow> (\<exists>m'. bt_get cs k = Some (m', info) \<and> dropped 1 ?p ?r m m')"
    by blast
  have "Suc (om_protected (oc_offchain oc)) < length (offchain_layers (oc_offchain oc))"
    using pt(3) open_tx by (simp add: locked_def oc_transaction_depth_def)
  from offchain_store.close_ok [OF pt(2) this, of True] obtain ofc where ofc:
    "rollback_transaction_offchain (oc_offchain oc) = Some (Inr (), ofc)" "offchain_inv ofc"
    "om_protected ofc = ?p" "om_in_runtime ofc = ?r" "offchain_layers ofc = drop 1 (offchain_layers (oc_offchain oc))"
    using pt(3) by (auto simp: locked_def drop_Suc)
  define oc' where "oc' = (mark_dirty oc)\<lparr>oc_top := t,
    oc_children := filter (\<lambda>(_, (c, _)). \<not> om_is_empty c) cs, oc_offchain := ofc\<rparr>"
  have run: "oc_rollback_transaction cx oc = Some (Inr (), oc')"
    using t(1) cs(1) expect_Some [OF ofc(1)]
    by (simp add: oc_rollback_transaction_def mark_dirty_def oc'_def Let_def)
  have wf: "bt_wf cs" using pt(4) bt_wf_same_keys [OF cs(2)] by simp
  then have get: "bt_get (oc_children oc') c = (case bt_get cs c of None \<Rightarrow> None
      | Some (m, info) \<Rightarrow> if om_is_empty m then None else Some (m, info))" for c
    unfolding oc'_def by (simp add: bt_get_filter_entries case_prod_unfold split: option.split)
  have "oc_inv cdc oc' \<and> om_protected (oc_top oc') = ?p \<and> om_in_runtime (oc_top oc') = ?r \<and>
      oc_layers cdc oc' = drop 1 (oc_layers cdc oc)"
  proof (rule drop_ok [OF inv])
    show "1 \<le> oc_transaction_depth oc" using open_tx by simp
    show "bt_wf (oc_children oc')" unfolding oc'_def using wf by (simp add: bt_wf_filter)
    fix c m info
    assume "bt_get (oc_children oc) c = Some (m, info)"
    with cs(4) obtain m' where "bt_get cs c = Some (m', info)" "dropped 1 ?p ?r m m'" by blast
    then show "\<exists>m'. dropped 1 ?p ?r m m' \<and> (bt_get (oc_children oc') c = Some (m', info) \<or>
        bt_get (oc_children oc') c = None \<and> om_is_empty m')"
      by (auto simp: get)
  next
    fix c assume "bt_get (oc_children oc) c = None"
    then show "bt_get (oc_children oc') c = None" using cs(3) by (simp add: get)
  qed (use t(2) ofc in \<open>simp_all add: oc'_def\<close>)
  then show ?thesis using run by (auto simp: drop_Suc oc'_def mark_dirty_def)
qed

text \<open>An operation that drops \<open>n\<close> layers of every component.\<close>

lemma replace_parts:
  assumes inv: "oc_inv cdc oc" and n: "n \<le> oc_transaction_depth oc"
    and step: "\<And>m. overlay_inv cdc m \<Longrightarrow> locked (oc_top oc) m \<Longrightarrow>
      \<exists>m'. f m = Some (Inr (), m') \<and> dropped n p r m m'"
    and off: "offchain_inv ofc" "om_protected ofc = p" "om_in_runtime ofc = r"
      "offchain_layers ofc = drop n (offchain_layers (oc_offchain oc))"
  shows "\<exists>t cs oc'. f (oc_top oc) = Some (Inr (), t) \<and>
    for_children (\<lambda>c. expect (f c)) (oc_children oc) = Some cs \<and>
    oc' = oc\<lparr>oc_top := t, oc_children := cs, oc_offchain := ofc\<rparr> \<and> oc_inv cdc oc' \<and>
    om_protected (oc_top oc') = p \<and> om_in_runtime (oc_top oc') = r \<and>
    oc_layers cdc oc' = drop n (oc_layers cdc oc)"
proof -
  note pt = inv_parts [OF inv]
  obtain t where t: "f (oc_top oc) = Some (Inr (), t)" "dropped n p r (oc_top oc) t"
    using step [OF pt(1)] by auto
  have "\<forall>(k, (m, info)) \<in> set (oc_children oc). \<exists>m'. expect (f m) = Some m' \<and> dropped n p r m m'"
    using oc_inv_child [OF inv] step expect_Some by (fastforce simp: child_ok_def)
  from for_children_all [OF this] obtain cs where cs: "for_children (\<lambda>c. expect (f c)) (oc_children oc) = Some cs"
    "map fst cs = map fst (oc_children oc)" "\<forall>k. bt_get (oc_children oc) k = None \<longleftrightarrow> bt_get cs k = None"
    "\<forall>k m info. bt_get (oc_children oc) k = Some (m, info) \<longrightarrow> (\<exists>m'. bt_get cs k = Some (m', info) \<and> dropped n p r m m')"
    by blast
  define oc' where "oc' = oc\<lparr>oc_top := t, oc_children := cs, oc_offchain := ofc\<rparr>"
  have parts: "oc_top oc' = t" "oc_children oc' = cs" "oc_offchain oc' = ofc" by (simp_all add: oc'_def)
  have "oc_inv cdc oc' \<and> om_protected (oc_top oc') = p \<and> om_in_runtime (oc_top oc') = r \<and>
      oc_layers cdc oc' = drop n (oc_layers cdc oc)"
  proof (rule drop_ok [OF inv n])
    show "bt_wf (oc_children oc')" using pt(4) bt_wf_same_keys [OF cs(2)] by (simp add: parts)
    fix c m info
    assume "bt_get (oc_children oc) c = Some (m, info)"
    then show "\<exists>m'. dropped n p r m m' \<and> (bt_get (oc_children oc') c = Some (m', info) \<or>
        bt_get (oc_children oc') c = None \<and> om_is_empty m')"
      unfolding parts using cs(4) by blast
  next
    fix c assume "bt_get (oc_children oc) c = None"
    then show "bt_get (oc_children oc') c = None" using cs(3) by (simp add: parts)
  qed (use t(2) off in \<open>simp_all add: parts\<close>)
  then show ?thesis using t(1) cs(1) oc'_def by blast
qed

lemma exit_ok:
  assumes inv: "oc_inv cdc oc" and r: "om_in_runtime (oc_top oc)"
  shows "\<exists>oc'. oc_exit_runtime cx oc = Some (Inr (), oc') \<and> oc_inv cdc oc' \<and> \<not> om_in_runtime (oc_top oc') \<and>
    oc_layers cdc oc' = drop (length (oc_layers cdc oc) - Suc (om_protected (oc_top oc))) (oc_layers cdc oc) \<and>
    oc_storage_transaction_cache oc' = oc_storage_transaction_cache oc"
proof -
  note pt = inv_parts [OF inv]
  let ?n = "length (oc_layers cdc oc) - Suc (om_protected (oc_top oc))"
  have step: "\<exists>m'. om_exit_runtime cdc m = Some (Inr (), m') \<and> dropped ?n 0 False m m'"
    if "overlay_inv cdc m" "locked (oc_top oc) m" for m
    using store.exit_ok [OF that(1)] that(2) r store.prot_client
    by (auto simp: locked_def oc_transaction_depth_def dropped_def)
  have "om_in_runtime (oc_offchain oc)" using pt(3) r by (simp add: locked_def)
  from offchain_store.exit_ok [OF pt(2) this] obtain ofc where ofc:
    "om_exit_runtime_offchain (oc_offchain oc) = Some (Inr (), ofc)" "offchain_inv ofc" "om_protected ofc = 0"
    "om_in_runtime ofc = False" "offchain_layers ofc = drop ?n (offchain_layers (oc_offchain oc))"
    using pt(3) offchain_store.prot_client by (auto simp: locked_def oc_transaction_depth_def)
  have "?n \<le> oc_transaction_depth oc" by simp
  from replace_parts [OF inv this step ofc(2-5)] show ?thesis
    using expect_Some [OF ofc(1)] by (auto simp: oc_exit_runtime_def)
qed

lemma enter_ok:
  assumes inv: "oc_inv cdc oc" and r: "\<not> om_in_runtime (oc_top oc)"
  shows "\<exists>oc'. oc_enter_runtime oc = Some (Inr (), oc') \<and> oc_inv cdc oc' \<and> om_in_runtime (oc_top oc') \<and>
    om_protected (oc_top oc') = length (oc_layers cdc oc) - 1 \<and> oc_layers cdc oc' = oc_layers cdc oc \<and>
    oc_storage_transaction_cache oc' = oc_storage_transaction_cache oc"
proof -
  note pt = inv_parts [OF inv]
  let ?p = "length (oc_layers cdc oc) - 1"
  have step: "\<exists>m'. Some (om_enter_runtime m) = Some (Inr (), m') \<and> dropped 0 ?p True m m'"
    if "overlay_inv cdc m" "locked (oc_top oc) m" for m
    using store.enter_ok [OF that(1)] that(2) r
    by (auto simp: locked_def oc_transaction_depth_def dropped_def)
  have "\<not> om_in_runtime (oc_offchain oc)" using pt(3) r by (simp add: locked_def)
  from offchain_store.enter_ok [OF pt(2) this] obtain ofc where ofc:
    "om_enter_runtime (oc_offchain oc) = (Inr (), ofc)" "offchain_inv ofc" "om_protected ofc = ?p"
    "om_in_runtime ofc = True" "offchain_layers ofc = drop 0 (offchain_layers (oc_offchain oc))"
    using pt(3) by (auto simp: locked_def oc_transaction_depth_def)
  from replace_parts [OF inv _ step ofc(2-5)] show ?thesis
    using ofc(1) by (auto simp: oc_enter_runtime_def expect_def)
qed

text \<open>A commit merges the two highest layers of every component.\<close>

definition merged :: "bytes changeset \<Rightarrow> bytes changeset \<Rightarrow> bool" where
  "merged m m' \<longleftrightarrow> overlay_inv cdc m' \<and> overlay_layers cdc m' = merge_top (overlay_layers cdc m) \<and>
     om_protected m' = om_protected m \<and> om_in_runtime m' = om_in_runtime m"

lemma merge_depth:
  assumes "om_layers vw m' = merge_top (om_layers vw m)" "0 < transaction_depth m"
  shows "transaction_depth m' = transaction_depth m - 1"
proof -
  have "length (om_layers vw m') = length (merge_top (om_layers vw m))" using assms(1) by (rule arg_cong)
  then show ?thesis using assms(2) by simp
qed

lemma nth_merge_top:
  "1 < length ls \<Longrightarrow> i < length ls - 1 \<Longrightarrow>
    merge_top ls ! i = (if i = 0 then (ls ! 1) ++ (ls ! 0) else ls ! Suc i)"
  by (cases ls; cases "tl ls") (auto simp: nth_Cons split: nat.split)

lemma commit_ok:
  assumes inv: "oc_inv cdc oc" and open_tx: "Suc (om_protected (oc_top oc)) < length (oc_layers cdc oc)"
  shows "\<exists>oc'. oc_commit_transaction cx oc = Some (Inr (), oc') \<and> oc_inv cdc oc' \<and>
    om_protected (oc_top oc') = om_protected (oc_top oc) \<and> om_in_runtime (oc_top oc') = om_in_runtime (oc_top oc) \<and>
    oc_layers cdc oc' = merge_top (oc_layers cdc oc) \<and>
    oc_storage_transaction_cache oc' = oc_storage_transaction_cache oc"
proof -
  note pt = inv_parts [OF inv]
  let ?D = "oc_transaction_depth oc"
  let ?cm = "\<lambda>c. expect (om_commit_transaction cdc c)"
  have D: "0 < ?D" using open_tx by simp
  have step: "\<exists>m'. om_commit_transaction cdc m = Some (Inr (), m') \<and> merged m m'"
    if "overlay_inv cdc m" "locked (oc_top oc) m" for m
    using store.close_ok [of m False] that open_tx by (auto simp: locked_def oc_transaction_depth_def merged_def)
  obtain t where t: "om_commit_transaction cdc (oc_top oc) = Some (Inr (), t)" "merged (oc_top oc) t"
    using step [OF pt(1)] by auto
  have "\<forall>(k, (m, info)) \<in> set (oc_children oc). \<exists>m'. ?cm m = Some m' \<and> merged m m'"
    using oc_inv_child [OF inv] step expect_Some by (fastforce simp: child_ok_def)
  from for_children_all [OF this] obtain cs where cs: "for_children ?cm (oc_children oc) = Some cs"
    "map fst cs = map fst (oc_children oc)" "\<forall>k. bt_get (oc_children oc) k = None \<longleftrightarrow> bt_get cs k = None"
    "\<forall>k m info. bt_get (oc_children oc) k = Some (m, info) \<longrightarrow> (\<exists>m'. bt_get cs k = Some (m', info) \<and> merged m m')"
    by blast
  have "Suc (om_protected (oc_offchain oc)) < length (offchain_layers (oc_offchain oc))"
    using pt(3) open_tx by (simp add: locked_def oc_transaction_depth_def)
  from offchain_store.close_ok [OF pt(2) this, of False] obtain ofc where ofc:
    "commit_transaction_offchain (oc_offchain oc) = Some (Inr (), ofc)" "offchain_inv ofc"
    "om_protected ofc = om_protected (oc_top oc)" "om_in_runtime ofc = om_in_runtime (oc_top oc)"
    "offchain_layers ofc = merge_top (offchain_layers (oc_offchain oc))"
    using pt(3) by (auto simp: locked_def)
  define oc' where "oc' = oc\<lparr>oc_top := t, oc_children := cs, oc_offchain := ofc\<rparr>"
  have parts: "oc_top oc' = t" "oc_children oc' = cs" "oc_offchain oc' = ofc" by (simp_all add: oc'_def)
  have run: "oc_commit_transaction cx oc = Some (Inr (), oc')"
    using t(1) cs(1) expect_Some [OF ofc(1)] by (simp add: oc_commit_transaction_def oc'_def)
  have depth: "transaction_depth t = transaction_depth (oc_top oc) - 1"
    using t(2) D merge_depth unfolding merged_def oc_transaction_depth_def by blast
  have odepth: "transaction_depth ofc = transaction_depth (oc_top oc) - 1"
    using merge_depth [OF ofc(5)] D pt(3) by (simp add: locked_def oc_transaction_depth_def)
  have same: "overlay_inv cdc m \<and> transaction_depth m = transaction_depth (oc_top oc) \<and>
      om_protected m = om_protected (oc_top oc) \<and> om_in_runtime m = om_in_runtime (oc_top oc)"
    if "bt_get (oc_children oc) c = Some (m, info)" for c m info
    using pt(5) [OF that] by (simp add: locked_def)
  have "child_ok cdc t m'" if g: "bt_get cs c = Some (m', info)" for c m' info
  proof -
    have "bt_get (oc_children oc) c \<noteq> None" using cs(3) g by simp
    then obtain m i where mi: "bt_get (oc_children oc) c = Some (m, i)" by auto
    then have m: "bt_get (oc_children oc) c = Some (m, info)" "merged m m'" using cs(4) g by fastforce+
    have "transaction_depth m' = transaction_depth m - 1"
      using m(2) merge_depth D same [OF m(1)] unfolding merged_def oc_transaction_depth_def by metis
    then show ?thesis using m(2) same [OF m(1)] t(2) depth by (simp add: child_ok_def locked_def merged_def)
  qed
  then have "oc_inv cdc oc'"
    using t(2) ofc(2-4) depth odepth pt(4) bt_wf_same_keys [OF cs(2)]
    by (auto simp: oc_inv_def parts merged_def locked_def)
  moreover have "oc_layers cdc oc' = merge_top (oc_layers cdc oc)"
  proof (rule oc_layersI)
    show "length (merge_top (oc_layers cdc oc)) = Suc (oc_transaction_depth oc')"
      using D depth by (simp add: oc_transaction_depth_def parts)
    fix i slot
    assume "i \<le> oc_transaction_depth oc'"
    then have i: "i < ?D" using D depth by (simp add: oc_transaction_depth_def parts)
    have "oc_layer cdc oc' i slot = (if i = 0 then (oc_layer cdc oc 1 ++ oc_layer cdc oc 0) slot
        else oc_layer cdc oc (Suc i) slot)"
    proof (cases slot)
      case (Top_Slot k)
      then show ?thesis using i t(2) D
        by (simp add: oc_layer_def parts merged_def nth_merge_top oc_transaction_depth_def map_add_def
            split: option.split)
    next
      case (Offchain_Slot pk)
      then show ?thesis using i ofc(5) D pt(3)
        by (simp add: oc_layer_def parts nth_merge_top oc_transaction_depth_def map_add_def locked_def
            split: option.split)
    next
      case (Child_Slot c k)
      show ?thesis
      proof (cases "bt_get (oc_children oc) c")
        case None
        then have "bt_get cs c = None" using cs(3) by blast
        with None Child_Slot show ?thesis
          by (simp add: oc_layer_def parts child_layer_def map_add_def split: option.split)
      next
        case (Some e)
        obtain m info where e: "e = (m, info)" by (cases e)
        from cs(4) Some e obtain m' where m': "bt_get cs c = Some (m', info)" "merged m m'" by blast
        then show ?thesis using Child_Slot Some e i D same [OF Some [unfolded e]]
          by (simp add: oc_layer_def parts child_layer_def merged_def nth_merge_top map_add_def oc_transaction_depth_def
              split: option.split)
      qed
    qed
    then show "oc_layer cdc oc' i slot = (merge_top (oc_layers cdc oc) ! i) slot"
      using i D by (simp add: nth_merge_top oc_layers_nth)
  qed
  ultimately show ?thesis using run t(2) by (auto simp: parts merged_def oc'_def)
qed

end

end
