(* ===== verification/Overlayed_Writes.thy ===== *)
theory Overlayed_Writes
  imports Overlayed_Inv
begin

text \<open>
  What the operations of \<open>OverlayedChanges\<close> that read and write values do to the layers, and to the cached
  storage root.
\<close>

subsection \<open>Writes\<close>

definition on_top :: "(bytes \<rightharpoonup> bytes option) \<Rightarrow> (storage_slot \<rightharpoonup> bytes option)" where
  "on_top e slot = (case slot of Top_Slot k \<Rightarrow> e k | _ \<Rightarrow> None)"

definition on_child :: "bytes \<Rightarrow> (bytes \<rightharpoonup> bytes option) \<Rightarrow> (storage_slot \<rightharpoonup> bytes option)" where
  "on_child c e slot = (case slot of Child_Slot c' k \<Rightarrow> if c' = c then e k else None | _ \<Rightarrow> None)"

definition on_offchain :: "(bytes \<times> bytes \<rightharpoonup> bytes option) \<Rightarrow> (storage_slot \<rightharpoonup> bytes option)" where
  "on_offchain e slot = (case slot of Offchain_Slot pk \<Rightarrow> e pk | _ \<Rightarrow> None)"

text \<open>Same position, and the highest layer overwritten with \<open>e\<close>.\<close>

definition oc_wrote ::
  "compact_codec \<Rightarrow> (storage_slot \<rightharpoonup> bytes option) \<Rightarrow> ('h, 't) overlayed_changes \<Rightarrow> ('h, 't) overlayed_changes \<Rightarrow> bool" where
  "oc_wrote cd e oc oc' \<longleftrightarrow> oc_inv cd oc' \<and> om_protected (oc_top oc') = om_protected (oc_top oc) \<and>
     om_in_runtime (oc_top oc') = om_in_runtime (oc_top oc) \<and>
     oc_layers cd oc' = (hd (oc_layers cd oc) ++ e) # tl (oc_layers cd oc)"

lemma oc_layers_Cons: "oc_layers cd oc = oc_layer cd oc 0 # tl (oc_layers cd oc)"
  by (simp add: oc_layers_def upt_conv_Cons del: upt_Suc)

lemma oc_layers_hd: "hd (oc_layers cd oc) = oc_layer cd oc 0"
  by (metis list.sel(1) oc_layers_Cons)

lemma write_layersI:
  assumes "oc_transaction_depth oc' = oc_transaction_depth oc"
    "\<And>slot. oc_layer cd oc' 0 slot = (oc_layer cd oc 0 ++ e) slot"
    "\<And>i slot. 0 < i \<Longrightarrow> i \<le> oc_transaction_depth oc \<Longrightarrow> oc_layer cd oc' i slot = oc_layer cd oc i slot"
  shows "oc_layers cd oc' = (hd (oc_layers cd oc) ++ e) # tl (oc_layers cd oc)"
proof (rule oc_layersI)
  fix i slot
  assume "i \<le> oc_transaction_depth oc'"
  with assms show "oc_layer cd oc' i slot = (((hd (oc_layers cd oc) ++ e) # tl (oc_layers cd oc)) ! i) slot"
    by (cases i) (simp_all add: oc_layers_hd nth_tl oc_layers_nth)
qed (use assms(1) in simp)

lemma oc_wrote_empty:
  "oc_inv cd oc' \<Longrightarrow> locked (oc_top oc) (oc_top oc') \<Longrightarrow> oc_layers cd oc' = oc_layers cd oc \<Longrightarrow>
    oc_wrote cd Map.empty oc oc'"
  unfolding oc_wrote_def locked_def by (metis map_add_empty oc_layers_Cons list.sel(1,3))

lemma oc_wrote_trans:
  assumes "oc_wrote cd Map.empty oc oc1" "oc_wrote cd e oc1 oc2"
  shows "oc_wrote cd e oc oc2"
proof -
  have "oc_layers cd oc1 = oc_layers cd oc" using assms(1) by (metis map_add_empty oc_layers_Cons oc_layers_hd oc_wrote_def)
  then show ?thesis using assms by (simp add: oc_wrote_def)
qed

lemma oc_wrote_fields:
  assumes "oc_top oc1 = oc_top oc2" "oc_children oc1 = oc_children oc2" "oc_offchain oc1 = oc_offchain oc2"
  shows "oc_inv cd oc1 = oc_inv cd oc2" "oc_layers cd oc1 = oc_layers cd oc2"
  using assms by (simp_all add: oc_inv_def oc_layers_def oc_layer_def [abs_def] oc_transaction_depth_def)

lemma top_write:
  assumes inv: "oc_inv cd oc"
    and m: "overlay_inv cd m" "locked (oc_top oc) m"
      "overlay_layers cd m = (hd (overlay_layers cd (oc_top oc)) ++ e) # tl (overlay_layers cd (oc_top oc))"
    and oc': "oc_top oc' = m" "oc_children oc' = oc_children oc" "oc_offchain oc' = oc_offchain oc"
  shows "oc_wrote cd (on_top e) oc oc'"
proof -
  have d: "oc_transaction_depth oc' = oc_transaction_depth oc"
    using m(2) oc'(1) by (simp add: oc_transaction_depth_def locked_def)
  have "oc_inv cd oc'"
    using inv m oc' by (auto simp: oc_inv_def child_ok_def locked_def)
  moreover have "oc_layers cd oc' = (hd (oc_layers cd oc) ++ on_top e) # tl (oc_layers cd oc)"
  proof (rule write_layersI [OF d])
    have h: "overlay_layers cd (oc_top oc) ! 0 = hd (overlay_layers cd (oc_top oc))"
      by (simp add: hd_conv_nth om_layers_def)
    show "oc_layer cd oc' 0 slot = (oc_layer cd oc 0 ++ on_top e) slot" for slot
      using oc' m(3) by (cases slot) (simp_all add: oc_layer_def on_top_def map_add_def h split: option.split)
    fix i slot
    assume "0 < i" "i \<le> oc_transaction_depth oc"
    then show "oc_layer cd oc' i slot = oc_layer cd oc i slot"
      using oc' m(3) by (cases slot; cases i) (simp_all add: oc_layer_def nth_tl oc_transaction_depth_def)
  qed
  ultimately show ?thesis using m(2) oc'(1) by (simp add: oc_wrote_def locked_def)
qed

lemma child_write:
  assumes inv: "oc_inv cd oc"
    and m0: "child_ok cd (oc_top oc) m0"
      "\<And>i. i \<le> oc_transaction_depth oc \<Longrightarrow> overlay_layers cd m0 ! i = child_layer cd (bt_get (oc_children oc) c) i"
    and m: "overlay_inv cd m" "locked m0 m"
      "overlay_layers cd m = (hd (overlay_layers cd m0) ++ e) # tl (overlay_layers cd m0)"
    and oc': "oc_top oc' = oc_top oc" "oc_children oc' = bt_insert c (m, info) (oc_children oc)"
      "oc_offchain oc' = oc_offchain oc"
  shows "oc_wrote cd (on_child c e) oc oc'"
proof -
  have wf: "bt_wf (oc_children oc)" using inv by (simp add: oc_inv_def)
  have d: "oc_transaction_depth oc' = oc_transaction_depth oc"
    using oc'(1) by (simp add: oc_transaction_depth_def)
  have dm0: "transaction_depth m0 = oc_transaction_depth oc"
    using m0(1) by (simp add: child_ok_def locked_def oc_transaction_depth_def)
  have "child_ok cd (oc_top oc) m" using m0(1) m(1,2) by (simp add: child_ok_def locked_def)
  then have "oc_inv cd oc'" using inv oc' wf by (auto simp: oc_inv_def)
  moreover have "oc_layers cd oc' = (hd (oc_layers cd oc) ++ on_child c e) # tl (oc_layers cd oc)"
  proof (rule write_layersI [OF d])
    have "overlay_layers cd m0 ! 0 = hd (overlay_layers cd m0)" by (simp add: hd_conv_nth om_layers_def)
    then have h: "hd (overlay_layers cd m0) = child_layer cd (bt_get (oc_children oc) c) 0"
      using m0(2) [of 0] by simp
    show "oc_layer cd oc' 0 slot = (oc_layer cd oc 0 ++ on_child c e) slot" for slot
      using oc' m(3) wf by (cases slot) (auto simp: oc_layer_def on_child_def map_add_def h child_layer_def
          split: option.split)
    fix i slot
    assume i: "0 < i" "i \<le> oc_transaction_depth oc"
    have "overlay_layers cd m ! i = child_layer cd (bt_get (oc_children oc) c) i"
      using i m(3) m0(2) [of i] dm0 by (cases i) (simp_all add: nth_tl)
    then show "oc_layer cd oc' i slot = oc_layer cd oc i slot"
      using oc' wf by (cases slot) (auto simp: oc_layer_def child_layer_def)
  qed
  ultimately show ?thesis using oc'(1) by (simp add: oc_wrote_def)
qed

lemma offchain_write:
  assumes inv: "oc_inv cd oc"
    and m: "offchain_inv m" "locked (oc_top oc) m"
      "offchain_layers m = (hd (offchain_layers (oc_offchain oc)))(pk \<mapsto> v) # tl (offchain_layers (oc_offchain oc))"
    and oc': "oc_top oc' = oc_top oc" "oc_children oc' = oc_children oc" "oc_offchain oc' = m"
  shows "oc_wrote cd (on_offchain [pk \<mapsto> change_value v]) oc oc'"
proof -
  have d: "oc_transaction_depth oc' = oc_transaction_depth oc"
    "transaction_depth (oc_offchain oc) = oc_transaction_depth oc"
    using inv oc'(1) by (simp_all add: oc_transaction_depth_def oc_inv_def locked_def)
  have "oc_inv cd oc'" using inv m oc' by (auto simp: oc_inv_def)
  moreover have "oc_layers cd oc' = (hd (oc_layers cd oc) ++ on_offchain [pk \<mapsto> change_value v]) # tl (oc_layers cd oc)"
  proof (rule write_layersI [OF d(1)])
    have h: "offchain_layers (oc_offchain oc) ! 0 = hd (offchain_layers (oc_offchain oc))"
      by (simp add: hd_conv_nth om_layers_def)
    show "oc_layer cd oc' 0 slot = (oc_layer cd oc 0 ++ on_offchain [pk \<mapsto> change_value v]) slot" for slot
      using oc' m(3) by (cases slot) (auto simp: oc_layer_def on_offchain_def map_add_def h split: option.split)
    fix i slot
    assume "0 < i" "i \<le> oc_transaction_depth oc"
    then show "oc_layer cd oc' i slot = oc_layer cd oc i slot"
      using oc' m(3) d(2) by (cases slot; cases i) (simp_all add: oc_layer_def nth_tl)
  qed
  ultimately show ?thesis using oc'(1) by (simp add: oc_wrote_def)
qed

text \<open>What is visible in a slot is what its component shows.\<close>

lemma visible_pointwise:
  assumes "list_all2 (\<lambda>l l'. l k = map_option f (l' k')) ls ls'"
  shows "visible ls k = map_option f (visible ls' k')"
  using assms by (induction ls ls') (auto simp: map_add_def split: option.splits)

lemma visible_oc_layers:
  assumes "oc_inv cd oc"
  shows "visible (oc_layers cd oc) (Top_Slot k) = visible (overlay_layers cd (oc_top oc)) k"
    and "visible (oc_layers cd oc) (Child_Slot c k) = (case bt_get (oc_children oc) c of None \<Rightarrow> None
      | Some (m, _) \<Rightarrow> visible (overlay_layers cd m) k)"
    and "visible (oc_layers cd oc) (Offchain_Slot pk) = map_option change_value (visible (offchain_layers (oc_offchain oc)) pk)"
proof -
  have off: "transaction_depth (oc_offchain oc) = oc_transaction_depth oc"
    using assms by (simp add: oc_inv_def locked_def oc_transaction_depth_def)
  have kid: "transaction_depth m = oc_transaction_depth oc" if "bt_get (oc_children oc) c = Some (m, info)" for m info
    using assms that by (auto simp: oc_inv_def child_ok_def locked_def oc_transaction_depth_def)
  show "visible (oc_layers cd oc) (Top_Slot k) = visible (overlay_layers cd (oc_top oc)) k"
    using visible_pointwise [of "Top_Slot k" id k "oc_layers cd oc" "overlay_layers cd (oc_top oc)"]
    by (simp add: list_all2_conv_all_nth oc_layers_nth oc_layer_def oc_transaction_depth_def option.map_id0)
  show "visible (oc_layers cd oc) (Offchain_Slot pk) = map_option change_value (visible (offchain_layers (oc_offchain oc)) pk)"
    by (rule visible_pointwise) (simp add: list_all2_conv_all_nth oc_layers_nth oc_layer_def off)
  show "visible (oc_layers cd oc) (Child_Slot c k) = (case bt_get (oc_children oc) c of None \<Rightarrow> None
      | Some (m, _) \<Rightarrow> visible (overlay_layers cd m) k)"
  proof (cases "bt_get (oc_children oc) c")
    case None
    have "visible (oc_layers cd oc) (Child_Slot c k) = map_option id (visible (replicate (Suc (oc_transaction_depth oc)) Map.empty) k)"
      by (rule visible_pointwise) (simp add: list_all2_conv_all_nth oc_layers_nth oc_layer_def child_layer_def None nth_Cons split: nat.split)
    moreover have "visible (replicate n Map.empty) k = None" for n :: nat by (induction n) simp_all
    ultimately show ?thesis using None by (simp del: replicate_Suc)
  next
    case (Some e)
    obtain m info where e: "e = (m, info)" by (cases e)
    show ?thesis
      using visible_pointwise [of "Child_Slot c k" id k "oc_layers cd oc" "overlay_layers cd m"] Some e kid [of m info]
      by (simp add: list_all2_conv_all_nth oc_layers_nth oc_layer_def child_layer_def option.map_id0)
  qed
qed

context overlay_codecs
begin

lemma same_mode_locked:
  assumes "same_mode m m'" "transaction_depth m' = transaction_depth m"
  shows "locked m m'"
  using assms by (simp add: locked_def same_mode_def om_protected_def om_in_runtime_def)

lemma write_depth:
  assumes "om_layers vw m' = (hd (om_layers vw m) ++ e) # tl (om_layers vw m)"
  shows "transaction_depth m' = transaction_depth m"
proof -
  have "length (om_layers vw m') = length ((hd (om_layers vw m) ++ e) # tl (om_layers vw m))"
    using assms by (rule arg_cong)
  then show ?thesis by simp
qed

text \<open>Any operation on a changeset that writes \<open>e\<close>, applied to the top changes.\<close>

lemma top_op:
  assumes "oc_inv cdc oc" "overlay_inv cdc m" "same_mode (oc_top oc) m"
    "overlay_layers cdc m = (hd (overlay_layers cdc (oc_top oc)) ++ e) # tl (overlay_layers cdc (oc_top oc))"
    "oc_top oc' = m" "oc_children oc' = oc_children oc" "oc_offchain oc' = oc_offchain oc"
  shows "oc_wrote cdc (on_top e) oc oc'"
  using assms top_write same_mode_locked write_depth by metis

lemma overlay_layers_self: "overlay_layers cdc m = (hd (overlay_layers cdc m) ++ Map.empty) # tl (overlay_layers cdc m)"
  by (simp add: om_layers_def)

lemma on_top_empty [simp]: "on_top Map.empty = Map.empty" "on_child c Map.empty = Map.empty"
  by (auto simp: on_top_def on_child_def fun_eq_iff split: storage_slot.split)

lemma storage_ok:
  assumes "oc_inv cdc oc"
  shows "\<exists>oc'. oc_storage cx key oc = Some (visible (oc_layers cdc oc) (Top_Slot key), oc') \<and>
    oc_wrote cdc Map.empty oc oc' \<and> oc_storage_transaction_cache oc' = oc_storage_transaction_cache oc \<and>
    oc_collect_extrinsics oc' = oc_collect_extrinsics oc"
proof -
  obtain m where m: "om_value cdc key (oc_top oc) = Some (visible (overlay_layers cdc (oc_top oc)) key, m)"
    "overlay_inv cdc m" "same_mode (oc_top oc) m" "overlay_layers cdc m = overlay_layers cdc (oc_top oc)"
    using om_value_layers [OF inv_parts(1) [OF assms]] by metis
  have "oc_wrote cdc (on_top Map.empty) oc (oc\<lparr>oc_top := m, oc_stats := st\<rparr>)" for st
    using assms m(2,3) by (rule top_op) (use m(4) overlay_layers_self in simp_all)
  moreover have "oc_wrote cdc (on_top Map.empty) oc (oc\<lparr>oc_top := m\<rparr>)"
    using assms m(2,3) by (rule top_op) (use m(4) overlay_layers_self in simp_all)
  ultimately show ?thesis using m(1) visible_oc_layers(1) [OF assms, of key]
    by (cases "visible (overlay_layers cdc (oc_top oc)) key") (auto simp: oc_storage_def Let_def)
qed

lemma extrinsic_index_ok:
  assumes "oc_inv cdc oc"
  shows "\<exists>at oc'. extrinsic_index cx oc = Some (at, oc') \<and> oc_wrote cdc Map.empty oc oc' \<and>
    oc_storage_transaction_cache oc' = oc_storage_transaction_cache oc \<and> (\<not> oc_collect_extrinsics oc \<longrightarrow> at = None)"
proof (cases "oc_collect_extrinsics oc")
  case True
  with storage_ok [OF assms, of EXTRINSIC_INDEX] show ?thesis by (auto simp: extrinsic_index_def)
next
  case False
  then show ?thesis using oc_wrote_empty [OF assms locked_refl] by (simp add: extrinsic_index_def)
qed

text \<open>Clearing the cache and tallying touch no layer.\<close>

lemma oc_wrote_mark:
  "oc_inv cdc oc \<Longrightarrow> oc_wrote cdc Map.empty oc (mark_dirty oc)"
  "oc_inv cdc oc \<Longrightarrow> oc_wrote cdc Map.empty oc (tally_write n oc)"
  using oc_wrote_fields [of "mark_dirty oc" oc cdc] oc_wrote_fields [of "tally_write n oc" oc cdc]
  by (auto intro!: oc_wrote_empty simp: mark_dirty_def tally_write_def)

lemma oc_wrote_inv: "oc_wrote cdc e oc oc' \<Longrightarrow> oc_inv cdc oc'"
  by (simp add: oc_wrote_def)

lemma oc_wrote_layers: "oc_wrote cdc Map.empty oc oc' \<Longrightarrow> oc_layers cdc oc' = oc_layers cdc oc"
  by (metis map_add_empty oc_layers_Cons oc_layers_hd oc_wrote_def)

lemma set_storage_ok:
  assumes "oc_inv cdc oc"
  shows "\<exists>oc'. oc_set_storage cx key v oc = Some oc' \<and> oc_wrote cdc [Top_Slot key \<mapsto> v] oc oc' \<and>
    oc_storage_transaction_cache oc' = None"
proof -
  let ?oc1 = "tally_write (value_size v) (mark_dirty oc)"
  have w1: "oc_wrote cdc Map.empty oc ?oc1"
    using oc_wrote_trans oc_wrote_mark oc_wrote_inv assms by blast
  obtain at oc2 where x: "extrinsic_index cx ?oc1 = Some (at, oc2)" "oc_wrote cdc Map.empty ?oc1 oc2"
    "oc_storage_transaction_cache oc2 = oc_storage_transaction_cache ?oc1"
    using extrinsic_index_ok [OF oc_wrote_inv [OF w1]] by blast
  have inv2: "oc_inv cdc oc2" using x(2) by (rule oc_wrote_inv)
  obtain m where m: "om_set cdc key v at (oc_top oc2) = Some m" "overlay_inv cdc m" "same_mode (oc_top oc2) m"
    "overlay_layers cdc m = (hd (overlay_layers cdc (oc_top oc2)) ++ [key \<mapsto> v]) # tl (overlay_layers cdc (oc_top oc2))"
    using om_set_layers [OF inv_parts(1) [OF inv2], of key v at] by auto
  have "oc_wrote cdc (on_top [key \<mapsto> v]) oc2 (oc2\<lparr>oc_top := m\<rparr>)"
    using inv2 m(2-4) by (rule top_op) simp_all
  moreover have "on_top [key \<mapsto> v] = [Top_Slot key \<mapsto> v]"
    by (auto simp: on_top_def fun_eq_iff split: storage_slot.split)
  ultimately have "oc_wrote cdc [Top_Slot key \<mapsto> v] oc (oc2\<lparr>oc_top := m\<rparr>)"
    using oc_wrote_trans w1 x(2) by metis
  then show ?thesis using x(1,3) m(1)
    by (simp add: oc_set_storage_def Let_def mark_dirty_def tally_write_def)
qed

lemma append_ok:
  assumes "oc_inv cdc oc" "visible (oc_layers cdc oc) (Top_Slot key) = None \<Longrightarrow> init () = Some i"
  shows "\<exists>oc'. oc_append_storage cx key x init oc = Some oc' \<and>
    oc_wrote cdc [Top_Slot key \<mapsto> Some (scale_append cdc
      (case visible (oc_layers cdc oc) (Top_Slot key) of None \<Rightarrow> Some i | Some v \<Rightarrow> v) x)] oc oc' \<and>
    oc_storage_transaction_cache oc' = oc_storage_transaction_cache oc"
proof -
  obtain at oc1 where x: "extrinsic_index cx oc = Some (at, oc1)" "oc_wrote cdc Map.empty oc oc1"
    "oc_storage_transaction_cache oc1 = oc_storage_transaction_cache oc"
    using extrinsic_index_ok [OF assms(1)] by blast
  let ?oc2 = "tally_write (of_nat (length x)) oc1"
  have w2: "oc_wrote cdc Map.empty oc ?oc2"
    using oc_wrote_trans [OF x(2)] oc_wrote_mark(2) oc_wrote_inv [OF x(2)] by blast
  have inv2: "oc_inv cdc ?oc2" using w2 by (rule oc_wrote_inv)
  let ?vis = "visible (oc_layers cdc oc) (Top_Slot key)"
  let ?v = "Some (scale_append cdc (case ?vis of None \<Rightarrow> Some i | Some v \<Rightarrow> v) x)"
  have vis: "visible (overlay_layers cdc (oc_top ?oc2)) key = ?vis"
    using visible_oc_layers(1) [OF inv2, of key] oc_wrote_layers [OF w2] by simp
  obtain m where m: "append_storage cdc key x init at (oc_top ?oc2) = Some m" "overlay_inv cdc m"
    "same_mode (oc_top ?oc2) m"
    "overlay_layers cdc m = (hd (overlay_layers cdc (oc_top ?oc2)) ++ [key \<mapsto> ?v]) # tl (overlay_layers cdc (oc_top ?oc2))"
    using append_storage_layers [OF inv_parts(1) [OF inv2], of key init i x at] assms(2) unfolding vis by auto
  have "oc_wrote cdc (on_top [key \<mapsto> ?v]) ?oc2 (?oc2\<lparr>oc_top := m\<rparr>)"
    using inv2 m(2-4) by (rule top_op) simp_all
  moreover have "on_top [key \<mapsto> ?v] = [Top_Slot key \<mapsto> ?v]"
    by (auto simp: on_top_def fun_eq_iff split: storage_slot.split)
  ultimately have "oc_wrote cdc [Top_Slot key \<mapsto> ?v] oc (?oc2\<lparr>oc_top := m\<rparr>)"
    using oc_wrote_trans w2 by metis
  then show ?thesis using x(1,3) m(1) by (simp add: oc_append_storage_def Let_def tally_write_def)
qed

lemma clear_prefix_ok:
  assumes "oc_inv cdc oc"
  shows "\<exists>oc'. oc_clear_prefix cx p oc
      = Some (of_nat (card {k. starts_with k p \<and> (\<exists>v. visible (oc_layers cdc oc) (Top_Slot k) = Some (Some v))}), oc') \<and>
    oc_wrote cdc (on_top (\<lambda>k. if starts_with k p \<and> visible (oc_layers cdc oc) (Top_Slot k) \<noteq> None
      then Some None else None)) oc oc' \<and> oc_storage_transaction_cache oc' = None"
proof -
  have w1: "oc_wrote cdc Map.empty oc (mark_dirty oc)" using oc_wrote_mark assms by blast
  obtain at oc2 where x: "extrinsic_index cx (mark_dirty oc) = Some (at, oc2)" "oc_wrote cdc Map.empty (mark_dirty oc) oc2"
    "oc_storage_transaction_cache oc2 = oc_storage_transaction_cache (mark_dirty oc)"
    using extrinsic_index_ok [OF oc_wrote_inv [OF w1]] by blast
  have w2: "oc_wrote cdc Map.empty oc oc2" using oc_wrote_trans w1 x(2) by blast
  have inv2: "oc_inv cdc oc2" using w2 by (rule oc_wrote_inv)
  have vis: "visible (overlay_layers cdc (oc_top oc2)) k = visible (oc_layers cdc oc) (Top_Slot k)" for k
    using visible_oc_layers(1) [OF inv2, of k] oc_wrote_layers [OF w2] by simp
  let ?e = "\<lambda>k. if starts_with k p \<and> visible (oc_layers cdc oc) (Top_Slot k) \<noteq> None then Some None else None"
  let ?n = "of_nat (card {k. starts_with k p \<and> (\<exists>v. visible (oc_layers cdc oc) (Top_Slot k) = Some (Some v))}) :: u32"
  obtain m where m: "clear_where cdc (\<lambda>k _. starts_with k p) at (oc_top oc2) = Some (?n, m)"
    "overlay_inv cdc m" "same_mode (oc_top oc2) m"
    "overlay_layers cdc m = (hd (overlay_layers cdc (oc_top oc2)) ++ ?e) # tl (overlay_layers cdc (oc_top oc2))"
    using clear_where_layers [OF inv_parts(1) [OF inv2], of "\<lambda>k. starts_with k p" at,
        unfolded live_count [OF inv_parts(1) [OF inv2]] vis]
    by (elim exE conjE)
  have "oc_wrote cdc (on_top ?e) oc2 (oc2\<lparr>oc_top := m\<rparr>)"
    using inv2 m(2-4) by (rule top_op) simp_all
  then have "oc_wrote cdc (on_top ?e) oc (oc2\<lparr>oc_top := m\<rparr>)" using oc_wrote_trans w2 by blast
  then show ?thesis using x(1,3) m(1) by (simp add: oc_clear_prefix_def mark_dirty_def)
qed

subsection \<open>Child tries\<close>

lemma child_entry_ok:
  assumes "oc_inv cdc oc"
  shows "child_ok cdc (oc_top oc) (fst (child_entry ci oc))"
    and "i \<le> oc_transaction_depth oc \<Longrightarrow> overlay_layers cdc (fst (child_entry ci oc)) ! i
      = child_layer cdc (bt_get (oc_children oc) (child_storage_key ci)) i"
    and "visible (overlay_layers cdc (fst (child_entry ci oc))) k
      = visible (oc_layers cdc oc) (Child_Slot (child_storage_key ci) k)"
proof -
  note pt = inv_parts [OF assms]
  have empty: "visible (replicate n Map.empty) k = None" for n :: nat by (induction n) simp_all
  have spawn: "overlay_inv cdc (spawn_child (oc_top oc)) \<and>
      overlay_layers cdc (spawn_child (oc_top oc)) = replicate (Suc (transaction_depth (oc_top oc))) Map.empty \<and>
      om_protected (spawn_child (oc_top oc)) = om_protected (oc_top oc)"
    using pt(1) by (intro entry.okm_spawn_child) (simp add: om_inv_def)
  then show "child_ok cdc (oc_top oc) (fst (child_entry ci oc))"
    using pt(5) by (auto simp: child_entry_def child_ok_def locked_def spawn_child_def om_in_runtime_def
        transaction_depth_def split: option.split)
  show "overlay_layers cdc (fst (child_entry ci oc)) ! i
      = child_layer cdc (bt_get (oc_children oc) (child_storage_key ci)) i" if "i \<le> oc_transaction_depth oc"
    using spawn that by (auto simp: child_entry_def child_layer_def oc_transaction_depth_def nth_Cons split: option.split nat.split)
  show "visible (overlay_layers cdc (fst (child_entry ci oc))) k
      = visible (oc_layers cdc oc) (Child_Slot (child_storage_key ci) k)"
    using spawn empty [of "Suc (transaction_depth (oc_top oc))"]
    by (auto simp: child_entry_def visible_oc_layers(2) [OF assms] simp del: replicate_Suc split: option.split)
qed

lemma with_child_ok:
  assumes inv: "oc_inv cdc oc"
    and f: "f (fst (child_entry ci oc)) = Some (r, m)" "overlay_inv cdc m" "same_mode (fst (child_entry ci oc)) m"
      "overlay_layers cdc m = (hd (overlay_layers cdc (fst (child_entry ci oc))) ++ e)
        # tl (overlay_layers cdc (fst (child_entry ci oc)))"
  shows "\<exists>oc'. with_child ci f oc = Some (r, oc') \<and> oc_wrote cdc (on_child (child_storage_key ci) e) oc oc' \<and>
    oc_storage_transaction_cache oc' = oc_storage_transaction_cache oc"
proof -
  let ?oc' = "oc\<lparr>oc_children := bt_insert (child_storage_key ci) (m, snd (child_entry ci oc)) (oc_children oc)\<rparr>"
  have "locked (fst (child_entry ci oc)) m" using same_mode_locked write_depth f(3,4) by blast
  then have "oc_wrote cdc (on_child (child_storage_key ci) e) oc ?oc'"
    using child_write [OF inv child_entry_ok(1) [OF inv, of ci] child_entry_ok(2) [OF inv, where ci = ci] f(2) _ f(4),
        of ?oc' "snd (child_entry ci oc)"] by simp
  then show ?thesis using f(1) by (simp add: with_child_def case_prod_unfold Let_def)
qed

text \<open>A write to a child trie: clear the cache, look up the extrinsic index, write.\<close>

lemma child_op_ok:
  assumes inv: "oc_inv cdc oc"
    and step: "\<And>at m0. overlay_inv cdc m0 \<Longrightarrow>
      (\<And>k. visible (overlay_layers cdc m0) k = visible (oc_layers cdc oc) (Child_Slot (child_storage_key ci) k)) \<Longrightarrow>
      \<exists>m. f at m0 = Some (r, m) \<and> overlay_inv cdc m \<and> same_mode m0 m \<and>
        overlay_layers cdc m = (hd (overlay_layers cdc m0) ++ e) # tl (overlay_layers cdc m0)"
    and g: "\<And>oc. g oc = oc \<or> (\<exists>n. g oc = tally_write n oc)"
  shows "\<exists>oc'. Option.bind (extrinsic_index cx (mark_dirty oc)) (\<lambda>(at, oc). with_child ci (f at) (g oc)) = Some (r, oc') \<and>
    oc_wrote cdc (on_child (child_storage_key ci) e) oc oc' \<and> oc_storage_transaction_cache oc' = None"
proof -
  have w1: "oc_wrote cdc Map.empty oc (mark_dirty oc)" using oc_wrote_mark inv by blast
  obtain at oc2 where x: "extrinsic_index cx (mark_dirty oc) = Some (at, oc2)" "oc_wrote cdc Map.empty (mark_dirty oc) oc2"
    "oc_storage_transaction_cache oc2 = oc_storage_transaction_cache (mark_dirty oc)"
    using extrinsic_index_ok [OF oc_wrote_inv [OF w1]] by blast
  have w2: "oc_wrote cdc Map.empty oc oc2" using oc_wrote_trans w1 x(2) by blast
  have inv2: "oc_inv cdc oc2" using w2 by (rule oc_wrote_inv)
  have w3: "oc_wrote cdc Map.empty oc (g oc2)"
    using g [of oc2] w2 oc_wrote_mark(2) [OF inv2] oc_wrote_trans by metis
  have inv3: "oc_inv cdc (g oc2)" using w3 by (rule oc_wrote_inv)
  have "oc_storage_transaction_cache (g oc2) = None"
    using g [of oc2] x(3) by (auto simp: tally_write_def mark_dirty_def)
  moreover obtain m where "f at (fst (child_entry ci (g oc2))) = Some (r, m)" "overlay_inv cdc m"
    "same_mode (fst (child_entry ci (g oc2))) m"
    "overlay_layers cdc m = (hd (overlay_layers cdc (fst (child_entry ci (g oc2)))) ++ e)
        # tl (overlay_layers cdc (fst (child_entry ci (g oc2))))"
    using step [of "fst (child_entry ci (g oc2))" at] child_entry_ok(1,3) [OF inv3, where ci = ci] oc_wrote_layers [OF w3]
    unfolding child_ok_def by metis
  ultimately obtain oc' where "with_child ci (f at) (g oc2) = Some (r, oc')"
    "oc_wrote cdc (on_child (child_storage_key ci) e) (g oc2) oc'" "oc_storage_transaction_cache oc' = None"
    using with_child_ok [OF inv3] by metis
  then show ?thesis using x(1) oc_wrote_trans [OF w3] by auto
qed

lemma set_child_storage_ok:
  assumes "oc_inv cdc oc"
  shows "\<exists>oc'. oc_set_child_storage cx ci key v oc = Some oc' \<and>
    oc_wrote cdc [Child_Slot (child_storage_key ci) key \<mapsto> v] oc oc' \<and> oc_storage_transaction_cache oc' = None"
proof -
  have e: "on_child c [key \<mapsto> v] = [Child_Slot c key \<mapsto> v]" for c
    by (auto simp: on_child_def fun_eq_iff split: storage_slot.split)
  have step: "\<exists>m. map_option (Pair ()) (om_set cdc key v at m0) = Some ((), m) \<and> overlay_inv cdc m \<and> same_mode m0 m \<and>
      overlay_layers cdc m = (hd (overlay_layers cdc m0) ++ [key \<mapsto> v]) # tl (overlay_layers cdc m0)"
    if "overlay_inv cdc m0" for at m0
    using om_set_layers [OF that, of key v at] by auto
  obtain r oc' where "Option.bind (extrinsic_index cx (mark_dirty oc)) (\<lambda>(at, oc).
      with_child ci (\<lambda>m. map_option (Pair ()) (om_set cdc key v at m)) (tally_write (value_size v) oc)) = Some (r, oc')"
    "oc_wrote cdc [Child_Slot (child_storage_key ci) key \<mapsto> v] oc oc'" "oc_storage_transaction_cache oc' = None"
    using child_op_ok [where f = "\<lambda>at m. map_option (Pair ()) (om_set cdc key v at m)" and ci = ci
        and g = "tally_write (value_size v)" and e = "[key \<mapsto> v]" and r = "()", OF assms step] e by auto
  then show ?thesis
    by (intro exI [of _ oc']) (auto simp: oc_set_child_storage_def split: bind_splits)
qed

lemma clear_child_ok:
  assumes "oc_inv cdc oc"
  shows "\<exists>oc'. Option.bind (extrinsic_index cx (mark_dirty oc))
      (\<lambda>(at, oc). with_child ci (clear_where cdc (\<lambda>k _. P k) at) oc) = Some (of_nat (card {k. P k \<and>
        (\<exists>v. visible (oc_layers cdc oc) (Child_Slot (child_storage_key ci) k) = Some (Some v))}), oc') \<and>
    oc_wrote cdc (on_child (child_storage_key ci) (\<lambda>k. if P k \<and>
        visible (oc_layers cdc oc) (Child_Slot (child_storage_key ci) k) \<noteq> None then Some None else None)) oc oc' \<and>
    oc_storage_transaction_cache oc' = None"
proof -
  let ?vis = "\<lambda>k. visible (oc_layers cdc oc) (Child_Slot (child_storage_key ci) k)"
  let ?e = "\<lambda>k. if P k \<and> ?vis k \<noteq> None then Some None else None"
  let ?n = "of_nat (card {k. P k \<and> (\<exists>v. ?vis k = Some (Some v))}) :: u32"
  have step: "\<exists>m. clear_where cdc (\<lambda>k _. P k) at m0 = Some (?n, m) \<and> overlay_inv cdc m \<and> same_mode m0 m \<and>
      overlay_layers cdc m = (hd (overlay_layers cdc m0) ++ ?e) # tl (overlay_layers cdc m0)"
    if "overlay_inv cdc m0" "\<And>k. visible (overlay_layers cdc m0) k = ?vis k" for at m0
  proof -
    have eq: "visible (overlay_layers cdc m0) = ?vis" using that(2) by (rule ext)
    show ?thesis using clear_where_layers [OF that(1), of P at] unfolding live_count [OF that(1)] eq
      by (elim exE conjE) (intro exI conjI)
  qed
  show ?thesis
    using child_op_ok [where f = "clear_where cdc (\<lambda>k _. P k)" and ci = ci and g = "\<lambda>oc. oc" and e = ?e and r = ?n, OF assms step]
    by simp
qed

lemma child_storage_ok:
  assumes "oc_inv cdc oc"
  shows "\<exists>oc'. oc_child_storage cx ci key oc
      = Some (visible (oc_layers cdc oc) (Child_Slot (child_storage_key ci) key), oc') \<and>
    oc_wrote cdc Map.empty oc oc' \<and> oc_storage_transaction_cache oc' = oc_storage_transaction_cache oc"
proof (cases "bt_get (oc_children oc) (child_storage_key ci)")
  case None
  then show ?thesis using oc_wrote_empty [OF assms locked_refl] visible_oc_layers(2) [OF assms]
    by (simp add: oc_child_storage_def)
next
  case (Some e)
  obtain m0 info where e: "e = (m0, info)" by (cases e)
  let ?c = "child_storage_key ci"
  have ok: "child_ok cdc (oc_top oc) m0" and inv0: "overlay_inv cdc m0"
    using inv_parts(5) [OF assms Some [unfolded e]] by (simp_all add: child_ok_def)
  obtain m where m: "om_value cdc key m0 = Some (visible (overlay_layers cdc m0) key, m)"
    "overlay_inv cdc m" "same_mode m0 m" "overlay_layers cdc m = overlay_layers cdc m0"
    using om_value_layers [OF inv0] by metis
  have lk: "locked m0 m" using same_mode_locked m(3,4) write_depth overlay_layers_self by metis
  have vis: "visible (oc_layers cdc oc) (Child_Slot ?c key) = visible (overlay_layers cdc m0) key"
    using visible_oc_layers(2) [OF assms] Some e by simp
  have cl: "overlay_layers cdc m0 ! i = child_layer cdc (bt_get (oc_children oc) ?c) i" for i
    using Some e by (simp add: child_layer_def)
  have w: "oc_wrote cdc Map.empty oc oc'"
    if "oc_top oc' = oc_top oc" "oc_children oc' = bt_insert ?c (m, info) (oc_children oc)"
      "oc_offchain oc' = oc_offchain oc" for oc'
    using child_write [OF assms ok cl m(2) lk _ that, of Map.empty] m(4) overlay_layers_self [of m0] by simp
  show ?thesis unfolding vis
    using w m(1) Some e
    by (cases "visible (overlay_layers cdc m0) key") (simp_all add: oc_child_storage_def Let_def)
qed

lemma set_offchain_ok:
  assumes "oc_inv cdc oc"
  shows "\<exists>oc'. oc_set_offchain_storage key v oc = Some oc' \<and>
    oc_wrote cdc [Offchain_Slot (STORAGE_PREFIX, key) \<mapsto> v] oc oc' \<and>
    oc_storage_transaction_cache oc' = oc_storage_transaction_cache oc"
proof -
  note pt = inv_parts [OF assms]
  let ?c = "case v of Some x \<Rightarrow> Offchain_SetValue x | None \<Rightarrow> Offchain_Remove"
  obtain m where m: "set_offchain (STORAGE_PREFIX, key) ?c None (oc_offchain oc) = Some m" "offchain_inv m"
    "offchain_layers m = (hd (offchain_layers (oc_offchain oc)))((STORAGE_PREFIX, key) \<mapsto> ?c)
      # tl (offchain_layers (oc_offchain oc))" "same_mode (oc_offchain oc) m"
    using set_offchain_layers [OF pt(2), of "(STORAGE_PREFIX, key)" ?c None] by metis
  have "transaction_depth m = transaction_depth (oc_offchain oc)"
  proof -
    have "length (offchain_layers m) = length (offchain_layers (oc_offchain oc))" using m(3) by simp
    then show ?thesis by simp
  qed
  then have "locked (oc_offchain oc) m"
    using m(4) by (simp add: locked_def same_mode_def om_protected_def om_in_runtime_def)
  then have "locked (oc_top oc) m" using pt(3) by (simp add: locked_def)
  from offchain_write [OF assms m(2) this m(3), of "oc\<lparr>oc_offchain := m\<rparr>"]
  have "oc_wrote cdc (on_offchain [(STORAGE_PREFIX, key) \<mapsto> change_value ?c]) oc (oc\<lparr>oc_offchain := m\<rparr>)" by simp
  moreover have "on_offchain [(STORAGE_PREFIX, key) \<mapsto> change_value ?c] = [Offchain_Slot (STORAGE_PREFIX, key) \<mapsto> v]"
    by (auto simp: on_offchain_def change_value_def fun_eq_iff split: storage_slot.split option.split)
  ultimately show ?thesis using m(1)
    by (auto simp: oc_set_offchain_storage_def offchain_set_def offchain_remove_def split: option.splits)
qed

end

end
