(* ===== verification/Overlayed_Correct.thy ===== *)
theory Overlayed_Correct
  imports Overlayed_Writes
begin

text \<open>
  The whole overlay as one transactional store, and when the cached storage root is the one of the
  current changes.
\<close>

subsection \<open>A transactional store\<close>

datatype oc_write =
    OW_Set bytes "bytes option"
  | OW_Append bytes bytes bytes
  | OW_Clear_Prefix bytes
  | OW_Child_Set child_info bytes "bytes option"
  | OW_Child_Clear child_info
  | OW_Child_Clear_Prefix child_info bytes
  | OW_Offchain bytes "bytes option"
  | OW_Read bytes
  | OW_Child_Read child_info bytes

fun oc_apply :: "codecs \<Rightarrow> oc_write \<Rightarrow> ('h, 't) overlayed_changes \<Rightarrow> ('h, 't) overlayed_changes run" where
  "oc_apply cx (OW_Set k v) oc = oc_set_storage cx k v oc"
| "oc_apply cx (OW_Append k x i) oc = oc_append_storage cx k x (\<lambda>_. Some i) oc"
| "oc_apply cx (OW_Clear_Prefix p) oc = map_option snd (oc_clear_prefix cx p oc)"
| "oc_apply cx (OW_Child_Set ci k v) oc = oc_set_child_storage cx ci k v oc"
| "oc_apply cx (OW_Child_Clear ci) oc = map_option snd (oc_clear_child_storage cx ci oc)"
| "oc_apply cx (OW_Child_Clear_Prefix ci p) oc = map_option snd (oc_clear_child_prefix cx ci p oc)"
| "oc_apply cx (OW_Offchain k v) oc = oc_set_offchain_storage k v oc"
| "oc_apply cx (OW_Read k) oc = map_option snd (oc_storage cx k oc)"
| "oc_apply cx (OW_Child_Read ci k) oc = map_option snd (oc_child_storage cx ci k oc)"

definition cleared :: "('a \<Rightarrow> bool) \<Rightarrow> ('a \<rightharpoonup> bytes option) \<Rightarrow> ('a \<rightharpoonup> bytes option)" where
  "cleared P vis = (\<lambda>k. if P k \<and> vis k \<noteq> None then Some None else None)"

fun oc_effect ::
  "compact_codec \<Rightarrow> oc_write \<Rightarrow> (storage_slot \<rightharpoonup> bytes option) \<Rightarrow> (storage_slot \<rightharpoonup> bytes option)" where
  "oc_effect cd (OW_Set k v) vis = [Top_Slot k \<mapsto> v]"
| "oc_effect cd (OW_Append k x i) vis = [Top_Slot k \<mapsto> Some (scale_append cd
     (case vis (Top_Slot k) of None \<Rightarrow> Some i | Some v \<Rightarrow> v) x)]"
| "oc_effect cd (OW_Clear_Prefix p) vis = on_top (cleared (\<lambda>k. starts_with k p) (\<lambda>k. vis (Top_Slot k)))"
| "oc_effect cd (OW_Child_Set ci k v) vis = [Child_Slot (child_storage_key ci) k \<mapsto> v]"
| "oc_effect cd (OW_Child_Clear ci) vis =
     on_child (child_storage_key ci) (cleared (\<lambda>_. True) (\<lambda>k. vis (Child_Slot (child_storage_key ci) k)))"
| "oc_effect cd (OW_Child_Clear_Prefix ci p) vis =
     on_child (child_storage_key ci) (cleared (\<lambda>k. starts_with k p) (\<lambda>k. vis (Child_Slot (child_storage_key ci) k)))"
| "oc_effect cd (OW_Offchain k v) vis = [Offchain_Slot (STORAGE_PREFIX, k) \<mapsto> v]"
| "oc_effect cd (OW_Read k) vis = Map.empty"
| "oc_effect cd (OW_Child_Read ci k) vis = Map.empty"

text \<open>The operations that leave the cached root in place.\<close>

fun keeps_cache :: "oc_write \<Rightarrow> bool" where
  "keeps_cache (OW_Append _ _ _) = True"
| "keeps_cache (OW_Offchain _ _) = True"
| "keeps_cache (OW_Read _) = True"
| "keeps_cache (OW_Child_Read _ _) = True"
| "keeps_cache _ = False"

definition oc_close ::
  "codecs \<Rightarrow> bool \<Rightarrow> ('h, 't) overlayed_changes \<Rightarrow> ((no_open_transaction + unit) \<times> ('h, 't) overlayed_changes) run" where
  "oc_close cx rollback oc = (if rollback then oc_rollback_transaction cx oc else oc_commit_transaction cx oc)"

context overlay_codecs
begin

lemma apply_ok:
  fixes oc :: "('h, 't) overlayed_changes"
  assumes "oc_inv cdc oc"
  shows "\<exists>oc'. oc_apply cx w oc = Some oc' \<and>
    oc_wrote cdc (oc_effect cdc w (visible (oc_layers cdc oc))) oc oc' \<and>
    oc_storage_transaction_cache oc' = (if keeps_cache w then oc_storage_transaction_cache oc else None)"
proof (cases w)
  case (OW_Set k v)
  with set_storage_ok [OF assms, of k v] show ?thesis by auto
next
  case (OW_Append k x i)
  with append_ok [OF assms, of k "\<lambda>_. Some i" i x] show ?thesis by auto
next
  case (OW_Clear_Prefix p)
  with clear_prefix_ok [OF assms, of p] show ?thesis by (fastforce simp: cleared_def)
next
  case (OW_Child_Set ci k v)
  with set_child_storage_ok [OF assms, of ci k v] show ?thesis by auto
next
  case (OW_Child_Clear ci)
  with clear_child_ok [OF assms, of ci "\<lambda>_. True"] show ?thesis
    by (auto simp: cleared_def oc_clear_child_storage_def)
next
  case (OW_Child_Clear_Prefix ci p)
  with clear_child_ok [OF assms, of ci "\<lambda>k. starts_with k p"] show ?thesis
    by (auto simp: cleared_def oc_clear_child_prefix_def)
next
  case (OW_Offchain k v)
  with set_offchain_ok [OF assms, of k v] show ?thesis by auto
next
  case (OW_Read k)
  with storage_ok [OF assms, of k] show ?thesis by auto
next
  case (OW_Child_Read ci k)
  with child_storage_ok [OF assms, of ci k] show ?thesis by auto
qed

lemma close_refused_ok:
  assumes inv: "oc_inv cdc oc" and none: "\<not> Suc (om_protected (oc_top oc)) < length (oc_layers cdc oc)"
  shows "oc_close cx rollback oc = Some (Inl NoOpenTransaction, if rollback then mark_dirty oc else oc)"
proof -
  have "\<not> Suc (om_protected (oc_top oc)) < length (overlay_layers cdc (oc_top oc))"
    using none by (simp add: oc_transaction_depth_def)
  then have "close_transaction cdc rb (oc_top oc) = Some (Inl NoOpenTransaction, oc_top oc)" for rb
    using overlay_close_refused inv_parts(1) [OF inv] by blast
  then show ?thesis
    by (simp add: oc_close_def oc_rollback_transaction_def oc_commit_transaction_def mark_dirty_def)
qed

end

sublocale overlay_codecs \<subseteq> overlay: txn_store "oc_inv cdc :: ('h, 't) overlayed_changes \<Rightarrow> bool" "oc_layers cdc"
  "\<lambda>oc. om_protected (oc_top oc)" "\<lambda>oc. om_in_runtime (oc_top oc)" "oc_apply cx" "oc_effect cdc"
  oc_start_transaction "oc_close cx" oc_enter_runtime "oc_exit_runtime cx"
proof
  fix oc :: "('h, 't) overlayed_changes" and w
  assume "oc_inv cdc oc"
  from apply_ok [OF this, of w] show "\<exists>oc'. oc_apply cx w oc = Some oc' \<and> oc_inv cdc oc' \<and>
      om_protected (oc_top oc') = om_protected (oc_top oc) \<and> om_in_runtime (oc_top oc') = om_in_runtime (oc_top oc) \<and>
      oc_layers cdc oc' = (hd (oc_layers cdc oc) ++ oc_effect cdc w (visible (oc_layers cdc oc))) # tl (oc_layers cdc oc)"
    unfolding oc_wrote_def by blast
next
  fix oc :: "('h, 't) overlayed_changes" and rollback
  assume "oc_inv cdc oc" "Suc (om_protected (oc_top oc)) < length (oc_layers cdc oc)"
  from rollback_ok [OF this] commit_ok [OF this]
  show "\<exists>oc'. oc_close cx rollback oc = Some (Inr (), oc') \<and> oc_inv cdc oc' \<and>
      om_protected (oc_top oc') = om_protected (oc_top oc) \<and> om_in_runtime (oc_top oc') = om_in_runtime (oc_top oc) \<and>
      oc_layers cdc oc' = (if rollback then tl (oc_layers cdc oc) else merge_top (oc_layers cdc oc))"
    unfolding oc_close_def by (cases rollback) auto
next
  fix oc :: "('h, 't) overlayed_changes" and rollback
  assume inv: "oc_inv cdc oc" and "\<not> Suc (om_protected (oc_top oc)) < length (oc_layers cdc oc)"
  from close_refused_ok [OF this, of rollback] oc_wrote_mark(1) [OF inv]
  show "\<exists>oc'. oc_close cx rollback oc = Some (Inl NoOpenTransaction, oc') \<and> oc_inv cdc oc' \<and>
      om_protected (oc_top oc') = om_protected (oc_top oc) \<and> om_in_runtime (oc_top oc') = om_in_runtime (oc_top oc) \<and>
      oc_layers cdc oc' = oc_layers cdc oc"
    using inv oc_wrote_layers [OF oc_wrote_mark(1) [OF inv]] by (cases rollback) (auto simp: oc_wrote_def)
next
  fix oc :: "('h, 't) overlayed_changes"
  assume "oc_inv cdc oc" "\<not> om_in_runtime (oc_top oc)"
  from enter_ok [OF this] show "\<exists>oc'. oc_enter_runtime oc = Some (Inr (), oc') \<and> oc_inv cdc oc' \<and> om_in_runtime (oc_top oc') \<and>
      om_protected (oc_top oc') = length (oc_layers cdc oc) - 1 \<and> oc_layers cdc oc' = oc_layers cdc oc" by blast
next
  fix oc :: "('h, 't) overlayed_changes"
  assume "oc_inv cdc oc" "om_in_runtime (oc_top oc)"
  from exit_ok [OF this] show "\<exists>oc'. oc_exit_runtime cx oc = Some (Inr (), oc') \<and> oc_inv cdc oc' \<and>
      \<not> om_in_runtime (oc_top oc') \<and>
      oc_layers cdc oc' = drop (length (oc_layers cdc oc) - Suc (om_protected (oc_top oc))) (oc_layers cdc oc)" by blast
next
  fix oc :: "('h, 't) overlayed_changes"
  assume "om_in_runtime (oc_top oc)"
  then show "oc_enter_runtime oc = Some (Inl AlreadyInRuntime, oc)"
    using store.enter_refused [of "oc_top oc"] by (simp add: oc_enter_runtime_def)
next
  fix oc :: "('h, 't) overlayed_changes"
  assume "\<not> om_in_runtime (oc_top oc)"
  then show "oc_exit_runtime cx oc = Some (Inl NotInRuntime, oc)"
    using store.exit_refused [of "oc_top oc"] by (simp add: oc_exit_runtime_def)
qed (use protected_depth start_ok store.prot_client in auto)

end
