(* ===== verification/Overlayed_Root.thy ===== *)
theory Overlayed_Root
  imports Overlayed_Correct
begin

text \<open>
  Storage roots: the changes handed to the backend are the visible ones in key order, whatever the open
  transactions, and the cached root is the one of the current changes as long as every change in
  between goes through an operation that clears the cache.
\<close>

subsection \<open>Deltas\<close>

definition delta_spec :: "compact_codec \<Rightarrow> bytes changeset \<Rightarrow> delta" where
  "delta_spec cd m = map (\<lambda>(k, ts). (k, hd (entry_views cd ts))) (changes m)"

definition child_spec :: "compact_codec \<Rightarrow> (bytes, bytes changeset \<times> child_info) btree \<Rightarrow> (child_info \<times> delta) list" where
  "child_spec cd cs = map (\<lambda>(k, (m, info)). (info, delta_spec cd m)) cs"

definition current_root ::
  "compact_codec \<Rightarrow> ('e, 'h, 't) backend \<Rightarrow> state_version \<Rightarrow> ('h, 't) overlayed_changes \<Rightarrow> 'h \<times> 't" where
  "current_root cd b version oc =
     full_storage_root b (delta_spec cd (oc_top oc)) (child_spec cd (oc_children oc)) version"

definition infos :: "(bytes, bytes changeset \<times> child_info) btree \<Rightarrow> (bytes \<times> child_info) list" where
  "infos cs = map (\<lambda>(k, (m, info)). (k, info)) cs"

definition cache_ok :: "compact_codec \<Rightarrow> ('e, 'h, 't) backend \<Rightarrow> ('h, 't) overlayed_changes \<Rightarrow> bool" where
  "cache_ok cd b oc \<longleftrightarrow> (\<forall>cache. oc_storage_transaction_cache oc = Some cache \<longrightarrow>
     current_root cd b (stc_state_version cache) oc = (stc_root cache, stc_transaction cache))"

lemma keys_delta_spec [simp]: "map fst (delta_spec cd m) = map fst (changes m)"
  by (auto simp: delta_spec_def)

lemma keys_infos: "map fst (infos cs) = map fst cs"
  by (auto simp: infos_def)

lemma infos_simps [simp]: "infos [] = []" "infos ((k, (m, info)) # cs) = (k, info) # infos cs"
  by (simp_all add: infos_def)

lemma infos_insert:
  assumes "bt_wf cs" "bt_get cs k = Some (m, info)"
  shows "infos (bt_insert k (m', info) cs) = infos cs"
  using assms
proof (induction cs)
  case (Cons e cs)
  obtain j n i where e: "e = (j, (n, i))" by (cases e) auto
  show ?case
  proof (cases "k = j")
    case False
    then have "bt_get cs k = Some (m, info)" "j < k"
      using Cons.prems e by (auto simp: bt_wf_Cons dest!: map_of_SomeD)
    then show ?thesis using Cons.IH Cons.prems e by (auto simp: bt_wf_Cons)
  qed (use Cons.prems e in simp)
qed simp

lemma infos_for_children: "for_children f cs = Some cs' \<Longrightarrow> infos cs' = infos cs"
  by (induction f cs arbitrary: cs' rule: for_children.induct) (auto split: bind_splits)

definition no_append :: "oc_write txn_op \<Rightarrow> bool" where
  "no_append op = (case op of Op_Write (OW_Append _ _ _) \<Rightarrow> False | _ \<Rightarrow> True)"

context overlay_codecs
begin

lemma delta_spec_get:
  assumes "overlay_inv cdc m"
  shows "bt_wf (delta_spec cdc m)" "bt_get (delta_spec cdc m) = visible (overlay_layers cdc m)"
proof -
  have wf: "bt_wf (changes m)" using assms by (simp add: om_inv_def)
  then show "bt_wf (delta_spec cdc m)" by (simp add: bt_wf_def)
  have ne: "ts \<noteq> []" if "bt_get (changes m) k = Some ts" for k ts
    using assms that by (auto simp: om_inv_def)
  have "bt_get (delta_spec cdc m) k = visible (overlay_layers cdc m) k" for k
  proof (cases "bt_get (changes m) k")
    case None
    then show ?thesis using entry.visible_lay [OF assms, of k] by (simp add: delta_spec_def)
  next
    case (Some ts)
    with ne [OF Some] show ?thesis
      using entry.visible_lay [OF assms, of k] by (cases ts) (simp_all add: delta_spec_def)
  qed
  then show "bt_get (delta_spec cdc m) = visible (overlay_layers cdc m)" by (rule ext)
qed

lemma delta_spec_cong:
  assumes "overlay_inv cdc m" "overlay_inv cdc m'" "visible (overlay_layers cdc m') = visible (overlay_layers cdc m)"
  shows "delta_spec cdc m' = delta_spec cdc m"
  using assms delta_spec_get bt_canonical by metis

lemma delta_of_ok:
  assumes "\<forall>(k, ts) \<in> set es. ts \<noteq> [] \<and> good_entry cdc ts"
  shows "\<exists>es'. delta_of cdc es = Some (map (\<lambda>(k, ts). (k, hd (entry_views cdc ts))) es, es') \<and>
    list_all2 (\<lambda>(k, ts) (k', ts'). k' = k \<and> good_entry cdc ts' \<and> entry_views cdc ts' = entry_views cdc ts) es es'"
  using assms
proof (induction es)
  case (Cons e es)
  obtain k ts where e: "e = (k, ts)" by (cases e)
  obtain es' where es': "delta_of cdc es = Some (map (\<lambda>(k, ts). (k, hd (entry_views cdc ts))) es, es')"
    "list_all2 (\<lambda>(k, ts) (k', ts'). k' = k \<and> good_entry cdc ts' \<and> entry_views cdc ts' = entry_views cdc ts) es es'"
    using Cons by auto
  obtain ts' where "entry_value cdc ts = Some (hd (entry_views cdc ts), ts')" "good_entry cdc ts'"
    "entry_views cdc ts' = entry_views cdc ts"
    using entry_value_views [of ts] Cons.prems e by auto
  with e es' show ?case by simp
qed simp

lemma same_views_get:
  assumes "list_all2 (\<lambda>(k, ts) (k', ts'). k' = k \<and> good_entry cdc ts' \<and> entry_views cdc ts' = entry_views cdc ts) es es'"
  shows "map fst es' = map fst es" "rel_option (\<lambda>ts ts'. good_entry cdc ts' \<and> entry_views cdc ts' = entry_views cdc ts)
    (bt_get es k) (bt_get es' k)"
  using assms by (induction es es') auto

lemma om_delta_ok:
  assumes "overlay_inv cdc m"
  shows "\<exists>m'. om_delta cdc m = Some (delta_spec cdc m, m') \<and> overlay_inv cdc m' \<and> locked m m' \<and>
    overlay_layers cdc m' = overlay_layers cdc m"
proof -
  have wf: "bt_wf (changes m)" using assms by (simp add: om_inv_def)
  have "\<forall>(k, ts) \<in> set (changes m). ts \<noteq> [] \<and> good_entry cdc ts"
    using assms bt_get_Some_iff [OF wf] by (auto simp: om_inv_def)
  from delta_of_ok [OF this] obtain es' where es': "delta_of cdc (changes m) = Some (delta_spec cdc m, es')"
    "list_all2 (\<lambda>(k, ts) (k', ts'). k' = k \<and> good_entry cdc ts' \<and> entry_views cdc ts' = entry_views cdc ts) (changes m) es'"
    unfolding delta_spec_def by blast
  let ?m = "m\<lparr>changes := es'\<rparr>"
  note same = same_views_get [OF es'(2)]
  have views: "om_views (entry_views cdc) ?m = om_views (entry_views cdc) m"
  proof
    fix k
    show "om_views (entry_views cdc) ?m k = om_views (entry_views cdc) m k"
      using same(2) [of k] by (cases "bt_get (changes m) k"; cases "bt_get es' k") (auto simp: om_views_def)
  qed
  have good: "ts \<noteq> [] \<and> good_entry cdc ts" if g: "bt_get es' k = Some ts" for k ts
  proof -
    obtain ts0 where ts0: "bt_get (changes m) k = Some ts0" "good_entry cdc ts" "entry_views cdc ts = entry_views cdc ts0"
      using same(2) [of k] g by (cases "bt_get (changes m) k") auto
    then have "ts0 \<noteq> []" using assms by (auto simp: om_inv_def)
    then have "entry_views cdc ts \<noteq> []" using ts0(3) by simp
    then show ?thesis using ts0(2) by (cases ts) auto
  qed
  have "overlay_inv cdc ?m"
    using assms good views bt_wf_same_keys [OF same(1)] by (simp add: om_inv_def transaction_depth_def)
  moreover have "overlay_layers cdc ?m = overlay_layers cdc m" using views by (simp add: om_layers_def)
  moreover have "locked m ?m"
    by (simp add: locked_def transaction_depth_def om_protected_def om_in_runtime_def)
  ultimately show ?thesis using es'(1) by (simp add: om_delta_def)
qed

lemma child_deltas_ok:
  assumes "\<forall>(k, (m, info)) \<in> set cs. overlay_inv cdc m"
  shows "\<exists>cs'. child_deltas cdc cs = Some (child_spec cdc cs, cs') \<and> infos cs' = infos cs \<and>
    (\<forall>c. bt_get cs c = None \<longleftrightarrow> bt_get cs' c = None) \<and>
    (\<forall>c m info. bt_get cs c = Some (m, info) \<longrightarrow> (\<exists>m'. bt_get cs' c = Some (m', info) \<and>
      overlay_inv cdc m' \<and> locked m m' \<and> overlay_layers cdc m' = overlay_layers cdc m))"
  using assms
proof (induction cs)
  case (Cons e cs)
  obtain k m info where e: "e = (k, (m, info))" by (cases e) auto
  obtain cs' where cs': "child_deltas cdc cs = Some (child_spec cdc cs, cs')" "infos cs' = infos cs"
    "\<forall>c. bt_get cs c = None \<longleftrightarrow> bt_get cs' c = None"
    "\<forall>c m info. bt_get cs c = Some (m, info) \<longrightarrow> (\<exists>m'. bt_get cs' c = Some (m', info) \<and>
      overlay_inv cdc m' \<and> locked m m' \<and> overlay_layers cdc m' = overlay_layers cdc m)"
    using Cons by auto
  obtain m' where m': "om_delta cdc m = Some (delta_spec cdc m, m')" "overlay_inv cdc m'" "locked m m'"
    "overlay_layers cdc m' = overlay_layers cdc m"
    using om_delta_ok [of m] Cons.prems e by auto
  with e cs' show ?case
    by (intro exI [of _ "(k, (m', info)) # cs'"]) (auto simp: child_spec_def)
qed (simp add: child_spec_def)

text \<open>The deltas are a function of what is visible and of which children are there.\<close>

lemma child_spec_cong:
  assumes "bt_wf cs" "infos cs' = infos cs"
    "\<And>c m info. bt_get cs c = Some (m, info) \<Longrightarrow>
      \<exists>m'. bt_get cs' c = Some (m', info) \<and> delta_spec cdc m' = delta_spec cdc m"
  shows "child_spec cdc cs' = child_spec cdc cs"
  using assms
proof (induction cs arbitrary: cs')
  case (Cons e cs)
  obtain k m info where e: "e = (k, (m, info))" by (cases e) auto
  obtain m' rest where cs': "cs' = (k, (m', info)) # rest" "infos rest = infos cs"
    using Cons.prems(2) e by (cases cs') (auto simp: infos_def)
  have "\<exists>m'. bt_get rest c = Some (m', i) \<and> delta_spec cdc m' = delta_spec cdc n"
    if g: "bt_get cs c = Some (n, i)" for c n i
  proof -
    have "c \<noteq> k" using g Cons.prems(1) e by (auto simp: bt_wf_Cons dest!: map_of_SomeD)
    then show ?thesis using Cons.prems(3) [of c n i] g e cs' by simp
  qed
  then have "child_spec cdc rest = child_spec cdc cs"
    using Cons.IH [of rest] Cons.prems(1) e cs' by (simp add: bt_wf_Cons)
  moreover have "delta_spec cdc m' = delta_spec cdc m" using Cons.prems(3) [of k m info] e cs' by simp
  ultimately show ?case using e cs' by (simp add: child_spec_def)
qed (simp add: infos_def)

lemma deltas_cong:
  fixes oc oc' :: "('h, 't) overlayed_changes"
  assumes "oc_inv cdc oc" "oc_inv cdc oc'" "infos (oc_children oc') = infos (oc_children oc)"
    "\<And>k. visible (oc_layers cdc oc') (Top_Slot k) = visible (oc_layers cdc oc) (Top_Slot k)"
    "\<And>c k. visible (oc_layers cdc oc') (Child_Slot c k) = visible (oc_layers cdc oc) (Child_Slot c k)"
  shows "delta_spec cdc (oc_top oc') = delta_spec cdc (oc_top oc)"
    "child_spec cdc (oc_children oc') = child_spec cdc (oc_children oc)"
proof -
  show "delta_spec cdc (oc_top oc') = delta_spec cdc (oc_top oc)"
    using assms(4) inv_parts(1) assms(1,2)
    by (intro delta_spec_cong) (simp_all add: visible_oc_layers(1) [OF assms(1)] visible_oc_layers(1) [OF assms(2)] fun_eq_iff)
  show "child_spec cdc (oc_children oc') = child_spec cdc (oc_children oc)"
  proof (rule child_spec_cong [OF inv_parts(4) [OF assms(1)] assms(3)])
    fix c m info
    assume m: "bt_get (oc_children oc) c = Some (m, info)"
    have wf: "bt_wf (oc_children oc)" "bt_wf (oc_children oc')" using inv_parts(4) assms(1,2) by auto
    have "(c, info) \<in> set (infos (oc_children oc))"
      using map_of_SomeD [OF m] by (force simp: infos_def)
    then obtain m' where m': "bt_get (oc_children oc') c = Some (m', info)"
      using bt_get_Some_iff [OF wf(2)] unfolding assms(3) [symmetric] by (auto simp: infos_def)
    have "overlay_inv cdc m" "overlay_inv cdc m'"
      using inv_parts(5) [OF assms(1) m] inv_parts(5) [OF assms(2) m'] by (simp_all add: child_ok_def)
    moreover have "visible (overlay_layers cdc m') = visible (overlay_layers cdc m)"
      using assms(5) [of c] visible_oc_layers(2) [OF assms(1)] visible_oc_layers(2) [OF assms(2)] m m'
      by (simp add: fun_eq_iff)
    ultimately show "\<exists>m'. bt_get (oc_children oc') c = Some (m', info) \<and> delta_spec cdc m' = delta_spec cdc m"
      using m' delta_spec_cong by blast
  qed
qed

lemma current_root_cong:
  assumes "oc_inv cdc oc" "oc_inv cdc oc'" "infos (oc_children oc') = infos (oc_children oc)"
    "\<And>k. visible (oc_layers cdc oc') (Top_Slot k) = visible (oc_layers cdc oc) (Top_Slot k)"
    "\<And>c k. visible (oc_layers cdc oc') (Child_Slot c k) = visible (oc_layers cdc oc) (Child_Slot c k)"
  shows "current_root cdc b version oc' = current_root cdc b version oc"
  unfolding current_root_def by (simp only: deltas_cong [OF assms])

lemma current_root_same:
  assumes "oc_inv cdc oc" "oc_inv cdc oc'" "infos (oc_children oc') = infos (oc_children oc)"
    "visible (oc_layers cdc oc') = visible (oc_layers cdc oc)"
  shows "current_root cdc b version oc' = current_root cdc b version oc"
  by (rule current_root_cong [OF assms(1-3)]) (simp_all add: assms(4))

lemma cache_ok_keeps:
  assumes "cache_ok cdc b oc" "oc_storage_transaction_cache oc' = oc_storage_transaction_cache oc"
    "\<And>version. current_root cdc b version oc' = current_root cdc b version oc"
  shows "cache_ok cdc b oc'"
  using assms by (simp add: cache_ok_def)

lemma cache_ok_dirty: "oc_storage_transaction_cache oc = None \<Longrightarrow> cache_ok cdc b oc"
  by (simp add: cache_ok_def)

subsection \<open>Computing the root\<close>

lemma recompute_ok:
  fixes oc :: "('h, 't) overlayed_changes"
  assumes inv: "oc_inv cdc oc"
  shows "\<exists>m cs. om_delta cdc (oc_top oc) = Some (delta_spec cdc (oc_top oc), m) \<and>
    child_deltas cdc (oc_children oc) = Some (child_spec cdc (oc_children oc), cs) \<and>
    infos cs = infos (oc_children oc) \<and>
    (\<forall>oc' :: ('h, 't) overlayed_changes. oc_top oc' = m \<and> oc_children oc' = cs \<and> oc_offchain oc' = oc_offchain oc \<longrightarrow>
      oc_wrote cdc Map.empty oc oc')"
proof -
  note pt = inv_parts [OF inv]
  obtain m where m: "om_delta cdc (oc_top oc) = Some (delta_spec cdc (oc_top oc), m)" "overlay_inv cdc m"
    "locked (oc_top oc) m" "overlay_layers cdc m = overlay_layers cdc (oc_top oc)"
    using om_delta_ok [OF pt(1)] by blast
  have kids: "\<forall>(k, (m, info)) \<in> set (oc_children oc). overlay_inv cdc m"
    using oc_inv_child [OF inv] by (auto simp: child_ok_def)
  obtain cs where cs: "child_deltas cdc (oc_children oc) = Some (child_spec cdc (oc_children oc), cs)"
    "infos cs = infos (oc_children oc)" "\<forall>c. bt_get (oc_children oc) c = None \<longleftrightarrow> bt_get cs c = None"
    "\<forall>c m info. bt_get (oc_children oc) c = Some (m, info) \<longrightarrow> (\<exists>m'. bt_get cs c = Some (m', info) \<and>
      overlay_inv cdc m' \<and> locked m m' \<and> overlay_layers cdc m' = overlay_layers cdc m)"
    using child_deltas_ok [OF kids] by blast
  have wf: "bt_wf cs" using pt(4) bt_wf_same_keys keys_infos cs(2) by metis
  have "oc_wrote cdc Map.empty oc oc'"
    if oc': "oc_top oc' = m" "oc_children oc' = cs" "oc_offchain oc' = oc_offchain oc" for oc' :: "('h, 't) overlayed_changes"
  proof -
    let ?d = "dropped 0 (om_protected (oc_top oc)) (om_in_runtime (oc_top oc))"
    have "oc_inv cdc oc' \<and> om_protected (oc_top oc') = om_protected (oc_top oc) \<and>
      om_in_runtime (oc_top oc') = om_in_runtime (oc_top oc) \<and> oc_layers cdc oc' = drop 0 (oc_layers cdc oc)"
    proof (rule drop_ok [OF inv])
      fix c m1 info
      assume k: "bt_get (oc_children oc) c = Some (m1, info)"
      then obtain m' where m': "bt_get cs c = Some (m', info)" "overlay_inv cdc m'" "locked m1 m'"
        "overlay_layers cdc m' = overlay_layers cdc m1" using cs(4) by blast
      have "locked (oc_top oc) m1" using pt(5) [OF k] by (simp add: child_ok_def)
      then have "?d m1 m'" using m' by (simp add: dropped_def locked_def)
      then show "\<exists>m'. ?d m1 m' \<and> (bt_get (oc_children oc') c = Some (m', info) \<or>
          bt_get (oc_children oc') c = None \<and> om_is_empty m')"
        using m'(1) oc'(2) by blast
    qed (use oc' m pt wf cs(3) in \<open>auto simp: dropped_def locked_def\<close>)
    then show ?thesis using oc_layers_Cons [of cdc oc] oc_layers_hd [of cdc oc] by (simp add: oc_wrote_def)
  qed
  with m(1) cs(1,2) show ?thesis by blast
qed

lemma storage_root_ok:
  fixes oc :: "('h, 't) overlayed_changes"
  assumes inv: "oc_inv cdc oc" and ok: "cache_ok cdc b oc"
  shows "\<exists>cached oc'. oc_storage_root cx b version oc = Some ((fst (current_root cdc b version oc), cached), oc') \<and>
    (cached \<longrightarrow> oc' = oc) \<and> oc_wrote cdc Map.empty oc oc' \<and> cache_ok cdc b oc' \<and>
    infos (oc_children oc') = infos (oc_children oc) \<and> oc_transaction_index_ops oc' = oc_transaction_index_ops oc \<and>
    (\<exists>cache. oc_storage_transaction_cache oc' = Some cache \<and> stc_state_version cache = version \<and>
      (stc_root cache, stc_transaction cache) = current_root cdc b version oc)"
proof (cases "\<exists>cache. oc_storage_transaction_cache oc = Some cache \<and> stc_state_version cache = version")
  case True
  then obtain cache where c: "oc_storage_transaction_cache oc = Some cache" "stc_state_version cache = version" by blast
  then have "current_root cdc b version oc = (stc_root cache, stc_transaction cache)" using ok by (auto simp: cache_ok_def)
  then show ?thesis using c ok oc_wrote_empty [OF inv locked_refl] by (auto simp: oc_storage_root_def)
next
  case False
  obtain m cs where r: "om_delta cdc (oc_top oc) = Some (delta_spec cdc (oc_top oc), m)"
    "child_deltas cdc (oc_children oc) = Some (child_spec cdc (oc_children oc), cs)" "infos cs = infos (oc_children oc)"
    "\<forall>oc' :: ('h, 't) overlayed_changes. oc_top oc' = m \<and> oc_children oc' = cs \<and> oc_offchain oc' = oc_offchain oc \<longrightarrow>
      oc_wrote cdc Map.empty oc oc'"
    using recompute_ok [OF inv] by blast
  obtain root tx where rt: "current_root cdc b version oc = (root, tx)" by fastforce
  let ?oc = "oc\<lparr>oc_top := m, oc_children := cs, oc_storage_transaction_cache :=
    Some \<lparr>stc_transaction = tx, stc_root = root, stc_state_version = version\<rparr>\<rparr>"
  have run: "oc_storage_root cx b version oc = Some ((root, False), ?oc)"
    using False r(1,2) rt by (auto simp: oc_storage_root_def current_root_def Let_def split: option.split)
  have w: "oc_wrote cdc Map.empty oc ?oc" using r(4) by simp
  have same: "current_root cdc b v ?oc = current_root cdc b v oc" for v
    using current_root_same [OF inv oc_wrote_inv [OF w]] oc_wrote_layers [OF w] r(3) by simp
  then have "cache_ok cdc b ?oc" using rt by (simp add: cache_ok_def)
  then show ?thesis using run w r(3) rt by (intro exI [of _ False] exI [of _ ?oc]) simp
qed

subsection \<open>Operations and the cache\<close>

lemma keeps_infos:
  assumes "oc_inv cdc oc" "oc_apply cx w oc = Some oc'" "keeps_cache w" "no_append (Op_Write w)"
  shows "infos (oc_children oc') = infos (oc_children oc)"
  using assms(2-4) inv_parts(4) [OF assms(1)]
  by (cases w) (auto simp: no_append_def oc_set_offchain_storage_def oc_storage_def oc_child_storage_def Let_def
      infos_insert split: bind_splits option.splits)

lemma keeps_visible:
  assumes "keeps_cache w" "no_append (Op_Write w)" "ls \<noteq> []"
  shows "visible ((hd ls ++ oc_effect cdc w vis) # tl ls) (Top_Slot k) = visible ls (Top_Slot k)"
    "visible ((hd ls ++ oc_effect cdc w vis) # tl ls) (Child_Slot c k) = visible ls (Child_Slot c k)"
  using assms by (cases ls; cases w; simp add: no_append_def map_add_def)+

lemma apply_cache_ok:
  assumes inv: "oc_inv cdc oc" and ok: "cache_ok cdc b oc" and w: "no_append (Op_Write w)"
    and run: "oc_apply cx w oc = Some oc'"
  shows "cache_ok cdc b oc'"
proof -
  let ?L = "oc_layers cdc oc"
  have wr: "oc_wrote cdc (oc_effect cdc w (visible ?L)) oc oc'"
    "oc_storage_transaction_cache oc' = (if keeps_cache w then oc_storage_transaction_cache oc else None)"
    using apply_ok [OF inv, of w] run by auto
  show ?thesis
  proof (cases "keeps_cache w")
    case True
    have ne: "?L \<noteq> []" by (simp add: oc_layers_def)
    have "current_root cdc b version oc' = current_root cdc b version oc" for version
      by (rule current_root_cong [OF inv oc_wrote_inv [OF wr(1)] keeps_infos [OF inv run True w]])
        (use wr(1) keeps_visible [OF True w ne] in \<open>simp_all add: oc_wrote_def\<close>)
    with True wr(2) show ?thesis using cache_ok_keeps [OF ok] by simp
  qed (use wr(2) in \<open>simp add: cache_ok_dirty\<close>)
qed

lemma start_cache_ok:
  assumes "oc_inv cdc oc" "cache_ok cdc b oc"
  shows "cache_ok cdc b (oc_start_transaction oc)"
proof -
  have "infos (oc_children (oc_start_transaction oc)) = infos (oc_children oc)"
    by (auto simp: oc_start_transaction_def infos_def)
  then have "current_root cdc b version (oc_start_transaction oc) = current_root cdc b version oc" for version
    using start_ok [OF assms(1)] by (intro current_root_same) (simp_all add: assms(1))
  then show ?thesis using cache_ok_keeps [OF assms(2)] by (simp add: oc_start_transaction_def)
qed

lemma commit_cache_ok:
  assumes inv: "oc_inv cdc oc" and ok: "cache_ok cdc b oc" and run: "oc_commit_transaction cx oc = Some (r, oc')"
  shows "cache_ok cdc b oc'"
proof (cases "Suc (om_protected (oc_top oc)) < length (oc_layers cdc oc)")
  case True
  have "infos (oc_children oc') = infos (oc_children oc)"
    "oc_storage_transaction_cache oc' = oc_storage_transaction_cache oc"
    using run by (auto simp: oc_commit_transaction_def infos_for_children split: bind_splits sum.splits)
  moreover have "oc_inv cdc oc'" "oc_layers cdc oc' = merge_top (oc_layers cdc oc)"
    using commit_ok [OF inv True] run by auto
  ultimately have "current_root cdc b version oc' = current_root cdc b version oc" for version
    by (intro current_root_same [OF inv]) simp_all
  then show ?thesis
    using cache_ok_keeps [OF ok] \<open>oc_storage_transaction_cache oc' = oc_storage_transaction_cache oc\<close> by simp
next
  case False
  then show ?thesis using close_refused_ok [OF inv False, of False] run ok by (simp add: oc_close_def)
qed

lemma rollback_dirty:
  "oc_rollback_transaction cx oc = Some (r, oc') \<Longrightarrow> oc_storage_transaction_cache oc' = None"
  by (auto simp: oc_rollback_transaction_def mark_dirty_def Let_def split: bind_splits sum.splits)

lemma enter_cache_ok:
  assumes inv: "oc_inv cdc oc" and ok: "cache_ok cdc b oc" and run: "oc_enter_runtime oc = Some (r, oc')"
  shows "cache_ok cdc b oc'"
proof (cases "om_in_runtime (oc_top oc)")
  case True
  then show ?thesis using overlay.enter_refused [of oc] run ok by simp
next
  case False
  have "infos (oc_children oc') = infos (oc_children oc)"
    and cache: "oc_storage_transaction_cache oc' = oc_storage_transaction_cache oc"
    using run by (auto simp: oc_enter_runtime_def infos_for_children split: bind_splits sum.splits prod.splits)
  moreover have "oc_inv cdc oc'" "oc_layers cdc oc' = oc_layers cdc oc"
    using enter_ok [OF inv False] run by auto
  ultimately have "current_root cdc b version oc' = current_root cdc b version oc" for version
    by (intro current_root_same [OF inv]) simp_all
  then show ?thesis using cache_ok_keeps [OF ok cache] by simp
qed

lemma run_cache_ok:
  fixes oc :: "('h, 't) overlayed_changes"
  assumes "oc_inv cdc oc" "cache_ok cdc b oc" "list_all no_append ops"
    "txn_run (oc_apply cx) oc_start_transaction (oc_close cx) ops oc = Some oc'"
  shows "cache_ok cdc b oc'"
  using assms
proof (induction ops arbitrary: oc)
  case (Cons op ops)
  let ?step = "txn_step (oc_apply cx) oc_start_transaction (oc_close cx) op oc"
  obtain oc1 where oc1: "?step = Some oc1" "oc_inv cdc oc1" using overlay.step_refines [OF Cons.prems(1), of op] by blast
  have "cache_ok cdc b oc1"
  proof (cases op)
    case (Op_Write w)
    then show ?thesis using apply_cache_ok [OF Cons.prems(1,2), of w oc1] Cons.prems(3) oc1(1) by simp
  next
    case Op_Commit
    then show ?thesis using commit_cache_ok [OF Cons.prems(1,2)] oc1(1) by (auto simp: oc_close_def)
  next
    case Op_Rollback
    then show ?thesis using rollback_dirty [of oc _ oc1] oc1(1) by (auto simp: oc_close_def intro: cache_ok_dirty)
  qed (use start_cache_ok [OF Cons.prems(1,2)] oc1(1) in auto)
  then show ?case using Cons.IH [OF oc1(2)] Cons.prems(3,4) oc1(1) by (simp add: txn_run_def)
qed (simp add: txn_run_def)

end

end
