(* ===== verification/Overlayed_Drain.thy ===== *)
theory Overlayed_Drain
  imports Overlayed_Root
begin

text \<open>
  Draining: the changes handed out at the end of a block are the visible ones, with the root and the
  database transaction computed from them.
\<close>

lemma those_map_Some: "(\<And>x. x \<in> set xs \<Longrightarrow> g x = Some (f x)) \<Longrightarrow> those (map g xs) = Some (map f xs)"
  by (induction xs) auto

text \<open>The changes handed out are exactly what a view shows, in key order, for the top trie and the children.\<close>

definition shows_changes :: "(storage_slot \<rightharpoonup> bytes option) \<Rightarrow> delta \<Rightarrow> (bytes \<times> delta) list \<Rightarrow> bool" where
  "shows_changes vis main kids \<longleftrightarrow> bt_wf main \<and> (\<forall>k. bt_get main k = vis (Top_Slot k)) \<and>
     bt_wf kids \<and> list_all (bt_wf \<circ> snd) kids \<and>
     (\<forall>c k. Option.bind (bt_get kids c) (\<lambda>d. bt_get d k) = vis (Child_Slot c k))"

text \<open>A cached root keeps the version it was computed with; the requested one only matters without a cache.\<close>

definition drained_version :: "state_version \<Rightarrow> ('h, 't) overlayed_changes \<Rightarrow> state_version" where
  "drained_version version oc = (case oc_storage_transaction_cache oc of None \<Rightarrow> version
     | Some cache \<Rightarrow> stc_state_version cache)"

lemma offchain_drain_ok:
  assumes "offchain_inv m"
  shows "\<exists>xs. offchain_drain m = Some (xs, om_default) \<and> bt_wf xs \<and> bt_get xs = visible (offchain_layers m)"
proof -
  have wf: "bt_wf (changes m)" using assms(1) by (simp add: om_inv_def)
  have "ts \<noteq> []" if "(k, ts) \<in> set (changes m)" for k ts
    using assms(1) bt_get_Some_iff [OF wf, of k ts] that by (cases k) (auto simp: om_inv_def)
  then have "those (map (\<lambda>(k, ts). map_option (Pair k) (into_value ts)) (changes m))
      = Some (map (\<lambda>(k, ts). (k, iv_value (hd ts))) (changes m))"
    by (intro those_map_Some) (fastforce simp: into_value_def neq_Nil_conv)
  moreover have "bt_get (map (\<lambda>(k, ts). (k, iv_value (hd ts))) (changes m)) k = visible (offchain_layers m) k" for k
  proof -
    have "ts \<noteq> []" if "bt_get (changes m) k = Some ts" for ts using assms that by (cases k) (auto simp: om_inv_def)
    then show ?thesis unfolding map_of_map offchain_entry.visible_lay [OF assms]
      by (cases "bt_get (changes m) k") (auto simp: neq_Nil_conv)
  qed
  moreover have "bt_wf (map (\<lambda>(k, ts). (k, iv_value (hd ts))) (changes m))"
    using wf by (simp add: bt_wf_def case_prod_unfold comp_def)
  ultimately show ?thesis by (auto simp: offchain_drain_def offchain_into_iter_def)
qed

lemma child_spec_zip: "child_spec cd cs = zip (map snd (infos cs)) (map snd (child_spec cd cs))"
proof -
  have "map snd (infos cs) = map fst (child_spec cd cs)" by (auto simp: child_spec_def infos_def)
  then show ?thesis by (simp only: zip_map_fst_snd)
qed

context overlay_codecs
begin

lemma delta_spec_keys:
  assumes "overlay_inv cdc m"
  shows "delta_spec cdc m = map (\<lambda>k. (k, the (visible (overlay_layers cdc m) k))) (map fst (changes m))"
proof -
  note get = delta_spec_get [OF assms]
  have "x = (fst x, the (visible (overlay_layers cdc m) (fst x)))" if "x \<in> set (delta_spec cdc m)" for x
    using that bt_get_Some_iff [OF get(1), of "fst x" "snd x"] get(2) by (metis option.sel prod.collapse)
  then have "delta_spec cdc m = map (\<lambda>x. (fst x, the (visible (overlay_layers cdc m) (fst x)))) (delta_spec cdc m)"
    by (simp add: map_idI)
  also have "\<dots> = map (\<lambda>k. (k, the (visible (overlay_layers cdc m) k))) (map fst (delta_spec cdc m))"
    by (simp only: map_map comp_def)
  finally show ?thesis by (simp only: keys_delta_spec)
qed

lemma drain_to_options_ok:
  assumes "overlay_inv cdc m" "transaction_depth m = 0"
  shows "drain_to_options cdc m = Some (delta_spec cdc m)"
proof -
  let ?v = "\<lambda>k. the (visible (overlay_layers cdc m) k)"
  obtain xs where xs: "drain_committed m = Some xs" "map fst xs = map fst (changes m)"
    "\<forall>k e. (k, e) \<in> set xs \<longrightarrow> map_option Some (to_option cdc e) = Some (visible (overlay_layers cdc m) k)"
    using drain_visible [OF assms] by blast
  have "to_option cdc e = Some (?v k)" if "(k, e) \<in> set xs" for k e
    using xs(3) [rule_format, OF that] by (metis map_option_eq_Some option.sel)
  then have "those (map (\<lambda>(k, e). map_option (Pair k) (to_option cdc e)) xs) = Some (map (\<lambda>(k, e). (k, ?v k)) xs)"
    by (intro those_map_Some) auto
  moreover have "map (\<lambda>(k, e). (k, ?v k)) xs = map (\<lambda>k. (k, ?v k)) (map fst xs)" by auto
  ultimately show ?thesis using xs(1,2) delta_spec_keys [OF assms(1)] by (simp add: drain_to_options_def)
qed

lemma shows_visible:
  assumes "oc_inv cdc oc"
  shows "shows_changes (visible (oc_layers cdc oc)) (delta_spec cdc (oc_top oc))
    (map (\<lambda>(k, (m, _)). (k, delta_spec cdc m)) (oc_children oc))"
proof -
  let ?kids = "map (\<lambda>(k, (m, _)). (k, delta_spec cdc m)) (oc_children oc)"
  note parts = inv_parts [OF assms]
  have "bt_get (map (\<lambda>(k, (m, _)). (k, delta_spec cdc m)) cs) c = map_option (delta_spec cdc \<circ> fst) (bt_get cs c)"
    for cs :: "(bytes, bytes changeset \<times> child_info) btree" and c
    by (induction cs) auto
  note get = this [of "oc_children oc"]
  have "Option.bind (bt_get ?kids c) (\<lambda>d. bt_get d k) = visible (oc_layers cdc oc) (Child_Slot c k)" for c k
    using parts(5) [of c] visible_oc_layers(2) [OF assms, of c k] delta_spec_get(2)
    by (cases "bt_get (oc_children oc) c") (auto simp: get)
  moreover have "bt_wf ?kids" using parts(4) by (simp add: bt_wf_def case_prod_unfold comp_def)
  moreover have "list_all (bt_wf \<circ> snd) ?kids"
    using oc_inv_child [OF assms] delta_spec_get(1) by (fastforce simp: list_all_iff child_ok_def)
  ultimately show ?thesis
    using delta_spec_get [OF parts(1)] visible_oc_layers(1) [OF assms] by (simp add: shows_changes_def)
qed

lemma drain_cached:
  fixes oc :: "('h, 't) overlayed_changes"
  assumes inv: "oc_inv cdc oc" and ok: "cache_ok cdc b oc" and depth: "oc_transaction_depth oc = 0"
  shows "\<exists>oc1 cache. drain_root cx b version oc = Some oc1 \<and> oc_inv cdc oc1 \<and> oc_transaction_depth oc1 = 0 \<and>
    oc_storage_transaction_cache oc1 = Some cache \<and>
    (stc_root cache, stc_transaction cache) = current_root cdc b (drained_version version oc) oc \<and>
    oc_layers cdc oc1 = oc_layers cdc oc \<and>
    child_spec cdc (oc_children oc1) = child_spec cdc (oc_children oc) \<and>
    map fst (oc_children oc1) = map fst (oc_children oc) \<and> oc_transaction_index_ops oc1 = oc_transaction_index_ops oc"
proof (cases "oc_storage_transaction_cache oc")
  case (Some cache)
  then show ?thesis using inv ok depth by (auto simp: cache_ok_def drain_root_def drained_version_def)
next
  case None
  obtain oc1 cache r where oc1: "oc_storage_root cx b version oc = Some (r, oc1)" "oc_wrote cdc Map.empty oc oc1"
    "infos (oc_children oc1) = infos (oc_children oc)" "oc_transaction_index_ops oc1 = oc_transaction_index_ops oc"
    "oc_storage_transaction_cache oc1 = Some cache" "(stc_root cache, stc_transaction cache) = current_root cdc b version oc"
    using storage_root_ok [OF inv ok, of version] by blast
  note lay = oc_wrote_layers [OF oc1(2)]
  have d: "child_spec cdc (oc_children oc1) = child_spec cdc (oc_children oc)"
    by (rule deltas_cong [OF inv oc_wrote_inv [OF oc1(2)] oc1(3)]; simp add: lay)
  have "length (oc_layers cdc oc1) = length (oc_layers cdc oc)" by (simp only: lay)
  then have "oc_transaction_depth oc1 = 0" using depth by simp
  moreover have "map fst (oc_children oc1) = map fst (oc_children oc)" using oc1(3) keys_infos by metis
  ultimately show ?thesis using None oc1 d lay oc_wrote_inv by (auto simp: drain_root_def drained_version_def)
qed

text \<open>Draining with no open transaction.\<close>

lemma drain_ok:
  assumes inv: "oc_inv cdc oc" and ok: "cache_ok cdc b oc" and depth: "oc_transaction_depth oc = 0"
  shows "\<exists>sc oc'. drain_storage_changes cx b version oc = Some (sc, oc') \<and>
    shows_changes (visible (oc_layers cdc oc)) (main_storage_changes sc) (child_storage_changes sc) \<and>
    map fst (child_storage_changes sc) = map fst (oc_children oc) \<and>
    bt_wf (offchain_storage_changes sc) \<and> (\<forall>pk. map_option change_value (bt_get (offchain_storage_changes sc) pk)
      = visible (oc_layers cdc oc) (Offchain_Slot pk)) \<and>
    (transaction_storage_root sc, sc_transaction sc) = full_storage_root b (main_storage_changes sc)
      (zip (map snd (infos (oc_children oc))) (map snd (child_storage_changes sc))) (drained_version version oc) \<and>
    transaction_index_changes sc = oc_transaction_index_ops oc \<and>
    oc_top oc' = om_default \<and> oc_children oc' = [] \<and> oc_offchain oc' = om_default \<and>
    oc_transaction_index_ops oc' = [] \<and> oc_storage_transaction_cache oc' = None"
proof -
  obtain oc1 cache where oc1: "drain_root cx b version oc = Some oc1" "oc_inv cdc oc1" "oc_transaction_depth oc1 = 0"
    "oc_storage_transaction_cache oc1 = Some cache"
    "(stc_root cache, stc_transaction cache) = current_root cdc b (drained_version version oc) oc"
    "oc_layers cdc oc1 = oc_layers cdc oc" "child_spec cdc (oc_children oc1) = child_spec cdc (oc_children oc)"
    "map fst (oc_children oc1) = map fst (oc_children oc)" "oc_transaction_index_ops oc1 = oc_transaction_index_ops oc"
    using drain_cached [OF assms] by blast
  define kids where "kids = map (\<lambda>(k, (m, _)). (k, delta_spec cdc m)) (oc_children oc1)"
  have shown: "shows_changes (visible (oc_layers cdc oc)) (delta_spec cdc (oc_top oc1)) kids"
    using shows_visible [OF oc1(2)] by (simp only: oc1(6) kids_def)
  have kid: "overlay_inv cdc m \<and> transaction_depth m = 0" if "(k, (m, info)) \<in> set (oc_children oc1)" for k m info
    using oc_inv_child [OF oc1(2)] that oc1(3) by (fastforce simp: child_ok_def locked_def oc_transaction_depth_def)
  have kids: "those (map (\<lambda>(k, (m, _)). map_option (Pair k) (drain_to_options cdc m)) (oc_children oc1)) = Some kids"
    unfolding kids_def using kid drain_to_options_ok by (intro those_map_Some) auto
  have keys: "map fst kids = map fst (oc_children oc)" using oc1(8) by (simp add: kids_def case_prod_unfold comp_def)
  obtain xs where off: "offchain_drain (oc_offchain oc1) = Some (xs, om_default)" "bt_wf xs"
    "bt_get xs = visible (offchain_layers (oc_offchain oc1))"
    using offchain_drain_ok [OF inv_parts(2) [OF oc1(2)]] by blast
  have pk: "map_option change_value (bt_get xs pk) = visible (oc_layers cdc oc) (Offchain_Slot pk)" for pk
    using visible_oc_layers(3) [OF oc1(2), of pk] by (simp add: off(3) oc1(6))
  have main: "drain_to_options cdc (oc_top oc1) = Some (delta_spec cdc (oc_top oc1))"
    using drain_to_options_ok inv_parts(1) [OF oc1(2)] oc1(3) by (simp add: oc_transaction_depth_def)
  have tops: "delta_spec cdc (oc_top oc1) = delta_spec cdc (oc_top oc)"
    using shown shows_visible [OF inv] by (intro bt_canonical) (auto simp: shows_changes_def fun_eq_iff)
  have "map snd kids = map snd (child_spec cdc (oc_children oc))"
    unfolding oc1(7) [symmetric] kids_def by (auto simp: child_spec_def)
  then have root: "full_storage_root b (delta_spec cdc (oc_top oc1)) (zip (map snd (infos (oc_children oc))) (map snd kids)) v
      = current_root cdc b v oc" for v
    unfolding current_root_def tops by (simp only: child_spec_zip [symmetric])
  let ?sc = "\<lparr>main_storage_changes = delta_spec cdc (oc_top oc1), child_storage_changes = kids, offchain_storage_changes = xs,
    sc_transaction = stc_transaction cache, transaction_storage_root = stc_root cache,
    transaction_index_changes = oc_transaction_index_ops oc1\<rparr>"
  let ?oc = "oc1\<lparr>oc_top := om_default, oc_children := [],
      oc_offchain := om_default, oc_transaction_index_ops := [], oc_storage_transaction_cache := None\<rparr>"
  have "drain_storage_changes cx b version oc = Some (?sc, ?oc)"
    unfolding drain_storage_changes_def using oc1(1,4) kids off(1) main by simp
  then show ?thesis using shown keys off(2) pk root oc1(5,9) by (intro exI [of _ ?sc] exI [of _ ?oc]) simp
qed

end

end
