(* ===== verification/Externalities_View.thy ===== *)
theory Externalities_View
  imports Externalities Overlayed_Drain
begin

text \<open>
  What the runtime sees: the backend's tries with the overlay's visible changes on top.  The reads, the
  iteration and the removals of \<open>Ext\<close> are described on this view.
\<close>

subsection \<open>Next keys\<close>

text \<open>\<open>r\<close> is the least key after \<open>k\<close> with property \<open>P\<close>, or there is none.\<close>

definition is_next :: "('k::linorder \<Rightarrow> bool) \<Rightarrow> 'k \<Rightarrow> 'k option \<Rightarrow> bool" where
  "is_next P k r = (case r of None \<Rightarrow> \<forall>i>k. \<not> P i | Some j \<Rightarrow> k < j \<and> P j \<and> (\<forall>i. k < i \<and> i < j \<longrightarrow> \<not> P i))"

lemma is_next_unique:
  assumes "is_next P k r" "is_next P k r'"
  shows "r = r'"
proof (cases r)
  case None
  then show ?thesis using assms by (cases r') (auto simp: is_next_def)
next
  case (Some j)
  then obtain j' where r': "r' = Some j'" using assms by (cases r') (auto simp: is_next_def)
  then have "\<not> j < j'" "\<not> j' < j" using assms Some by (auto simp: is_next_def)
  then show ?thesis using Some r' by (simp add: order_antisym_conv not_less)
qed

text \<open>Nothing with \<open>P\<close> up to \<open>k\<close>: the search may start there.\<close>

lemma is_next_skip:
  assumes "is_next P k r" "p < k" "\<And>i. p < i \<Longrightarrow> i \<le> k \<Longrightarrow> \<not> P i"
  shows "is_next P p r"
  using assms unfolding is_next_def by (auto split: option.splits) (meson leI, meson leI order_less_trans)

definition bt_next :: "'k::linorder \<Rightarrow> ('k, 'v) btree \<Rightarrow> 'k option" where
  "bt_next k m = (case bt_after k m of [] \<Rightarrow> None | e # _ \<Rightarrow> Some (fst e))"

lemma bt_next_is_next:
  assumes "bt_wf m"
  shows "is_next (\<lambda>k. bt_get m k \<noteq> None) k (bt_next k m)"
proof (cases "bt_after k m")
  case Nil
  then have "bt_get (bt_after k m) i = None" for i by simp
  then have "i > k \<Longrightarrow> bt_get m i = None" for i using bt_get_after [of k m i] by metis
  with Nil show ?thesis by (simp add: bt_next_def is_next_def)
next
  case (Cons e es)
  obtain j v where e: "e = (j, v)" by (cases e)
  have wf: "bt_wf ((j, v) # es)" using bt_wf_after [OF assms, of k] Cons e by simp
  have get: "bt_get (bt_after k m) i = (if i = j then Some v else bt_get es i)" for i using Cons e by simp
  have "k < j" "bt_get m j = Some v" using get [of j] bt_get_after [of k m j] by (metis option.distinct(1))+
  moreover have "bt_get m i = None" if "k < i" "i < j" for i
  proof -
    have "i \<notin> fst ` set es" using wf that(2) by (auto simp: bt_wf_Cons)
    then have "bt_get (bt_after k m) i = None" using get [of i] that(2) by (simp add: bt_get_None_iff)
    then show ?thesis using that(1) bt_get_after [of k m i] by simp
  qed
  ultimately show ?thesis using Cons e by (simp add: bt_next_def is_next_def)
qed

subsection \<open>The backend\<close>

record trie_state =
  ts_top :: "(bytes, bytes) btree"
  ts_child :: "bytes \<Rightarrow> (bytes, bytes) btree"

definition trie_of :: "trie_state \<Rightarrow> child_info option \<Rightarrow> (bytes, bytes) btree" where
  "trie_of st ci = (case ci of None \<Rightarrow> ts_top st | Some c \<Rightarrow> ts_child st (child_storage_key c))"

text \<open>The keys an iteration with a prefix and an inclusive start yields.\<close>

definition keys_from :: "(bytes, bytes) btree \<Rightarrow> bytes option \<Rightarrow> bytes option \<Rightarrow> bytes list" where
  "keys_from m p start = filter (\<lambda>k. (case p of None \<Rightarrow> True | Some p \<Rightarrow> starts_with k p) \<and>
     (case start of None \<Rightarrow> True | Some s \<Rightarrow> s \<le> k)) (map fst m)"

text \<open>The backend answers from these tries, without errors.\<close>

definition serves :: "('e, 'h, 't) backend \<Rightarrow> trie_state \<Rightarrow> bool" where
  "serves b st \<longleftrightarrow> bt_wf (ts_top st) \<and> (\<forall>c. bt_wf (ts_child st c)) \<and>
     (\<forall>k. b_storage b k = Inr (bt_get (ts_top st) k)) \<and>
     (\<forall>ci k. b_child_storage b ci k = Inr (bt_get (ts_child st (child_storage_key ci)) k)) \<and>
     (\<forall>k. b_storage_hash b k = Inr (map_option (b_hash b) (bt_get (ts_top st) k))) \<and>
     (\<forall>ci k. b_child_storage_hash b ci k = Inr (map_option (b_hash b) (bt_get (ts_child st (child_storage_key ci)) k))) \<and>
     (\<forall>k. b_next_storage_key b k = Inr (bt_next k (ts_top st))) \<and>
     (\<forall>ci k. b_next_child_storage_key b ci k = Inr (bt_next k (ts_child st (child_storage_key ci)))) \<and>
     (\<forall>ci p s. b_keys b ci p s = Inr (map Inr (keys_from (trie_of st ci) p s)))"

lemma trie_of_wf: "serves b st \<Longrightarrow> bt_wf (trie_of st ci)"
  by (simp add: serves_def trie_of_def split: option.split)

lemma keys_from_distinct: "bt_wf m \<Longrightarrow> distinct (keys_from m p s)"
  using bt_wf_distinct [of m] by (simp add: keys_from_def)

definition state_value :: "trie_state \<Rightarrow> storage_slot \<Rightarrow> bytes option" where
  "state_value st slot = (case slot of Top_Slot k \<Rightarrow> bt_get (ts_top st) k
     | Child_Slot c k \<Rightarrow> bt_get (ts_child st c) k | Offchain_Slot _ \<Rightarrow> None)"

text \<open>The slot of a key in the top trie or in a child.\<close>

definition slot_of :: "child_info option \<Rightarrow> bytes \<Rightarrow> storage_slot" where
  "slot_of ci k = (case ci of None \<Rightarrow> Top_Slot k | Some c \<Rightarrow> Child_Slot (child_storage_key c) k)"

lemma slot_of_inj [simp]: "slot_of ci k = slot_of ci k' \<longleftrightarrow> k = k'"
  by (auto simp: slot_of_def split: option.splits)

lemma state_value_slot: "state_value st (slot_of ci k) = bt_get (trie_of st ci) k"
  by (simp add: state_value_def slot_of_def trie_of_def split: option.split)

definition over :: "(storage_slot \<rightharpoonup> bytes option) \<Rightarrow> trie_state \<Rightarrow> storage_slot \<Rightarrow> bytes option" where
  "over vis st slot = (case vis slot of Some v \<Rightarrow> v | None \<Rightarrow> state_value st slot)"

definition view :: "compact_codec \<Rightarrow> trie_state \<Rightarrow> ('h, 't, 'i, 'x) ext \<Rightarrow> storage_slot \<Rightarrow> bytes option" where
  "view cd st e = over (visible (oc_layers cd (ext_overlay e))) st"

definition ext_inv :: "compact_codec \<Rightarrow> ('h, 't, 'i, 'x) ext \<Rightarrow> bool" where
  "ext_inv cd e \<longleftrightarrow> oc_inv cd (ext_overlay e)"

text \<open>Same layers and same position: nothing the runtime can see has changed.\<close>

definition unseen :: "compact_codec \<Rightarrow> ('h, 't, 'i, 'x) ext \<Rightarrow> ('h, 't, 'i, 'x) ext \<Rightarrow> bool" where
  "unseen cd e e' \<longleftrightarrow> ext_inv cd e' \<and> oc_layers cd (ext_overlay e') = oc_layers cd (ext_overlay e) \<and>
     ext_extensions e' = ext_extensions e"

lemma unseen_view: "unseen cd e e' \<Longrightarrow> view cd st e' = view cd st e"
  by (simp add: unseen_def view_def)

subsection \<open>Visible values after a write\<close>

lemma visible_write:
  "ls \<noteq> [] \<Longrightarrow> visible ((hd ls ++ e) # tl ls) = visible ls ++ e"
  by (cases ls) (simp_all add: map_add_assoc)

lemma oc_wrote_visible:
  assumes "oc_wrote cd e oc oc'"
  shows "visible (oc_layers cd oc') = visible (oc_layers cd oc) ++ e"
proof -
  have "oc_layers cd oc \<noteq> []" by (simp add: oc_layers_def)
  then show ?thesis using assms visible_write unfolding oc_wrote_def by metis
qed

lemma oc_wrote_comp:
  assumes "oc_wrote cd e1 oc oc1" "oc_wrote cd e2 oc1 oc2"
  shows "oc_wrote cd (e1 ++ e2) oc oc2"
  using assms by (simp add: oc_wrote_def)

definition present :: "(bytes \<rightharpoonup> bytes option) \<Rightarrow> (bytes, bytes) btree \<Rightarrow> bytes \<Rightarrow> bool" where
  "present vis t k \<longleftrightarrow> (case vis k of Some v \<Rightarrow> v \<noteq> None | None \<Rightarrow> bt_get t k \<noteq> None)"

context overlay_codecs
begin

lemma on_overlay_read:
  assumes "f (ext_overlay e) = Some (r, oc')" "oc_wrote cdc Map.empty (ext_overlay e) oc'"
  shows "\<exists>e'. on_overlay f e = Some (r, e') \<and> unseen cdc e e'"
  using assms oc_wrote_layers [OF assms(2)] by (simp add: on_overlay_def unseen_def ext_inv_def oc_wrote_def)

lemma overlay_storage:
  assumes "ext_inv cdc e"
  shows "\<exists>e'. on_overlay (oc_storage cx k) e = Some (visible (oc_layers cdc (ext_overlay e)) (Top_Slot k), e') \<and> unseen cdc e e'"
    "\<exists>e'. on_overlay (oc_child_storage cx ci k) e
      = Some (visible (oc_layers cdc (ext_overlay e)) (Child_Slot (child_storage_key ci) k), e') \<and> unseen cdc e e'"
  using storage_ok [of "ext_overlay e" k] child_storage_ok [of "ext_overlay e" ci k] assms on_overlay_read
  unfolding ext_inv_def by metis+

text \<open>A read of any kind gives what the view shows.\<close>

lemma or_backend_view:
  assumes "b () = Inr (f (state_value st slot))"
  shows "or_backend f (visible ls slot) b = Some (f (over (visible ls) st slot))"
  using assms by (simp add: or_backend_def over_def expect_ok_def split: option.split)

lemma reads_ok:
  assumes "ext_inv cdc e" "serves b st"
  shows "\<exists>e'. ext_storage cx b k e = Some (view cdc st e (Top_Slot k), e') \<and> unseen cdc e e'"
    "\<exists>e'. ext_storage_hash cx b k e
      = Some (map_option (b_encode_root b \<circ> b_hash b) (view cdc st e (Top_Slot k)), e') \<and> unseen cdc e e'"
    "\<exists>e'. ext_exists_storage cx b k e = Some (view cdc st e (Top_Slot k) \<noteq> None, e') \<and> unseen cdc e e'"
  using overlay_storage(1) [OF assms(1), of k] assms(2)
    or_backend_view [where f = id and slot = "Top_Slot k" and ls = "oc_layers cdc (ext_overlay e)" and st = st and b = "\<lambda>_. b_storage b k"]
    or_backend_view [where f = "map_option (b_hash b)" and slot = "Top_Slot k" and ls = "oc_layers cdc (ext_overlay e)" and st = st and b = "\<lambda>_. b_storage_hash b k"]
    or_backend_view [where f = "\<lambda>x. x \<noteq> None" and slot = "Top_Slot k" and ls = "oc_layers cdc (ext_overlay e)" and st = st and b = "\<lambda>_. exists_storage b k"]
  by (force simp: ext_storage_def ext_storage_hash_def ext_exists_storage_def exists_storage_def serves_def
      state_value_def view_def option.map_comp)+

lemma child_reads_ok:
  assumes "ext_inv cdc e" "serves b st"
  shows "\<exists>e'. ext_child_storage cx b ci k e = Some (view cdc st e (Child_Slot (child_storage_key ci) k), e') \<and> unseen cdc e e'"
    "\<exists>e'. ext_child_storage_hash cx b ci k e
      = Some (map_option (b_encode_root b \<circ> b_hash b) (view cdc st e (Child_Slot (child_storage_key ci) k)), e') \<and> unseen cdc e e'"
    "\<exists>e'. ext_exists_child_storage cx b ci k e
      = Some (view cdc st e (Child_Slot (child_storage_key ci) k) \<noteq> None, e') \<and> unseen cdc e e'"
  using overlay_storage(2) [OF assms(1), of ci k] assms(2)
    or_backend_view [where f = id and slot = "Child_Slot (child_storage_key ci) k" and ls = "oc_layers cdc (ext_overlay e)" and st = st and b = "\<lambda>_. b_child_storage b ci k"]
    or_backend_view [where f = "map_option (b_hash b)" and slot = "Child_Slot (child_storage_key ci) k" and ls = "oc_layers cdc (ext_overlay e)" and st = st and b = "\<lambda>_. b_child_storage_hash b ci k"]
    or_backend_view [where f = "\<lambda>x. x \<noteq> None" and slot = "Child_Slot (child_storage_key ci) k" and ls = "oc_layers cdc (ext_overlay e)" and st = st and b = "\<lambda>_. exists_child_storage b ci k"]
  by (force simp: ext_child_storage_def ext_child_storage_hash_def ext_exists_child_storage_def exists_child_storage_def serves_def
      state_value_def view_def option.map_comp)+

subsection \<open>The next key of the view\<close>

lemma find_valued_next: "next_merged cd nk None ks m = find_valued cd ks m"
proof (induction ks arbitrary: m)
  case (Cons k ks)
  then show ?case by (cases "om_value cd k m") auto
qed simp

lemma next_merged_ok:
  assumes t: "bt_wf t" "\<And>k. nk k = Inr (bt_next k t)"
    and inv: "overlay_inv cdc m" and vis: "visible (overlay_layers cdc m) = vis"
    and ks: "sorted_wrt (<) ks" "set ks = {k. p < k \<and> vis k \<noteq> None}"
    and cur: "is_next (\<lambda>k. bt_get t k \<noteq> None) p cur"
  shows "\<exists>r m'. next_merged cdc nk cur ks m = Some (r, m') \<and> is_next (present vis t) p r \<and>
    overlay_inv cdc m' \<and> same_mode m m' \<and> overlay_layers cdc m' = overlay_layers cdc m"
  using inv vis ks cur
proof (induction ks arbitrary: p cur m)
  case Nil
  have "vis i = None" if "p < i" for i using Nil.prems(4) that by auto
  then have "is_next (present vis t) p cur"
    using Nil.prems(5) by (auto simp: is_next_def present_def split: option.splits)
  with Nil.prems(1) show ?case by (auto simp: same_mode_def)
next
  case (Cons k ks)
  have k: "p < k" "vis k \<noteq> None" using Cons.prems(4) by auto
  have between: "vis i = None" if "p < i" "i < k" for i
  proof (rule ccontr)
    assume "vis i \<noteq> None"
    then have "i \<in> set (k # ks)" using Cons.prems(4) that(1) by auto
    then show False using that(2) Cons.prems(3) by auto
  qed
  show ?case
  proof (cases "\<exists>c. cur = Some c \<and> c < k")
    case True
    then obtain c where c: "cur = Some c" "c < k" by blast
    have pc: "p < c" "bt_get t c \<noteq> None" "\<And>i. p < i \<Longrightarrow> i < c \<Longrightarrow> bt_get t i = None"
      using Cons.prems(5) c(1) by (auto simp: is_next_def)
    have "vis i = None" if "p < i" "i \<le> c" for i using between [of i] that c(2) by simp
    then have "is_next (present vis t) p (Some c)"
      using pc by (auto simp: is_next_def present_def)
    then show ?thesis using c Cons.prems(1) by (auto simp: same_mode_def)
  next
    case False
    have none: "bt_get t i = None" if "p < i" "i < k" for i
      using Cons.prems(5) False that by (cases cur) (auto simp: is_next_def)
    obtain m1 where m1: "om_value cdc k m = Some (vis k, m1)" "overlay_inv cdc m1" "same_mode m m1"
      "overlay_layers cdc m1 = overlay_layers cdc m"
      using om_value_layers [OF Cons.prems(1), of k] Cons.prems(2) by metis
    have skip: "\<not> present vis t i" if "p < i" "i < k" for i
      using between [OF that] none [OF that] by (simp add: present_def)
    show ?thesis
    proof (cases "vis k = Some None")
      case valueless: True
      have ks': "sorted_wrt (<) ks" "set ks = {i. k < i \<and> vis i \<noteq> None}"
      proof -
        show "sorted_wrt (<) ks" using Cons.prems(3) by simp
        have "i \<in> set ks \<longleftrightarrow> k < i \<and> vis i \<noteq> None" for i
        proof -
          have "k \<notin> set ks" using Cons.prems(3) by auto
          moreover have "i \<in> insert k (set ks) \<longleftrightarrow> p < i \<and> vis i \<noteq> None" using Cons.prems(4) by auto
          ultimately show ?thesis using between [of i] k by (cases i k rule: linorder_cases) auto
        qed
        then show "set ks = {i. k < i \<and> vis i \<noteq> None}" by blast
      qed
      have "\<not> present vis t k" using valueless by (simp add: present_def)
      then have none_le: "\<not> present vis t i" if "p < i" "i \<le> k" for i
        using skip [of i] that by (cases "i = k") auto
      define cur' where "cur' = (if cur = Some k then bt_next k t else cur)"
      have "is_next (\<lambda>k. bt_get t k \<noteq> None) k cur'"
      proof (cases "cur = Some k")
        case True
        then show ?thesis using bt_next_is_next [OF t(1)] by (simp add: cur'_def)
      next
        case ne: False
        then show ?thesis using Cons.prems(5) False k(1) by (cases cur) (auto simp: cur'_def is_next_def)
      qed
      from Cons.IH [OF m1(2) _ ks' this] obtain r m' where r: "next_merged cdc nk cur' ks m1 = Some (r, m')"
        "is_next (present vis t) k r" "overlay_inv cdc m'" "same_mode m1 m'" "overlay_layers cdc m' = overlay_layers cdc m1"
        using m1(4) Cons.prems(2) by auto
      have "is_next (present vis t) p r" using is_next_skip [OF r(2) k(1)] none_le by blast
      moreover have "next_merged cdc nk cur (k # ks) m = Some (r, m')"
        using False m1(1) valueless r(1) t(2)
        by (cases cur) (auto simp: cur'_def expect_ok_def)
      moreover have "same_mode m m'" using m1(3) r(4) by (simp add: same_mode_def)
      ultimately show ?thesis using r m1(4) by auto
    next
      case False
      then obtain v where v: "vis k = Some (Some v)" using k(2) by auto
      then have "is_next (present vis t) p (Some k)" using k(1) skip by (auto simp: is_next_def present_def)
      moreover have "next_merged cdc nk cur (k # ks) m = Some (Some k, m1)"
        using \<open>\<not> (\<exists>c. cur = Some c \<and> c < k)\<close> m1(1) v by (cases cur) auto
      ultimately show ?thesis using m1 by blast
    qed
  qed
qed

lemma after_keys:
  fixes m :: "bytes changeset"
  assumes "overlay_inv cdc m"
  shows "sorted_wrt (<) (map fst (changes_after k m))"
    "set (map fst (changes_after k m)) = {j. k < j \<and> visible (overlay_layers cdc m) j \<noteq> None}"
proof -
  have wf: "bt_wf (changes m)" using assms by (simp add: om_inv_def)
  then show "sorted_wrt (<) (map fst (changes_after k m))" using bt_wf_after by (simp add: changes_after_def bt_wf_def)
  have "j \<in> fst ` set (changes m) \<longleftrightarrow> visible (overlay_layers cdc m) j \<noteq> None" for j
    using delta_spec_get(2) [OF assms] bt_get_None_iff [of "delta_spec cdc m" j] keys_delta_spec [of cdc m]
    by (metis list.set_map)
  moreover have "set (map fst (changes_after k m)) = {j. k < j \<and> j \<in> fst ` set (changes m)}"
    by (force simp: changes_after_def bt_after_def)
  ultimately show "set (map fst (changes_after k m)) = {j. k < j \<and> visible (overlay_layers cdc m) j \<noteq> None}" by simp
qed

lemma next_key_in_ok:
  assumes "bt_wf t" "\<And>k. nk k = Inr (bt_next k t)" "overlay_inv cdc m"
  shows "\<exists>r m'. next_key_in cdc nk k (map fst (changes_after k m)) m = Some (r, m') \<and>
    is_next (present (visible (overlay_layers cdc m)) t) k r \<and>
    overlay_inv cdc m' \<and> same_mode m m' \<and> overlay_layers cdc m' = overlay_layers cdc m"
proof -
  have "next_key_in cdc nk k ks m = next_merged cdc nk (bt_next k t) ks m" for ks
    by (cases "bt_next k t"; cases ks) (simp_all add: next_key_in_def assms(2) expect_ok_def find_valued_next
        del: next_merged.simps(2) find_valued.simps(2))
  then show ?thesis
    using next_merged_ok [OF assms(1,2,3) refl after_keys [OF assms(3), of k] bt_next_is_next [OF assms(1)]] by simp
qed

lemma present_view:
  "present (\<lambda>k. visible (oc_layers cdc (ext_overlay e)) (slot_of ci k)) (trie_of st ci)
    = (\<lambda>k. view cdc st e (slot_of ci k) \<noteq> None)"
  by (auto simp: present_def view_def over_def state_value_slot fun_eq_iff split: option.split)

lemma next_storage_key_ok:
  assumes "ext_inv cdc e" "serves b st"
  shows "\<exists>r e'. ext_next_storage_key cx b k e = Some (r, e') \<and>
    is_next (\<lambda>k. view cdc st e (Top_Slot k) \<noteq> None) k r \<and> unseen cdc e e'"
proof -
  let ?oc = "ext_overlay e"
  have inv: "oc_inv cdc ?oc" using assms(1) by (simp add: ext_inv_def)
  obtain r m where r: "next_key_in cdc (b_next_storage_key b) k (map fst (changes_after k (oc_top ?oc))) (oc_top ?oc) = Some (r, m)"
    "is_next (present (visible (overlay_layers cdc (oc_top ?oc))) (ts_top st)) k r"
    "overlay_inv cdc m" "same_mode (oc_top ?oc) m" "overlay_layers cdc m = overlay_layers cdc (oc_top ?oc)"
    using next_key_in_ok [of "ts_top st" "b_next_storage_key b" "oc_top ?oc" k] assms(2) inv_parts(1) [OF inv]
    by (auto simp: serves_def)
  have "oc_wrote cdc (on_top Map.empty) ?oc (?oc\<lparr>oc_top := m\<rparr>)"
    using inv r(3,4) by (rule top_op) (use r(5) overlay_layers_self in simp_all)
  then have "oc_inv cdc (?oc\<lparr>oc_top := m\<rparr>)" "oc_layers cdc (?oc\<lparr>oc_top := m\<rparr>) = oc_layers cdc ?oc"
    using oc_wrote_inv oc_wrote_layers by simp_all
  moreover have "present (visible (overlay_layers cdc (oc_top ?oc))) (ts_top st) = (\<lambda>k. view cdc st e (Top_Slot k) \<noteq> None)"
    using present_view [of e None st] visible_oc_layers(1) [OF inv] by (simp add: slot_of_def trie_of_def)
  ultimately show ?thesis using r(1,2)
    by (simp add: ext_next_storage_key_def iter_after_def unseen_def ext_inv_def)
qed

lemma next_child_storage_key_ok:
  assumes "ext_inv cdc e" "serves b st"
  shows "\<exists>r e'. ext_next_child_storage_key cx b ci k e = Some (r, e') \<and>
    is_next (\<lambda>k. view cdc st e (Child_Slot (child_storage_key ci) k) \<noteq> None) k r \<and> unseen cdc e e'"
proof -
  let ?oc = "ext_overlay e" and ?c = "child_storage_key ci"
  let ?t = "ts_child st ?c"
  have inv: "oc_inv cdc ?oc" using assms(1) by (simp add: ext_inv_def)
  have wf: "bt_wf ?t" and nk: "b_next_child_storage_key b ci j = Inr (bt_next j ?t)" for j
    using assms(2) by (auto simp: serves_def)
  note pv = present_view [of e "Some ci" st, unfolded slot_of_def trie_of_def option.case]
  show ?thesis
  proof (cases "bt_get (oc_children ?oc) ?c")
    case None
    have "present (\<lambda>k. visible (oc_layers cdc ?oc) (Child_Slot ?c k)) ?t = (\<lambda>k. bt_get ?t k \<noteq> None)"
      using visible_oc_layers(2) [OF inv] None by (simp add: present_def fun_eq_iff)
    then show ?thesis using bt_next_is_next [OF wf, of k] None assms(1) nk pv
      by (simp add: ext_next_child_storage_key_def expect_ok_def unseen_def)
  next
    case (Some p)
    obtain m0 info where p: "p = (m0, info)" by (cases p)
    have ok: "child_ok cdc (oc_top ?oc) m0" and inv0: "overlay_inv cdc m0"
      using inv_parts(5) [OF inv Some [unfolded p]] by (simp_all add: child_ok_def)
    obtain r m where r: "next_key_in cdc (b_next_child_storage_key b ci) k (map fst (changes_after k m0)) m0 = Some (r, m)"
      "is_next (present (visible (overlay_layers cdc m0)) ?t) k r"
      "overlay_inv cdc m" "same_mode m0 m" "overlay_layers cdc m = overlay_layers cdc m0"
      using next_key_in_ok [of ?t "b_next_child_storage_key b ci" m0 k, OF wf nk inv0] by blast
    have lk: "locked m0 m" using same_mode_locked r(4,5) write_depth overlay_layers_self by metis
    let ?oc' = "?oc\<lparr>oc_children := bt_insert ?c (m, info) (oc_children ?oc)\<rparr>"
    have cl: "overlay_layers cdc m0 ! i = child_layer cdc (bt_get (oc_children ?oc) ?c) i" for i
      using Some p by (simp add: child_layer_def)
    have "oc_wrote cdc (on_child ?c Map.empty) ?oc ?oc'"
      using child_write [OF inv ok cl r(3) lk, where e = Map.empty and oc' = ?oc'] r(5) overlay_layers_self [of m0] by simp
    then have "oc_inv cdc ?oc'" "oc_layers cdc ?oc' = oc_layers cdc ?oc"
      using oc_wrote_inv oc_wrote_layers by simp_all
    moreover have "present (visible (overlay_layers cdc m0)) ?t = (\<lambda>k. view cdc st e (Child_Slot ?c k) \<noteq> None)"
      using pv visible_oc_layers(2) [OF inv] Some p by simp
    ultimately show ?thesis using r(1,2) Some p
      by (simp add: ext_next_child_storage_key_def child_iter_after_def unseen_def ext_inv_def Let_def)
  qed
qed

end

end
