(* ===== verification/Externalities_Removal.thy ===== *)
theory Externalities_Removal
  imports Externalities_View
begin

text \<open>
  The removals of \<open>Ext\<close>: every key the overlay has is removed at once, the backend's keys up to the limit, from
  the cursor on; the cursor returned is where to go on.
\<close>

text \<open>How many of the iterated keys are looked at.\<close>

definition take_limit :: "u32 option \<Rightarrow> 'a list \<Rightarrow> 'a list" where
  "take_limit maybe_limit ks = (case maybe_limit of None \<Rightarrow> ks | Some l \<Rightarrow> take (unat l) ks)"

definition cursor_after :: "u32 option \<Rightarrow> 'a list \<Rightarrow> 'a option" where
  "cursor_after maybe_limit ks = (case drop (length (take_limit maybe_limit ks)) ks of [] \<Rightarrow> None | k # _ \<Rightarrow> Some k)"

definition erase :: "child_info option \<Rightarrow> bytes set \<Rightarrow> (storage_slot \<rightharpoonup> bytes option)" where
  "erase ci K = (\<lambda>slot. if slot \<in> slot_of ci ` K then Some None else None)"

lemma erase_simps [simp]:
  "erase ci K (slot_of ci k) = (if k \<in> K then Some None else None)"
  by (auto simp: erase_def)

lemma erase_empty [simp]: "erase ci {} = Map.empty"
  by (simp add: erase_def)

lemma erase_insert: "vis ++ erase ci {k} ++ erase ci K = vis ++ erase ci (insert k K)"
  by (auto simp: erase_def map_add_def fun_eq_iff split: option.split)

text \<open>A saturating count of a list.\<close>

definition count32 :: "nat \<Rightarrow> u32" where
  "count32 n = of_nat (min n (2 ^ 32 - 1))"

lemma unat_count32: "unat (count32 n) = min n (2 ^ 32 - 1)"
  unfolding count32_def by (rule unat_of_nat_small) simp

lemma count32_0 [simp]: "count32 0 = 0"
  by (simp add: count32_def)

lemma count32_Suc: "saturating_add (count32 n) 1 = count32 (Suc n)"
proof (rule word_unat_eq_iff [THEN iffD2])
  show "unat (saturating_add (count32 n) 1) = unat (count32 (Suc n))"
    unfolding unat_saturating_add unat_count32 by simp
qed

text \<open>The removal operations have the same shape: an overlay step and the backend's keys.\<close>

definition removes ::
  "compact_codec \<Rightarrow> trie_state \<Rightarrow> child_info option \<Rightarrow> (bytes \<Rightarrow> bool) \<Rightarrow> u32 option \<Rightarrow> bytes list \<Rightarrow> multi_removal_results
     \<Rightarrow> ('h, 't, 'i, 'x) ext \<Rightarrow> ('h, 't, 'i, 'x) ext \<Rightarrow> bool" where
  "removes cd st ci P maybe_limit ks r e e' \<longleftrightarrow> ext_inv cd e' \<and> ext_extensions e' = ext_extensions e \<and>
     maybe_cursor r = cursor_after maybe_limit ks \<and>
     removal_loops r = count32 (length (take_limit maybe_limit ks)) \<and>
     removed_backend r = count32 (length (filter (\<lambda>k. visible (oc_layers cd (ext_overlay e)) (slot_of ci k) = None)
       (take_limit maybe_limit ks))) \<and>
     removed_unique r = removed_backend r +
       of_nat (card {k. P k \<and> (\<exists>v. visible (oc_layers cd (ext_overlay e)) (slot_of ci k) = Some (Some v))}) \<and>
     (\<forall>slot. view cd st e' slot =
       (if (\<exists>k. slot = slot_of ci k \<and> (P k \<and> visible (oc_layers cd (ext_overlay e)) slot \<noteq> None \<or>
         k \<in> set (take_limit maybe_limit ks))) then None else view cd st e slot))"

context overlay_codecs
begin

lemma remove_one_ok:
  assumes "oc_inv cdc oc"
  shows "\<exists>oc' e. remove_one cx ci k oc = Some (visible (oc_layers cdc oc) (slot_of ci k) \<noteq> Some None, oc') \<and>
    oc_wrote cdc e oc oc' \<and> visible (oc_layers cdc oc') = visible (oc_layers cdc oc) ++ erase ci {k}"
proof -
  let ?vis = "visible (oc_layers cdc oc)"
  let ?read = "case ci of Some c \<Rightarrow> oc_child_storage cx c k oc | None \<Rightarrow> oc_storage cx k oc"
  obtain oc1 where oc1: "?read = Some (?vis (slot_of ci k), oc1)" "oc_wrote cdc Map.empty oc oc1"
    using storage_ok [OF assms, of k] child_storage_ok [OF assms, of _ k]
    by (cases ci) (fastforce simp: slot_of_def)+
  note lay = oc_wrote_layers [OF oc1(2)] and inv1 = oc_wrote_inv [OF oc1(2)]
  show ?thesis
  proof (cases "?vis (slot_of ci k) = Some None")
    case True
    then have "?vis = ?vis ++ erase ci {k}"
      by (auto simp: erase_def map_add_def fun_eq_iff split: option.split)
    with True oc1 lay show ?thesis
      by (intro exI [of _ oc1] exI [of _ Map.empty]) (simp add: remove_one_def)
  next
    case False
    have e: "[slot_of ci k \<mapsto> None] = erase ci {k}" by (auto simp: erase_def fun_eq_iff)
    let ?set = "case ci of Some c \<Rightarrow> oc_set_child_storage cx c k None oc1 | None \<Rightarrow> oc_set_storage cx k None oc1"
    obtain oc2 where oc2: "?set = Some oc2" "oc_wrote cdc (erase ci {k}) oc1 oc2"
      using set_storage_ok [OF inv1, of k None] set_child_storage_ok [OF inv1, of _ k None] e
      by (cases ci) (fastforce simp: slot_of_def)+
    have "oc_wrote cdc (erase ci {k}) oc oc2" using oc_wrote_trans [OF oc1(2) oc2(2)] .
    with False oc1(1) oc2(1) oc_wrote_visible [OF this] show ?thesis
      by (intro exI [of _ oc2] exI [of _ "erase ci {k}"]) (cases ci; simp add: remove_one_def)
  qed
qed

lemma limit_remove_loop_ok:
  assumes "oc_inv cdc oc" "distinct ks" "case maybe_limit of None \<Rightarrow> True | Some l \<Rightarrow> unat c \<le> unat l" "c = count32 n"
    "vis = visible (oc_layers cdc oc)" "seen = (case maybe_limit of None \<Rightarrow> ks | Some l \<Rightarrow> take (unat l - unat c) ks)"
  shows "\<exists>oc' e. limit_remove_loop cx ci maybe_limit (map Inr ks :: ('e + bytes) list) (count32 d) c oc =
      Some ((case drop (length seen) ks of [] \<Rightarrow> None | k # _ \<Rightarrow> Some k,
        count32 (d + length (filter (\<lambda>k. vis (slot_of ci k) \<noteq> Some None) seen)), count32 (n + length seen)), oc') \<and>
    oc_wrote cdc e oc oc' \<and> visible (oc_layers cdc oc') = vis ++ erase ci (set seen)"
  using assms
proof (induction ks arbitrary: oc c n d vis seen)
  case Nil
  then show ?case using oc_wrote_empty [OF Nil.prems(1) locked_refl] by (auto split: option.split)
next
  case (Cons k ks)
  show ?case
  proof (cases "maybe_limit = Some c")
    case True
    then show ?thesis using oc_wrote_empty [OF Cons.prems(1) locked_refl] Cons.prems by (auto simp: Cons.prems)
  next
    case False
    let ?c = "saturating_add c 1" and ?live = "vis (slot_of ci k) \<noteq> Some None"
    obtain oc1 e1 where oc1: "remove_one cx ci k oc = Some (?live, oc1)" "oc_wrote cdc e1 oc oc1"
      "visible (oc_layers cdc oc1) = vis ++ erase ci {k}"
      using remove_one_ok [OF Cons.prems(1), of ci k] Cons.prems(5) by blast
    have c1: "?c = count32 (Suc n)" using Cons.prems(4) count32_Suc by simp
    have lim: "unat c < unat l" "unat ?c = Suc (unat c)" if "maybe_limit = Some l" for l
    proof -
      have "unat c \<noteq> unat l" using False that by (simp add: word_unat_eq_iff)
      then show lt: "unat c < unat l" using Cons.prems(3) that by simp
      have "unat l < 2 ^ 32" using unat_lt_exp [of l] by simp
      then show "unat ?c = Suc (unat c)" using lt by (simp add: unat_saturating_add)
    qed
    define seen' where "seen' = (case maybe_limit of None \<Rightarrow> ks | Some l \<Rightarrow> take (unat l - unat ?c) ks)"
    have dn: "seen = k # seen'"
    proof (cases maybe_limit)
      case (Some l)
      then have "unat l - unat c = Suc (unat l - unat ?c)" using lim [OF Some] by simp
      then show ?thesis using Some Cons.prems(6) by (simp add: seen'_def)
    qed (simp add: Cons.prems(6) seen'_def)
    have k: "k \<notin> set ks" "set seen' \<subseteq> set ks" using Cons.prems(2) by (auto simp: seen'_def set_take_subset split: option.splits dest: in_set_takeD)
    have ks: "distinct ks" using Cons.prems(2) by simp
    have lim': "case maybe_limit of None \<Rightarrow> True | Some l \<Rightarrow> unat ?c \<le> unat l"
      using lim by (fastforce split: option.split)
    let ?d = "if ?live then Suc d else d"
    obtain oc' e where oc': "limit_remove_loop cx ci maybe_limit (map Inr ks :: ('e + bytes) list) (count32 ?d) ?c oc1 =
        Some ((case drop (length seen') ks of [] \<Rightarrow> None | k # _ \<Rightarrow> Some k,
          count32 (?d + length (filter (\<lambda>k'. (vis ++ erase ci {k}) (slot_of ci k') \<noteq> Some None) seen')),
          count32 (Suc n + length seen')), oc')"
      "oc_wrote cdc e oc1 oc'" "visible (oc_layers cdc oc') = (vis ++ erase ci {k}) ++ erase ci (set seen')"
      using Cons.IH [OF oc_wrote_inv [OF oc1(2)] ks lim' c1 oc1(3) [symmetric] seen'_def, of ?d]
      by blast
    have "filter (\<lambda>k'. (vis ++ erase ci {k}) (slot_of ci k') \<noteq> Some None) seen' = filter (\<lambda>k'. vis (slot_of ci k') \<noteq> Some None) seen'"
      using k by (intro filter_cong) (auto simp: map_add_def)
    moreover have "(if ?live then saturating_add (count32 d) 1 else count32 d) = count32 ?d" by (simp add: count32_Suc)
    moreover have "(case maybe_limit of Some limit \<Rightarrow> c = limit | None \<Rightarrow> False) = False" using False by (cases maybe_limit) auto
    ultimately have "limit_remove_loop cx ci maybe_limit (map Inr (k # ks) :: ('e + bytes) list) (count32 d) c oc =
        Some ((case drop (length seen') ks of [] \<Rightarrow> None | k # _ \<Rightarrow> Some k,
          count32 (?d + length (filter (\<lambda>k'. vis (slot_of ci k') \<noteq> Some None) seen')),
          count32 (Suc n + length seen')), oc')"
      using oc1(1) oc'(1) by simp
    then show ?thesis
      using oc_wrote_comp [OF oc1(2) oc'(2)] oc'(3) dn
      by (intro exI [of _ oc'] exI [of _ "e1 ++ e"]) (simp add: erase_insert)
  qed
qed

lemma limit_remove_ok:
  assumes "oc_inv cdc oc" "serves b st" and ks_def: "ks = keys_from (trie_of st ci) p start"
  shows "\<exists>oc' e. limit_remove_from_backend cx b ci p maybe_limit start oc =
      Some ((cursor_after maybe_limit ks, count32 (length (filter (\<lambda>k. visible (oc_layers cdc oc) (slot_of ci k) \<noteq> Some None)
        (take_limit maybe_limit ks))), count32 (length (take_limit maybe_limit ks))), oc') \<and>
    oc_wrote cdc e oc oc' \<and>
    visible (oc_layers cdc oc') = visible (oc_layers cdc oc) ++ erase ci (set (take_limit maybe_limit ks))"
proof -
  have d: "distinct ks" using keys_from_distinct [OF trie_of_wf [OF assms(2)]] by (simp add: ks_def)
  have "take_limit maybe_limit ks = (case maybe_limit of None \<Rightarrow> ks | Some l \<Rightarrow> take (unat l - unat (0 :: u32)) ks)"
    by (simp add: take_limit_def split: option.split)
  moreover have "case maybe_limit of None \<Rightarrow> True | Some l \<Rightarrow> unat (0 :: u32) \<le> unat l" by (simp split: option.split)
  moreover have "(0 :: u32) = count32 0" by simp
  moreover have "b_keys b ci p start = Inr (map Inr ks)" using assms(2) by (simp add: serves_def ks_def)
  ultimately show ?thesis
    using limit_remove_loop_ok [OF assms(1) d, where maybe_limit = maybe_limit and c = 0 and n = 0 and d = 0 and ci = ci
        and seen = "take_limit maybe_limit ks", OF _ _ refl]
    by (simp add: limit_remove_from_backend_def cursor_after_def del: limit_remove_loop.simps)
qed

lemma cleared_visible:
  "(vis ++ on_slots ++ erase ci K) slot =
     (if (\<exists>k. slot = slot_of ci k \<and> (P k \<and> vis slot \<noteq> None \<or> k \<in> K)) then Some None else vis slot)"
  if "on_slots = (\<lambda>slot. if \<exists>k. slot = slot_of ci k \<and> P k \<and> vis slot \<noteq> None then Some None else None)"
  by (auto simp: that erase_def map_add_def split: option.split)

lemma removal_ok:
  assumes inv: "ext_inv cdc e" and srv: "serves b st"
    and clear: "clear (ext_overlay e) = Some (of_nat (card {k. P k \<and>
      (\<exists>v. visible (oc_layers cdc (ext_overlay e)) (slot_of ci k) = Some (Some v))}), oc1)"
      "oc_wrote cdc on_slots (ext_overlay e) oc1"
    and slots: "on_slots = (\<lambda>slot. if \<exists>k. slot = slot_of ci k \<and> P k \<and>
      visible (oc_layers cdc (ext_overlay e)) slot \<noteq> None then Some None else None)"
    and matching: "\<forall>k \<in> set (keys_from (trie_of st ci) p start). P k"
  shows "\<exists>r e'. on_overlay (\<lambda>oc. do { (overlay, oc) \<leftarrow> clear oc;
      (r, oc) \<leftarrow> limit_remove_from_backend cx b ci p maybe_limit start oc; Some (removal_results overlay r, oc) }) e
      = Some (r, e') \<and> removes cdc st ci P maybe_limit (keys_from (trie_of st ci) p start) r e e'"
proof -
  let ?ks = "keys_from (trie_of st ci) p start" and ?vis = "visible (oc_layers cdc (ext_overlay e))"
  let ?taken = "take_limit maybe_limit ?ks"
  have "set ?taken \<subseteq> set ?ks" by (auto simp: take_limit_def dest: in_set_takeD split: option.splits)
  then have "visible (oc_layers cdc oc1) (slot_of ci k) \<noteq> Some None \<longleftrightarrow> ?vis (slot_of ci k) = None" if "k \<in> set ?taken" for k
    using matching that oc_wrote_visible [OF clear(2)] by (auto simp: slots map_add_def)
  then have new: "filter (\<lambda>k. visible (oc_layers cdc oc1) (slot_of ci k) \<noteq> Some None) ?taken
      = filter (\<lambda>k. ?vis (slot_of ci k) = None) ?taken"
    by (rule filter_cong [OF refl])
  obtain oc2 e2 where oc2: "limit_remove_from_backend cx b ci p maybe_limit start oc1 =
      Some ((cursor_after maybe_limit ?ks, count32 (length (filter (\<lambda>k. ?vis (slot_of ci k) = None) ?taken)),
        count32 (length ?taken)), oc2)" "oc_wrote cdc e2 oc1 oc2"
    "visible (oc_layers cdc oc2) = visible (oc_layers cdc oc1) ++ erase ci (set ?taken)"
    using limit_remove_ok [OF oc_wrote_inv [OF clear(2)] srv refl, where ci = ci and p = p and start = start
        and maybe_limit = maybe_limit, unfolded new] by blast
  have vis: "visible (oc_layers cdc oc2) = ?vis ++ on_slots ++ erase ci (set ?taken)"
    using oc2(3) oc_wrote_visible [OF clear(2)] by simp
  have "view cdc st (e\<lparr>ext_overlay := oc2\<rparr>) slot =
      (if (\<exists>k. slot = slot_of ci k \<and> (P k \<and> ?vis slot \<noteq> None \<or> k \<in> set ?taken)) then None else view cdc st e slot)" for slot
  proof (cases "\<exists>k. slot = slot_of ci k \<and> (P k \<and> ?vis slot \<noteq> None \<or> k \<in> set ?taken)")
    case True
    then have "visible (oc_layers cdc oc2) slot = Some None"
      unfolding vis cleared_visible [OF slots, of "set ?taken" slot] by (rule if_P)
    then show ?thesis unfolding if_P [OF True] by (simp add: view_def over_def)
  next
    case False
    then have "visible (oc_layers cdc oc2) slot = ?vis slot"
      unfolding vis cleared_visible [OF slots, of "set ?taken" slot] by (rule if_not_P)
    then show ?thesis unfolding if_not_P [OF False] by (simp add: view_def over_def)
  qed
  then show ?thesis using clear(1) oc2(1) oc_wrote_inv [OF oc2(2)]
    by (simp add: on_overlay_def removes_def removal_results_def ext_inv_def add.commute)
qed

lemma clear_prefix_removes:
  assumes "ext_inv cdc e" "serves b st" "\<not> starts_with_child_storage_key p"
  shows "\<exists>r e'. ext_clear_prefix cx b p maybe_limit cursor e = Some (r, e') \<and>
    removes cdc st None (\<lambda>k. starts_with k p) maybe_limit (keys_from (ts_top st) (Some p) cursor) r e e'"
proof -
  let ?oc = "ext_overlay e"
  obtain oc1 where c: "oc_clear_prefix cx p ?oc
      = Some (of_nat (card {k. starts_with k p \<and> (\<exists>v. visible (oc_layers cdc ?oc) (slot_of None k) = Some (Some v))}), oc1)"
    "oc_wrote cdc (on_top (\<lambda>k. if starts_with k p \<and> visible (oc_layers cdc ?oc) (Top_Slot k) \<noteq> None
      then Some None else None)) ?oc oc1"
    using clear_prefix_ok [of ?oc p] assms(1) unfolding ext_inv_def slot_of_def by auto
  have "on_top (\<lambda>k. if starts_with k p \<and> visible (oc_layers cdc ?oc) (Top_Slot k) \<noteq> None then Some None else None)
      = (\<lambda>slot. if \<exists>k. slot = slot_of None k \<and> starts_with k p \<and> visible (oc_layers cdc ?oc) slot \<noteq> None
          then Some None else None)"
    by (auto simp: on_top_def slot_of_def fun_eq_iff split: storage_slot.split)
  from removal_ok [where clear = "oc_clear_prefix cx p" and ci = None and P = "\<lambda>k. starts_with k p"
      and p = "Some p" and maybe_limit = maybe_limit and start = cursor, OF assms(1,2) c this] assms(3) show ?thesis
    by (simp add: ext_clear_prefix_def trie_of_def keys_from_def)
qed

lemma on_child_slots:
  "on_child (child_storage_key ci) (\<lambda>k. if P k \<and> vis (Child_Slot (child_storage_key ci) k) \<noteq> None then Some None else None)
    = (\<lambda>slot. if \<exists>k. slot = slot_of (Some ci) k \<and> P k \<and> vis slot \<noteq> None then Some None else None)"
  by (auto simp: on_child_def slot_of_def fun_eq_iff split: storage_slot.split)

lemma clear_child_prefix_removes:
  assumes "ext_inv cdc e" "serves b st"
  shows "\<exists>r e'. ext_clear_child_prefix cx b ci p maybe_limit cursor e = Some (r, e') \<and>
    removes cdc st (Some ci) (\<lambda>k. starts_with k p) maybe_limit
      (keys_from (ts_child st (child_storage_key ci)) (Some p) cursor) r e e'"
proof -
  obtain oc1 where c: "oc_clear_child_prefix cx ci p (ext_overlay e) = Some (of_nat (card {k. starts_with k p \<and>
      (\<exists>v. visible (oc_layers cdc (ext_overlay e)) (slot_of (Some ci) k) = Some (Some v))}), oc1)"
    "oc_wrote cdc (on_child (child_storage_key ci) (\<lambda>k. if starts_with k p \<and>
      visible (oc_layers cdc (ext_overlay e)) (Child_Slot (child_storage_key ci) k) \<noteq> None then Some None else None))
      (ext_overlay e) oc1"
    using clear_child_ok [of "ext_overlay e" ci "\<lambda>k. starts_with k p"] assms(1)
    unfolding ext_inv_def oc_clear_child_prefix_def slot_of_def by auto
  from removal_ok [where clear = "oc_clear_child_prefix cx ci p" and ci = "Some ci" and P = "\<lambda>k. starts_with k p"
      and p = "Some p" and maybe_limit = maybe_limit and start = cursor, OF assms c on_child_slots] show ?thesis
    by (simp add: ext_clear_child_prefix_def trie_of_def keys_from_def)
qed

lemma kill_child_storage_removes:
  assumes "ext_inv cdc e" "serves b st"
  shows "\<exists>r e'. ext_kill_child_storage cx b ci maybe_limit cursor e = Some (r, e') \<and>
    removes cdc st (Some ci) (\<lambda>_. True) maybe_limit (keys_from (ts_child st (child_storage_key ci)) None cursor) r e e'"
proof -
  obtain oc1 where c: "oc_clear_child_storage cx ci (ext_overlay e) = Some (of_nat (card {k. True \<and>
      (\<exists>v. visible (oc_layers cdc (ext_overlay e)) (slot_of (Some ci) k) = Some (Some v))}), oc1)"
    "oc_wrote cdc (on_child (child_storage_key ci) (\<lambda>k. if True \<and>
      visible (oc_layers cdc (ext_overlay e)) (Child_Slot (child_storage_key ci) k) \<noteq> None then Some None else None))
      (ext_overlay e) oc1"
    using clear_child_ok [of "ext_overlay e" ci "\<lambda>_. True"] assms(1)
    unfolding ext_inv_def oc_clear_child_storage_def slot_of_def by auto
  from removal_ok [where clear = "oc_clear_child_storage cx ci" and ci = "Some ci" and P = "\<lambda>_. True"
      and p = None and maybe_limit = maybe_limit and start = cursor, OF assms c on_child_slots] show ?thesis
    by (simp add: ext_kill_child_storage_def trie_of_def keys_from_def)
qed

end

end
