(* ===== verification/Externalities_Correct.thy ===== *)
theory Externalities_Correct
  imports Externalities_Removal
begin

text \<open>
  Consequences for callers: removing in rounds with a limit and the returned cursor ends and removes
  everything, the top-level writes leave the roots of child tries alone, and a commit hands all
  visible changes to the backend.
\<close>

subsection \<open>Going on from a cursor\<close>

lemma filter_from:
  "sorted_wrt (<) (xs @ c # ys) \<Longrightarrow> filter (\<lambda>k. c \<le> k) (xs @ c # ys) = (c # ys :: 'k::linorder list)"
  by (induction xs) (auto simp: sorted_wrt_append filter_id_conv intro: less_imp_le)

lemma keys_from_cursor:
  assumes "bt_wf t" "cursor_after maybe_limit (keys_from t p start) = Some c"
  shows "keys_from t p (Some c) = drop (length (take_limit maybe_limit (keys_from t p start))) (keys_from t p start)"
proof -
  let ?ks = "keys_from t p start"
  let ?n = "length (take_limit maybe_limit ?ks)"
  obtain ys where d: "drop ?n ?ks = c # ys" using assms(2) by (auto simp: cursor_after_def split: list.splits)
  have ks: "?ks = take ?n ?ks @ c # ys" using append_take_drop_id [of ?n ?ks] d by simp
  have "sorted_wrt (<) ?ks" using assms(1) by (simp add: keys_from_def bt_wf_def sorted_wrt_filter)
  then have "filter (\<lambda>k. c \<le> k) ?ks = c # ys" using filter_from ks by metis
  moreover have "c \<in> set ?ks" using ks by (metis in_set_conv_decomp)
  then have "filter (\<lambda>k. c \<le> k) ?ks = keys_from t p (Some c)"
    by (auto simp: keys_from_def intro!: filter_cong split: option.splits)
  ultimately show ?thesis using d by simp
qed

lemma take_limit_all: "cursor_after maybe_limit ks = None \<Longrightarrow> take_limit maybe_limit ks = ks"
  by (auto simp: cursor_after_def take_limit_def split: option.splits list.splits)

lemma take_limit_split: "ks = take_limit maybe_limit ks @ drop (length (take_limit maybe_limit ks)) ks"
proof (cases maybe_limit)
  case (Some l)
  then show ?thesis by (cases "unat l \<le> length ks") (simp_all add: take_limit_def min_def)
qed (simp add: take_limit_def)

lemma take_limit_subset: "set (take_limit maybe_limit ks) \<subseteq> set ks"
  by (auto simp: take_limit_def split: option.splits dest: in_set_takeD)

lemma keys_from_prefix: "k \<in> set (keys_from t (Some p) s) \<Longrightarrow> starts_with k p \<and> bt_get t k \<noteq> None"
  by (auto simp: keys_from_def bt_get_None_iff)

lemma keys_from_all: "starts_with k p \<Longrightarrow> bt_get t k \<noteq> None \<Longrightarrow> k \<in> set (keys_from t (Some p) None)"
  by (auto simp: keys_from_def bt_get_None_iff)

text \<open>Calls of \<open>clear_prefix\<close> with a limit, each from the cursor of the one before, until there is none.\<close>

fun clear_prefix_rounds ::
  "nat \<Rightarrow> codecs \<Rightarrow> ('e, 'h, 't) backend \<Rightarrow> bytes \<Rightarrow> u32 \<Rightarrow> bytes option \<Rightarrow> ('h, 't, 'i, 'x) ext
     \<Rightarrow> (bool \<times> ('h, 't, 'i, 'x) ext) run" where
  "clear_prefix_rounds 0 cx b p limit cursor e = Some (False, e)"
| "clear_prefix_rounds (Suc n) cx b p limit cursor e =
     do { (r, e) \<leftarrow> ext_clear_prefix cx b p (Some limit) cursor e;
          (case maybe_cursor r of None \<Rightarrow> Some (True, e)
           | Some c \<Rightarrow> clear_prefix_rounds n cx b p limit (Some c) e) }"

context overlay_codecs
begin

text \<open>One round: what it removes stays removed, nothing else of the prefix comes back.\<close>

lemma removes_view:
  assumes "removes cdc st None (\<lambda>k. starts_with k p) limit (keys_from (ts_top st) (Some p) cursor) r e e'"
  shows "\<forall>k. slot = Top_Slot k \<longrightarrow> \<not> starts_with k p \<Longrightarrow> view cdc st e' slot = view cdc st e slot"
    "starts_with k p \<Longrightarrow> k \<in> set (take_limit limit (keys_from (ts_top st) (Some p) cursor)) \<or>
      bt_get (ts_top st) k = None \<or> view cdc st e (Top_Slot k) = None \<Longrightarrow> view cdc st e' (Top_Slot k) = None"
proof -
  let ?taken = "take_limit limit (keys_from (ts_top st) (Some p) cursor)"
  have v: "view cdc st e' slot = (if (\<exists>k. slot = Top_Slot k \<and> (starts_with k p \<and>
      visible (oc_layers cdc (ext_overlay e)) slot \<noteq> None \<or> k \<in> set ?taken)) then None else view cdc st e slot)" for slot
    using assms by (simp add: removes_def slot_of_def)
  have taken: "starts_with k p" if "k \<in> set ?taken" for k
    using keys_from_prefix [OF subsetD [OF take_limit_subset that]] by simp
  show "\<forall>k. slot = Top_Slot k \<longrightarrow> \<not> starts_with k p \<Longrightarrow> view cdc st e' slot = view cdc st e slot"
    unfolding v using taken by auto
  show "view cdc st e' (Top_Slot k) = None" if "starts_with k p"
    "k \<in> set ?taken \<or> bt_get (ts_top st) k = None \<or> view cdc st e (Top_Slot k) = None"
  proof (cases "visible (oc_layers cdc (ext_overlay e)) (Top_Slot k) = None \<and> k \<notin> set ?taken")
    case True
    then have "view cdc st e (Top_Slot k) = None"
      using that(2) by (auto simp: view_def over_def state_value_def)
    then show ?thesis unfolding v by simp
  qed (use that(1) in \<open>auto simp: v\<close>)
qed

lemma clear_prefix_rounds_ok:
  assumes srv: "serves b st" and p: "\<not> starts_with_child_storage_key p" and l: "0 < limit"
    and inv: "ext_inv cdc e" and n: "length (keys_from (ts_top st) (Some p) cursor) < n"
  shows "\<exists>e'. clear_prefix_rounds n cx b p limit cursor e = Some (True, e') \<and> ext_inv cdc e' \<and>
    (\<forall>slot. (\<forall>k. slot = Top_Slot k \<longrightarrow> \<not> starts_with k p) \<longrightarrow> view cdc st e' slot = view cdc st e slot) \<and>
    (\<forall>k. starts_with k p \<longrightarrow> k \<in> set (keys_from (ts_top st) (Some p) cursor) \<or> bt_get (ts_top st) k = None \<or>
      view cdc st e (Top_Slot k) = None \<longrightarrow> view cdc st e' (Top_Slot k) = None)"
  using inv n
proof (induction n arbitrary: cursor e)
  case (Suc n)
  let ?ks = "keys_from (ts_top st) (Some p) cursor"
  obtain r e1 where r: "ext_clear_prefix cx b p (Some limit) cursor e = Some (r, e1)"
    "removes cdc st None (\<lambda>k. starts_with k p) (Some limit) ?ks r e e1"
    using clear_prefix_removes [OF Suc.prems(1) srv p] by blast
  note rv = removes_view [OF r(2)]
  have inv1: "ext_inv cdc e1" and cur: "maybe_cursor r = cursor_after (Some limit) ?ks"
    using r(2) by (simp_all add: removes_def)
  show ?case
  proof (cases "maybe_cursor r")
    case None
    then show ?thesis using r(1) inv1 rv cur take_limit_all [of "Some limit" ?ks] by auto
  next
    case (Some c)
    let ?m = "length (take_limit (Some limit) ?ks)"
    have wf: "bt_wf (ts_top st)" using srv by (simp add: serves_def)
    have next_ks: "keys_from (ts_top st) (Some p) (Some c) = drop ?m ?ks"
      using cur [symmetric] unfolding Some by (rule keys_from_cursor [OF wf])
    have "drop ?m ?ks \<noteq> []" using cur Some by (auto simp: cursor_after_def)
    moreover have "0 < unat limit" using l by (simp add: word_less_nat_alt)
    ultimately have m: "0 < ?m" by (auto simp: take_limit_def)
    have "length (keys_from (ts_top st) (Some p) (Some c)) < n"
      using Suc.prems(2) m \<open>drop ?m ?ks \<noteq> []\<close> unfolding next_ks length_drop drop_eq_Nil by linarith
    from Suc.IH [OF inv1 this] obtain e' where e': "clear_prefix_rounds n cx b p limit (Some c) e1 = Some (True, e')"
      "ext_inv cdc e'"
      "\<forall>slot. (\<forall>k. slot = Top_Slot k \<longrightarrow> \<not> starts_with k p) \<longrightarrow> view cdc st e' slot = view cdc st e1 slot"
      "\<forall>k. starts_with k p \<longrightarrow> k \<in> set (drop ?m ?ks) \<or> bt_get (ts_top st) k = None \<or>
        view cdc st e1 (Top_Slot k) = None \<longrightarrow> view cdc st e' (Top_Slot k) = None"
      unfolding next_ks by blast
    have split: "k \<in> set (take_limit (Some limit) ?ks) \<or> k \<in> set (drop ?m ?ks)" if "k \<in> set ?ks" for k
    proof -
      have "?ks = take_limit (Some limit) ?ks @ drop ?m ?ks" by (rule take_limit_split)
      then show ?thesis using that by (metis Un_iff set_append)
    qed
    show ?thesis using r(1) Some e' rv split
      by (intro exI [of _ e']) (simp, blast)
  qed
qed simp

subsection \<open>Roots of child tries\<close>

lemma child_prefix_disjoint:
  assumes "starts_with k p" "is_child_storage_key k"
  shows "starts_with_child_storage_key p"
proof -
  let ?C = CHILD_STORAGE_KEY_PREFIX
  have p: "take (length p) k = p" "take (length ?C) k = ?C"
    using assms by (simp_all add: starts_with_def is_child_storage_key_def)
  show ?thesis
  proof (cases "length ?C < length p")
    case True
    then have "take (length ?C) p = ?C" using p by (metis min.absorb1 less_imp_le take_take)
    with True show ?thesis by (simp add: starts_with_child_storage_key_def starts_with_def)
  next
    case False
    then have "take (length p) ?C = p" using p by (metis min.absorb1 not_less take_take)
    with False show ?thesis by (simp add: starts_with_child_storage_key_def starts_with_def)
  qed
qed

lemma place_storage_ok:
  assumes "ext_inv cdc e" "\<not> is_child_storage_key k"
  shows "\<exists>e'. ext_place_storage cx k v e = Some e' \<and> ext_inv cdc e' \<and>
    (\<forall>st. view cdc st e' = (view cdc st e)(Top_Slot k := v))"
proof -
  obtain oc where oc: "oc_set_storage cx k v (ext_overlay e) = Some oc"
    "oc_wrote cdc [Top_Slot k \<mapsto> v] (ext_overlay e) oc"
    using set_storage_ok [of "ext_overlay e" k v] assms(1) unfolding ext_inv_def by blast
  have "view cdc st (e\<lparr>ext_overlay := oc\<rparr>) = (view cdc st e)(Top_Slot k := v)" for st
    using oc_wrote_visible [OF oc(2)] by (auto simp: view_def over_def fun_eq_iff)
  then show ?thesis using oc assms(2) oc_wrote_inv [OF oc(2)]
    by (simp add: ext_place_storage_def upd_overlay_def ext_inv_def)
qed

lemma place_child_storage_ok:
  assumes "ext_inv cdc e"
  shows "\<exists>e'. ext_place_child_storage cx ci k v e = Some e' \<and> ext_inv cdc e' \<and>
    (\<forall>st. view cdc st e' = (view cdc st e)(Child_Slot (child_storage_key ci) k := v))"
proof -
  obtain oc where oc: "oc_set_child_storage cx ci k v (ext_overlay e) = Some oc"
    "oc_wrote cdc [Child_Slot (child_storage_key ci) k \<mapsto> v] (ext_overlay e) oc"
    using set_child_storage_ok [of "ext_overlay e" ci k v] assms unfolding ext_inv_def by blast
  have "view cdc st (e\<lparr>ext_overlay := oc\<rparr>) = (view cdc st e)(Child_Slot (child_storage_key ci) k := v)" for st
    using oc_wrote_visible [OF oc(2)] by (auto simp: view_def over_def fun_eq_iff)
  then show ?thesis using oc oc_wrote_inv [OF oc(2)]
    by (simp add: ext_place_child_storage_def upd_overlay_def ext_inv_def)
qed

text \<open>An append extends what the view shows; a deleted key starts a new list, an unset one the empty bytes.\<close>

lemma storage_append_ok:
  assumes "ext_inv cdc e" "serves b st"
  shows "\<exists>e'. ext_storage_append cx b k x e = Some e' \<and> ext_inv cdc e' \<and>
    view cdc st e' = (view cdc st e)(Top_Slot k := Some (scale_append cdc
      (case visible (oc_layers cdc (ext_overlay e)) (Top_Slot k) of Some v \<Rightarrow> v
       | None \<Rightarrow> Some (case view cdc st e (Top_Slot k) of None \<Rightarrow> [] | Some bs \<Rightarrow> bs)) x))"
proof -
  let ?vis = "visible (oc_layers cdc (ext_overlay e))"
  let ?i = "case bt_get (ts_top st) k of None \<Rightarrow> [] | Some bs \<Rightarrow> bs"
  let ?v = "scale_append cdc (case ?vis (Top_Slot k) of None \<Rightarrow> Some ?i | Some v \<Rightarrow> v) x"
  have init: "map_option (\<lambda>x. case x of None \<Rightarrow> [] | Some bs \<Rightarrow> bs) (expect_ok (b_storage b k)) = Some ?i"
    using assms(2) by (simp add: serves_def expect_ok_def)
  obtain oc where oc: "oc_append_storage cx k x (\<lambda>_. map_option (\<lambda>x. case x of None \<Rightarrow> [] | Some bs \<Rightarrow> bs)
      (expect_ok (b_storage b k))) (ext_overlay e) = Some oc"
    "oc_wrote cdc [Top_Slot k \<mapsto> Some ?v] (ext_overlay e) oc"
    using append_ok [of "ext_overlay e" k "\<lambda>_. map_option (\<lambda>x. case x of None \<Rightarrow> [] | Some bs \<Rightarrow> bs)
        (expect_ok (b_storage b k))" ?i x] assms(1) init unfolding ext_inv_def by blast
  have "?v = scale_append cdc (case ?vis (Top_Slot k) of Some v \<Rightarrow> v
       | None \<Rightarrow> Some (case view cdc st e (Top_Slot k) of None \<Rightarrow> [] | Some bs \<Rightarrow> bs)) x"
    by (simp add: view_def over_def state_value_def split: option.split)
  moreover have "view cdc st (e\<lparr>ext_overlay := oc\<rparr>) = (view cdc st e)(Top_Slot k := Some ?v)"
    using oc_wrote_visible [OF oc(2)] by (auto simp: view_def over_def fun_eq_iff)
  ultimately show ?thesis using oc(1) oc_wrote_inv [OF oc(2)]
    by (simp add: ext_storage_append_def upd_overlay_def ext_inv_def)
qed

subsection \<open>Committing from a benchmark\<close>

lemma repeat_commit_ok:
  fixes oc :: "('h, 't) overlayed_changes"
  assumes "oc_inv cdc oc" "cache_ok cdc b oc" "om_protected (oc_top oc) = 0" "oc_transaction_depth oc = n"
  shows "\<exists>oc'. repeat_close n (oc_commit_transaction cx) oc = Some oc' \<and> oc_inv cdc oc' \<and> cache_ok cdc b oc' \<and>
    oc_transaction_depth oc' = 0 \<and> visible (oc_layers cdc oc') = visible (oc_layers cdc oc) \<and>
    infos (oc_children oc') = infos (oc_children oc) \<and>
    oc_storage_transaction_cache oc' = oc_storage_transaction_cache oc \<and>
    oc_transaction_index_ops oc' = oc_transaction_index_ops oc"
  using assms
proof (induction n arbitrary: oc)
  case (Suc n)
  have op: "Suc (om_protected (oc_top oc)) < length (oc_layers cdc oc)" using Suc.prems(3,4) by simp
  obtain oc1 where oc1: "oc_commit_transaction cx oc = Some (Inr (), oc1)" "oc_inv cdc oc1"
    "om_protected (oc_top oc1) = 0" "oc_layers cdc oc1 = merge_top (oc_layers cdc oc)"
    using commit_ok [OF Suc.prems(1) op] Suc.prems(3) by auto
  have "length (oc_layers cdc oc1) = length (merge_top (oc_layers cdc oc))" by (simp only: oc1(4))
  then have d: "oc_transaction_depth oc1 = n" using Suc.prems(4) by simp
  have f: "infos (oc_children oc1) = infos (oc_children oc)"
    "oc_storage_transaction_cache oc1 = oc_storage_transaction_cache oc"
    "oc_transaction_index_ops oc1 = oc_transaction_index_ops oc"
    using oc1(1) by (auto simp: oc_commit_transaction_def infos_for_children split: bind_splits sum.splits)
  from Suc.IH [OF oc1(2) commit_cache_ok [OF Suc.prems(1,2) oc1(1)] oc1(3) d]
  show ?case using oc1(1,4) f by (auto simp: expect_def)
qed simp

lemma enter_default:
  assumes "oc_top oc = om_default" "oc_children oc = []" "oc_offchain oc = om_default"
  shows "\<exists>oc'. expect (oc_enter_runtime oc) = Some oc' \<and> om_in_runtime (oc_top oc') \<and>
    oc_is_empty oc' \<and> oc_transaction_depth oc' = 0"
  using assms by (simp add: oc_enter_runtime_def om_enter_runtime_def om_default_def expect_def oc_is_empty_def
      om_is_empty_def om_in_runtime_def oc_transaction_depth_def transaction_depth_def)

lemma commit_all_ok:
  assumes inv: "ext_inv cdc e" and ok: "cache_ok cdc b (ext_overlay e)"
    and prot: "om_protected (oc_top (ext_overlay e)) = 0"
  shows "\<exists>main kids root tx e'. shows_changes (visible (oc_layers cdc (ext_overlay e))) main kids \<and>
    map fst kids = map fst (oc_children (ext_overlay e)) \<and>
    (root, tx) = full_storage_root b main (zip (map snd (infos (oc_children (ext_overlay e)))) (map snd kids))
      (drained_version V1 (ext_overlay e)) \<and>
    (\<forall>commit. ext_commit cx b commit e = (case commit root tx main kids of Some (Inr _) \<Rightarrow> Some e' | _ \<Rightarrow> None)) \<and>
    om_in_runtime (oc_top (ext_overlay e')) \<and> oc_is_empty (ext_overlay e') \<and> oc_transaction_depth (ext_overlay e') = 0"
proof -
  let ?oc = "ext_overlay e"
  obtain oc1 where oc1: "repeat_close (oc_transaction_depth ?oc) (oc_commit_transaction cx) ?oc = Some oc1" "oc_inv cdc oc1"
    "cache_ok cdc b oc1" "oc_transaction_depth oc1 = 0" "visible (oc_layers cdc oc1) = visible (oc_layers cdc ?oc)"
    "infos (oc_children oc1) = infos (oc_children ?oc)"
    "oc_storage_transaction_cache oc1 = oc_storage_transaction_cache ?oc"
    using repeat_commit_ok [OF inv [unfolded ext_inv_def] ok prot refl] by blast
  obtain sc oc2 where d: "drain_storage_changes cx b V1 oc1 = Some (sc, oc2)"
    "shows_changes (visible (oc_layers cdc oc1)) (main_storage_changes sc) (child_storage_changes sc)"
    "map fst (child_storage_changes sc) = map fst (oc_children oc1)"
    "(transaction_storage_root sc, sc_transaction sc) = full_storage_root b (main_storage_changes sc)
      (zip (map snd (infos (oc_children oc1))) (map snd (child_storage_changes sc))) (drained_version V1 oc1)"
    "oc_top oc2 = om_default" "oc_children oc2 = []" "oc_offchain oc2 = om_default"
    using drain_ok [OF oc1(2-4), of V1] by blast
  obtain oc3 where oc3: "expect (oc_enter_runtime oc2) = Some oc3" "om_in_runtime (oc_top oc3)" "oc_is_empty oc3"
    "oc_transaction_depth oc3 = 0"
    using enter_default [OF d(5-7)] by blast
  have "drained_version V1 oc1 = drained_version V1 ?oc" by (simp add: drained_version_def oc1(7))
  moreover have "map fst (oc_children oc1) = map fst (oc_children ?oc)" using oc1(6) keys_infos by metis
  moreover have "ext_commit cx b commit e = (case commit (transaction_storage_root sc) (sc_transaction sc) (main_storage_changes sc)
      (child_storage_changes sc) of Some (Inr _) \<Rightarrow> Some (e\<lparr>ext_overlay := oc3\<rparr>) | _ \<Rightarrow> None)" for commit
    using oc1(1) d(1) oc3(1) by (simp add: ext_commit_def upd_overlay_def expect_ok_def split: option.split sum.split)
  ultimately show ?thesis using d(2-4) oc1(5,6) oc3(2-4)
    by (intro exI [of _ "main_storage_changes sc"] exI [of _ "child_storage_changes sc"]
        exI [of _ "transaction_storage_root sc"] exI [of _ "sc_transaction sc"] exI [of _ "e\<lparr>ext_overlay := oc3\<rparr>"]) simp
qed

end

end
