(* ===== verification/Overlayed_Props.thy ===== *)
theory Overlayed_Props
  imports Overlayed_Drain
begin

text \<open>
  The properties of \<open>OverlayedChanges\<close>: one stack of layers for the top trie, the child tries and the
  offchain storage, and the storage root computed from it.
\<close>

abbreviation "oc_run cx \<equiv> txn_run (oc_apply cx) oc_start_transaction (oc_close cx)"

context overlay_codecs
begin

lemmas oc_run_refines = overlay.run_refines
lemmas oc_balanced_rollback = overlay.balanced_rollback
lemmas oc_runtime_session = overlay.runtime_session

text \<open>The root spelled out over what is visible.\<close>

lemma current_root_visible:
  assumes "oc_inv cdc oc"
  shows "\<exists>d ds. current_root cdc b version oc = full_storage_root b d ds version \<and>
    bt_wf d \<and> (\<forall>k. bt_get d k = visible (oc_layers cdc oc) (Top_Slot k)) \<and>
    list_all2 (\<lambda>(c, (_, info)) (info', cd). info' = info \<and> bt_wf cd \<and>
      (\<forall>k. bt_get cd k = visible (oc_layers cdc oc) (Child_Slot c k))) (oc_children oc) ds"
proof -
  have "list_all2 (\<lambda>(c, (_, info)) (info', cd). info' = info \<and> bt_wf cd \<and>
      (\<forall>k. bt_get cd k = visible (oc_layers cdc oc) (Child_Slot c k))) (oc_children oc) (child_spec cdc (oc_children oc))"
    unfolding child_spec_def list_all2_map2
  proof (rule list.rel_refl_strong)
    fix e
    assume e: "e \<in> set (oc_children oc)"
    obtain c m info where cm: "e = (c, (m, info))" by (cases e) auto
    then have get: "bt_get (oc_children oc) c = Some (m, info)"
      using bt_get_Some_iff [OF inv_parts(4) [OF assms]] e by simp
    then have "overlay_inv cdc m" using inv_parts(5) [OF assms] by (auto simp: child_ok_def)
    then show "(case e of (c, _, info) \<Rightarrow> \<lambda>(info', cd). info' = info \<and> bt_wf cd \<and>
        (\<forall>k. bt_get cd k = visible (oc_layers cdc oc) (Child_Slot c k)))
        (case e of (k, m, info) \<Rightarrow> (info, delta_spec cdc m))"
      using delta_spec_get visible_oc_layers(2) [OF assms] get cm by simp
  qed
  then show ?thesis
    using delta_spec_get [OF inv_parts(1) [OF assms]] visible_oc_layers(1) [OF assms] unfolding current_root_def
    by (intro exI [of _ "delta_spec cdc (oc_top oc)"] exI [of _ "child_spec cdc (oc_children oc)"]) simp
qed

end

lemmas scale_cx_laws = scale_cx.overlay_codecs_axioms

lemma oc_default_ok:
  "oc_inv (cx_compact scale_codecs) oc_default" "oc_layers (cx_compact scale_codecs) oc_default = [Map.empty]"
  "cache_ok cd b oc_default" "om_protected (oc_top oc_default) = 0" "\<not> om_in_runtime (oc_top oc_default)"
proof -
  have "overlay_inv scale_compact (om_default :: bytes changeset)" "offchain_inv (om_default :: offchain_changes)"
    "locked (om_default :: bytes changeset) (om_default :: offchain_changes)"
    by (rule overlay_default_ok, rule offchain_entry.okm_default)
      (simp add: locked_def om_default_def transaction_depth_def om_protected_def om_in_runtime_def)
  then show "oc_inv (cx_compact scale_codecs) oc_default"
    by (simp add: oc_inv_def oc_default_def scale_codecs_def)
  show "oc_layers (cx_compact scale_codecs) oc_default = [Map.empty]"
    by (rule oc_layersI)
      (auto simp: oc_default_def scale_codecs_def oc_transaction_depth_def transaction_depth_def om_default_def
        oc_layer_def child_layer_def om_layers_def om_views_def split: storage_slot.split)
qed (simp_all add: oc_default_def cache_ok_def om_protected_def om_in_runtime_def om_default_def)

lemma set_storage_children: "oc_set_storage cx k v oc = Some oc' \<Longrightarrow> oc_children oc' = oc_children oc"
  by (auto simp: oc_set_storage_def extrinsic_index_def oc_storage_def tally_write_def mark_dirty_def Let_def
      split: bind_splits if_splits option.splits)

text \<open>A backend over an empty state whose root is the delta itself.\<close>

definition listing_backend :: "(unit, delta, unit) backend" where
  "listing_backend = \<lparr>b_storage = (\<lambda>_. Inr None), b_child_storage = (\<lambda>_ _. Inr None),
     b_storage_hash = (\<lambda>_. Inr None), b_child_storage_hash = (\<lambda>_ _. Inr None),
     b_next_storage_key = (\<lambda>_. Inr None), b_next_child_storage_key = (\<lambda>_ _. Inr None),
     b_keys = (\<lambda>_ _ _. Inr []), b_storage_root = (\<lambda>d _. (d, ())), b_child_storage_root = (\<lambda>_ d _. (d, d = [], ())),
     b_empty_transaction = (), b_consolidate = (\<lambda>_ _. ()), b_hash = (\<lambda>_. []), b_encode_root = (\<lambda>_. []),
     b_decode_root = (\<lambda>_. None), b_empty_child_root = []\<rparr>"

lemma listing_root:
  "oc_children oc = [] \<Longrightarrow> fst (current_root cd listing_backend v oc) = delta_spec cd (oc_top oc)"
  by (simp add: current_root_def full_storage_root_def child_spec_def listing_backend_def)

text \<open>
  C2: The whole overlay refines one stack of maps from slots (a key of the top trie, of a child trie or
  of the offchain storage) to values.  Any sequence of reads, writes, appends, removals and
  transaction operations runs without a panic, so that none of the \<open>expect\<close> calls on the children's and
  the offchain transactions fails, and leaves the layers the same sequence leaves on the stack of
  maps; children created inside a transaction and emptied by a rollback included.
\<close>

theorem overlayed_changes_refine:
  assumes "overlay_codecs cx" "oc_inv (cx_compact cx) oc"
  shows "\<exists>oc'. oc_run cx ops oc = Some oc' \<and> oc_inv (cx_compact cx) oc' \<and>
    oc_layers (cx_compact cx) oc' =
      spec_run (oc_effect (cx_compact cx)) (om_protected (oc_top oc)) ops (oc_layers (cx_compact cx) oc)"
  using overlay_codecs.oc_run_refines [OF assms, of ops] by blast

theorem overlayed_changes_refine_witness:
  "\<exists>oc'. oc_run scale_codecs [Op_Start, Op_Write (OW_Child_Set (ParentKeyId [1]) [2] (Some [3])),
      Op_Write (OW_Set [4] None), Op_Commit] (oc_default :: (nat, nat) overlayed_changes) = Some oc' \<and>
    oc_layers (cx_compact scale_codecs) oc' = [[Child_Slot [1] [2] \<mapsto> Some [3], Top_Slot [4] \<mapsto> None]]"
  using overlayed_changes_refine [OF scale_cx_laws oc_default_ok(1),
      of "[Op_Start, Op_Write (OW_Child_Set (ParentKeyId [1]) [2] (Some [3])), Op_Write (OW_Set [4] None), Op_Commit]"]
  by (auto simp: oc_default_ok)

text \<open>
  C10: Rolling back a transaction of the overlay restores every slot, whatever was done inside.
\<close>

theorem overlayed_rollback_restores:
  assumes "overlay_codecs cx" "oc_inv (cx_compact cx) oc" "balanced 0 ops"
  shows "\<exists>oc'. oc_run cx (Op_Start # ops @ [Op_Rollback]) oc = Some oc' \<and> oc_inv (cx_compact cx) oc' \<and>
    oc_layers (cx_compact cx) oc' = oc_layers (cx_compact cx) oc"
  using overlay_codecs.oc_balanced_rollback [OF assms] by blast

theorem overlayed_rollback_restores_witness:
  "\<exists>oc'. oc_run scale_codecs (Op_Start # [Op_Write (OW_Child_Set (ParentKeyId [1]) [2] None), Op_Start,
      Op_Write (OW_Append [7] [8] []), Op_Commit] @ [Op_Rollback]) (oc_default :: (nat, nat) overlayed_changes) = Some oc' \<and>
    oc_layers (cx_compact scale_codecs) oc' = [Map.empty]"
  using overlayed_rollback_restores [OF scale_cx_laws oc_default_ok(1),
      of "[Op_Write (OW_Child_Set (ParentKeyId [1]) [2] None), Op_Start, Op_Write (OW_Append [7] [8] []), Op_Commit]"]
    oc_default_ok(2) by auto

text \<open>
  C12: The storage root is the backend's root over the visible changes.  When the cached root is the one of
  the current changes, it stays so through any sequence of reads, writes and removals of keys (of the
  top trie, of child tries, by prefix, and of the offchain storage) and of opening, committing and
  rolling back transactions; appends are not among them, nor entering and leaving the runtime.  After
  such a sequence \<open>storage_root\<close> returns the root over the visible values of the top trie and of every child, each in key
  order, in any nesting of transactions.
\<close>

theorem storage_root_sound:
  assumes "overlay_codecs cx" "oc_inv (cx_compact cx) oc" "cache_ok (cx_compact cx) b oc" "list_all no_append ops"
  shows "\<exists>oc1 cached oc2 d ds. oc_run cx ops oc = Some oc1 \<and>
    oc_storage_root cx b version oc1 = Some ((fst (full_storage_root b d ds version), cached), oc2) \<and>
    bt_wf d \<and> (\<forall>k. bt_get d k = visible (oc_layers (cx_compact cx) oc1) (Top_Slot k)) \<and>
    list_all2 (\<lambda>(c, (_, info)) (info', cd). info' = info \<and> bt_wf cd \<and>
      (\<forall>k. bt_get cd k = visible (oc_layers (cx_compact cx) oc1) (Child_Slot c k))) (oc_children oc1) ds \<and>
    oc_layers (cx_compact cx) oc2 = oc_layers (cx_compact cx) oc1 \<and> cache_ok (cx_compact cx) b oc2"
proof -
  obtain oc1 where oc1: "oc_run cx ops oc = Some oc1" "oc_inv (cx_compact cx) oc1"
    using overlay_codecs.oc_run_refines [OF assms(1,2), of ops] by blast
  have "cache_ok (cx_compact cx) b oc1" using overlay_codecs.run_cache_ok [OF assms oc1(1)] .
  from overlay_codecs.storage_root_ok [OF assms(1) oc1(2) this, of version] obtain cached oc2 where oc2:
    "oc_storage_root cx b version oc1 = Some ((fst (current_root (cx_compact cx) b version oc1), cached), oc2)"
    "oc_wrote (cx_compact cx) Map.empty oc1 oc2" "cache_ok (cx_compact cx) b oc2" by blast
  from overlay_codecs.current_root_visible [OF assms(1) oc1(2), of b version] show ?thesis
  proof (elim exE conjE)
    fix d ds
    assume "current_root (cx_compact cx) b version oc1 = full_storage_root b d ds version"
    with oc1(1) oc2(1) have "oc_run cx ops oc = Some oc1 \<and>
      oc_storage_root cx b version oc1 = Some ((fst (full_storage_root b d ds version), cached), oc2)" by simp
    then show ?thesis if "bt_wf d" "\<forall>k. bt_get d k = visible (oc_layers (cx_compact cx) oc1) (Top_Slot k)"
      "list_all2 (\<lambda>(c, (_, info)) (info', cd). info' = info \<and> bt_wf cd \<and>
      (\<forall>k. bt_get cd k = visible (oc_layers (cx_compact cx) oc1) (Child_Slot c k))) (oc_children oc1) ds"
      using that oc2(3) overlay_codecs.oc_wrote_layers [OF assms(1) oc2(2)] by blast
  qed
qed

theorem storage_root_sound_witness:
  "\<exists>oc1 cached oc2. oc_run scale_codecs [Op_Write (OW_Set [4] (Some [5])), Op_Start] oc_default = Some oc1 \<and>
    oc_storage_root scale_codecs listing_backend V1 oc1 = Some (([([4], Some [5])], cached), oc2)"
proof -
  let ?cd = "cx_compact scale_codecs" and ?ops = "[Op_Write (OW_Set [4] (Some [5])), Op_Start]"
  obtain oc1 cached oc2 d ds where r: "oc_run scale_codecs ?ops oc_default = Some oc1"
    "oc_storage_root scale_codecs listing_backend V1 oc1 = Some ((fst (full_storage_root listing_backend d ds V1), cached), oc2)"
    "bt_wf d" "\<forall>k. bt_get d k = visible (oc_layers ?cd oc1) (Top_Slot k)"
    "list_all2 (\<lambda>(c, (_, info)) (info', cd). info' = info \<and> bt_wf cd \<and>
      (\<forall>k. bt_get cd k = visible (oc_layers ?cd oc1) (Child_Slot c k))) (oc_children oc1) ds"
    using storage_root_sound [OF scale_cx_laws oc_default_ok(1,3), of ?ops listing_backend V1]
    by (auto simp: no_append_def)
  have lay: "oc_layers ?cd oc1 = [Map.empty, [Top_Slot [4] \<mapsto> Some [5]]]"
    using overlay_codecs.oc_run_refines [OF scale_cx_laws, of "oc_default :: (delta, unit) overlayed_changes" ?ops, OF oc_default_ok(1)] r(1)
    by (auto simp: oc_default_ok)
  have kids: "oc_children oc1 = []"
    using r(1) by (auto simp: txn_run_def oc_start_transaction_def oc_default_def dest!: set_storage_children split: bind_splits)
  have "bt_get d = bt_get [([4], Some [5])]" using r(4) by (auto simp: lay fun_eq_iff)
  then have "d = [([4], Some [5])]" using r(3) by (intro bt_canonical) (auto simp: bt_wf_def)
  then show ?thesis using r(1,2,5) by (auto simp: kids full_storage_root_def listing_backend_def)
qed

text \<open>
  C33: An append does not invalidate the cached storage root: after \<open>storage_root\<close>, an append changes the
  value of its key and the next \<open>storage_root\<close> still returns the root of before.
\<close>

theorem append_keeps_stale_root:
  assumes "overlay_codecs cx" "oc_inv (cx_compact cx) oc" "cache_ok (cx_compact cx) b oc"
  shows "\<exists>cached oc1 oc2. oc_storage_root cx b version oc =
      Some ((fst (current_root (cx_compact cx) b version oc), cached), oc1) \<and>
    oc_append_storage cx k x (\<lambda>_. Some i) oc1 = Some oc2 \<and> oc_inv (cx_compact cx) oc2 \<and>
    visible (oc_layers (cx_compact cx) oc2) (Top_Slot k) = Some (Some (scale_append (cx_compact cx)
      (case visible (oc_layers (cx_compact cx) oc) (Top_Slot k) of None \<Rightarrow> Some i | Some v \<Rightarrow> v) x)) \<and>
    oc_storage_root cx b version oc2 = Some ((fst (current_root (cx_compact cx) b version oc), True), oc2)"
proof -
  obtain cached oc1 cache where r: "oc_storage_root cx b version oc =
      Some ((fst (current_root (cx_compact cx) b version oc), cached), oc1)" "oc_wrote (cx_compact cx) Map.empty oc oc1"
    "oc_storage_transaction_cache oc1 = Some cache" "stc_state_version cache = version"
    "(stc_root cache, stc_transaction cache) = current_root (cx_compact cx) b version oc"
    using overlay_codecs.storage_root_ok [OF assms, of version] by blast
  note inv1 = overlay_codecs.oc_wrote_inv [OF assms(1) r(2)]
  let ?v = "case visible (oc_layers (cx_compact cx) oc1) (Top_Slot k) of None \<Rightarrow> Some i | Some v \<Rightarrow> v"
  obtain oc2 where a: "oc_append_storage cx k x (\<lambda>_. Some i) oc1 = Some oc2"
    "oc_wrote (cx_compact cx) [Top_Slot k \<mapsto> Some (scale_append (cx_compact cx) ?v x)] oc1 oc2"
    "oc_storage_transaction_cache oc2 = Some cache"
    using overlay_codecs.append_ok [OF assms(1) inv1, of k "\<lambda>_. Some i" i x] r(3) by auto
  have "visible (oc_layers (cx_compact cx) oc2) (Top_Slot k) = Some (Some (scale_append (cx_compact cx) ?v x))"
    using a(2) by (simp add: oc_wrote_def)
  moreover have "oc_storage_root cx b version oc2 = Some ((fst (current_root (cx_compact cx) b version oc), True), oc2)"
    using a(3) r(4) arg_cong [OF r(5), of fst] by (simp add: oc_storage_root_def Let_def)
  ultimately show ?thesis
    using r(1) a(1) a(2) overlay_codecs.oc_wrote_layers [OF assms(1) r(2)] overlay_codecs.oc_wrote_inv [OF assms(1) a(2)]
    by auto
qed

text \<open>A root that lists \<open>[4]\<close>, an append to \<open>[4]\<close>, and the same root again.\<close>

lemma listing_delta:
  assumes "oc_inv (cx_compact scale_codecs) oc" "visible (oc_layers (cx_compact scale_codecs) oc) (Top_Slot k) = Some v"
    "oc_children oc = []"
  shows "(k, v) \<in> set (fst (current_root (cx_compact scale_codecs) listing_backend version oc))"
  using scale_cx.delta_spec_get [OF scale_cx.inv_parts(1) [OF assms(1)]] assms(2)
    visible_oc_layers(1) [OF assms(1), of k] bt_get_Some_iff
  unfolding listing_root [OF assms(3)] by metis

lemma append_storage_children:
  "oc_append_storage cx k x i oc = Some oc' \<Longrightarrow> oc_children oc' = oc_children oc"
  by (auto simp: oc_append_storage_def extrinsic_index_def oc_storage_def tally_write_def Let_def
      split: bind_splits if_splits option.splits)

theorem append_keeps_stale_root_witness:
  "\<exists>oc1 oc2. oc_storage_root scale_codecs listing_backend V1 oc_default = Some (([], False), oc1) \<and>
    oc_append_storage scale_codecs [4] [5] (\<lambda>_. Some []) oc1 = Some oc2 \<and>
    oc_storage_root scale_codecs listing_backend V1 oc2 = Some (([], True), oc2) \<and>
    fst (current_root (cx_compact scale_codecs) listing_backend V1 oc2) \<noteq> []"
proof -
  let ?cd = "cx_compact scale_codecs"
  have root: "fst (current_root ?cd listing_backend V1 oc_default) = []"
    by (simp add: listing_root oc_default_def delta_spec_def om_default_def)
  obtain cached oc1 oc2 where r: "oc_storage_root scale_codecs listing_backend V1 oc_default = Some (([], cached), oc1)"
    "oc_append_storage scale_codecs [4] [5] (\<lambda>_. Some []) oc1 = Some oc2" "oc_inv ?cd oc2"
    "visible (oc_layers ?cd oc2) (Top_Slot [4]) = Some (Some (scale_append ?cd
      (case visible (oc_layers ?cd (oc_default :: (delta, unit) overlayed_changes)) (Top_Slot [4]) of None \<Rightarrow> Some [] | Some v \<Rightarrow> v) [5]))"
    "oc_storage_root scale_codecs listing_backend V1 oc2 = Some (([], True), oc2)"
    using append_keeps_stale_root [OF scale_cx_laws oc_default_ok(1,3), of listing_backend V1 "[4]" "[5]" "[]"]
    unfolding root by blast
  have "\<not> cached" "oc_children oc1 = []"
    using r(1) by (auto simp: oc_storage_root_def oc_default_def om_delta_def om_default_def Let_def split: prod.splits)
  then have "oc_children oc2 = []" using append_storage_children r(2) by metis
  from listing_delta [OF r(3,4) this, of V1] have "fst (current_root ?cd listing_backend V1 oc2) \<noteq> []"
    by (metis empty_iff list.set(1))
  with r(1,2,5) \<open>\<not> cached\<close> show ?thesis by auto
qed

definition stored_overlay :: "(delta, unit) overlayed_changes" where
  "stored_overlay = oc_from_storage [([1], [2])] []"

lemma stored_overlay_ok:
  "oc_inv (cx_compact scale_codecs) stored_overlay" "cache_ok cd b stored_overlay" "oc_transaction_depth stored_overlay = 0"
  "oc_storage_transaction_cache stored_overlay = None" "oc_children stored_overlay = []"
  "visible (oc_layers (cx_compact scale_codecs) stored_overlay) (Top_Slot k) = [[1] \<mapsto> Some [2]] k"
proof -
  have wf: "bt_wf [([1] :: bytes, [2] :: bytes)]" by (simp add: bt_wf_def)
  note ok = om_from_storage_ok [OF wf, of scale_compact]
  have "offchain_inv (om_default :: offchain_changes)"
    "locked (om_from_storage [([1], [2])] :: bytes changeset) (om_default :: offchain_changes)"
    by (rule offchain_entry.okm_default)
      (simp add: locked_def om_from_storage_def om_default_def transaction_depth_def om_protected_def om_in_runtime_def)
  then show inv: "oc_inv (cx_compact scale_codecs) stored_overlay"
    using ok(1) by (simp add: oc_inv_def stored_overlay_def oc_from_storage_def oc_default_def scale_codecs_def)
  show "visible (oc_layers (cx_compact scale_codecs) stored_overlay) (Top_Slot k) = [[1] \<mapsto> Some [2]] k"
    unfolding visible_oc_layers(1) [OF inv]
    using ok(2) by (simp add: stored_overlay_def oc_from_storage_def scale_codecs_def)
qed (simp_all add: stored_overlay_def oc_from_storage_def oc_default_def cache_ok_def om_from_storage_def
    oc_transaction_depth_def transaction_depth_def)






end
