(* ===== verification/Externalities_Props.thy ===== *)
theory Externalities_Props
  imports Externalities_Correct Overlayed_Props
begin

text \<open>
  The properties of \<open>Ext\<close>.  The backend is any one that answers from tries (\<open>serves\<close>); the witnesses use
  \<open>trie_backend\<close>, which does.
\<close>

definition trie_backend :: "trie_state \<Rightarrow> (unit, delta, unit) backend" where
  "trie_backend st = listing_backend\<lparr>b_storage := (\<lambda>k. Inr (bt_get (ts_top st) k)),
     b_child_storage := (\<lambda>ci k. Inr (bt_get (ts_child st (child_storage_key ci)) k)),
     b_storage_hash := (\<lambda>k. Inr (map_option (\<lambda>_. []) (bt_get (ts_top st) k))),
     b_child_storage_hash := (\<lambda>ci k. Inr (map_option (\<lambda>_. []) (bt_get (ts_child st (child_storage_key ci)) k))),
     b_next_storage_key := (\<lambda>k. Inr (bt_next k (ts_top st))),
     b_next_child_storage_key := (\<lambda>ci k. Inr (bt_next k (ts_child st (child_storage_key ci)))),
     b_keys := (\<lambda>ci p s. Inr (map Inr (keys_from (trie_of st ci) p s)))\<rparr>"

lemma trie_backend_serves: "bt_wf (ts_top st) \<Longrightarrow> \<forall>c. bt_wf (ts_child st c) \<Longrightarrow> serves (trie_backend st) st"
  by (simp add: serves_def trie_backend_def listing_backend_def)

definition sample_state :: trie_state where
  "sample_state = \<lparr>ts_top = [([1], [9]), ([1, 2], [8]), ([3], [7])], ts_child = (\<lambda>_. [])\<rparr>"

definition sample_ext :: "(delta, unit, nat, nat) ext" where
  "sample_ext = ext_new stored_overlay None"

lemma sample_serves: "serves (trie_backend sample_state) sample_state"
  by (rule trie_backend_serves) (simp_all add: sample_state_def bt_wf_def)

lemma sample_ext_ok:
  "ext_inv (cx_compact scale_codecs) sample_ext"
  "view (cx_compact scale_codecs) sample_state sample_ext (Top_Slot k)
    = ([[1] \<mapsto> [2], [1, 2] \<mapsto> [8], [3] \<mapsto> [7]]) k"
  using stored_overlay_ok(1,6)
  by (simp_all add: sample_ext_def ext_new_def ext_inv_def view_def over_def state_value_def sample_state_def)

text \<open>
  C30: A read through the externalities gives the overlay's visible value when there is one and the
  backend's otherwise, for the top trie and for child tries alike; existence and hashes agree with
  it, and no read changes what is seen.
\<close>

theorem ext_reads_view:
  assumes "overlay_codecs cx" "ext_inv (cx_compact cx) e" "serves b st"
  shows "(\<exists>e'. ext_storage cx b k e = Some (view (cx_compact cx) st e (Top_Slot k), e') \<and> unseen (cx_compact cx) e e') \<and>
    (\<exists>e'. ext_exists_storage cx b k e = Some (view (cx_compact cx) st e (Top_Slot k) \<noteq> None, e') \<and> unseen (cx_compact cx) e e') \<and>
    (\<exists>e'. ext_storage_hash cx b k e = Some (map_option (b_encode_root b \<circ> b_hash b) (view (cx_compact cx) st e (Top_Slot k)), e') \<and>
      unseen (cx_compact cx) e e') \<and>
    (\<exists>e'. ext_child_storage cx b ci k e = Some (view (cx_compact cx) st e (Child_Slot (child_storage_key ci) k), e') \<and>
      unseen (cx_compact cx) e e') \<and>
    (\<exists>e'. ext_child_storage_hash cx b ci k e
      = Some (map_option (b_encode_root b \<circ> b_hash b) (view (cx_compact cx) st e (Child_Slot (child_storage_key ci) k)), e') \<and>
      unseen (cx_compact cx) e e') \<and>
    (\<exists>e'. ext_exists_child_storage cx b ci k e
      = Some (view (cx_compact cx) st e (Child_Slot (child_storage_key ci) k) \<noteq> None, e') \<and> unseen (cx_compact cx) e e')"
  using overlay_codecs.reads_ok [OF assms] overlay_codecs.child_reads_ok [OF assms] by blast

theorem ext_reads_view_witness:
  "\<exists>e' e''. ext_storage scale_codecs (trie_backend sample_state) [1] sample_ext = Some (Some [2], e') \<and>
    ext_storage scale_codecs (trie_backend sample_state) [3] sample_ext = Some (Some [7], e'')"
  using ext_reads_view [OF scale_cx_laws sample_ext_ok(1) sample_serves, of "[1]"]
    ext_reads_view [OF scale_cx_laws sample_ext_ok(1) sample_serves, of "[3]"]
  by (auto simp: sample_ext_ok(2))

text \<open>
  C15: \<open>next_storage_key\<close> and \<open>next_child_storage_key\<close> return the least key after the given one that has a value in
  the view, whatever mix of backend keys, overwritten keys, deletions and new keys lies in between,
  and nothing when there is none.
\<close>

theorem next_storage_key_least:
  assumes "overlay_codecs cx" "ext_inv (cx_compact cx) e" "serves b st"
  shows "(\<exists>r e'. ext_next_storage_key cx b k e = Some (r, e') \<and>
      is_next (\<lambda>k. view (cx_compact cx) st e (Top_Slot k) \<noteq> None) k r \<and> unseen (cx_compact cx) e e') \<and>
    (\<exists>r e'. ext_next_child_storage_key cx b ci k e = Some (r, e') \<and>
      is_next (\<lambda>k. view (cx_compact cx) st e (Child_Slot (child_storage_key ci) k) \<noteq> None) k r \<and> unseen (cx_compact cx) e e')"
  using overlay_codecs.next_storage_key_ok [OF assms] overlay_codecs.next_child_storage_key_ok [OF assms] by blast

theorem next_storage_key_least_witness:
  "\<exists>e'. ext_next_storage_key scale_codecs (trie_backend sample_state) [1] sample_ext = Some (Some [1, 2], e')"
proof -
  obtain r e' where r: "ext_next_storage_key scale_codecs (trie_backend sample_state) [1] sample_ext = Some (r, e')"
    "is_next (\<lambda>k. view (cx_compact scale_codecs) sample_state sample_ext (Top_Slot k) \<noteq> None) [1] r"
    using next_storage_key_least [OF scale_cx_laws sample_ext_ok(1) sample_serves, of "[1]"] by blast
  have "is_next (\<lambda>k. view (cx_compact scale_codecs) sample_state sample_ext (Top_Slot k) \<noteq> None) [1] (Some [1, 2])"
    by (auto simp: is_next_def sample_ext_ok(2) split: if_splits)
  with r is_next_unique show ?thesis by blast
qed

text \<open>
  C18: Removing a prefix in rounds ends and is complete.  For a prefix that does not meet the keys of child
  trie roots, and with any positive limit, calling \<open>clear_prefix\<close> again from the cursor it returned
  reaches a call without a cursor when the number of calls allowed is greater than the number of keys
  the backend has with the prefix; then no key with the prefix has a value and every other slot is
  as before.
\<close>

theorem clear_prefix_completes:
  assumes "overlay_codecs cx" "serves b st" "\<not> starts_with_child_storage_key p" "0 < limit" "ext_inv (cx_compact cx) e"
    "length (keys_from (ts_top st) (Some p) None) < n"
  shows "\<exists>e'. clear_prefix_rounds n cx b p limit None e = Some (True, e') \<and> ext_inv (cx_compact cx) e' \<and>
    (\<forall>slot. view (cx_compact cx) st e' slot =
      (if (\<exists>k. slot = Top_Slot k \<and> starts_with k p) then None else view (cx_compact cx) st e slot))"
proof -
  obtain e' where e': "clear_prefix_rounds n cx b p limit None e = Some (True, e')" "ext_inv (cx_compact cx) e'"
    "\<forall>slot. (\<forall>k. slot = Top_Slot k \<longrightarrow> \<not> starts_with k p) \<longrightarrow> view (cx_compact cx) st e' slot = view (cx_compact cx) st e slot"
    "\<forall>k. starts_with k p \<longrightarrow> k \<in> set (keys_from (ts_top st) (Some p) None) \<or> bt_get (ts_top st) k = None \<or>
      view (cx_compact cx) st e (Top_Slot k) = None \<longrightarrow> view (cx_compact cx) st e' (Top_Slot k) = None"
    using overlay_codecs.clear_prefix_rounds_ok [OF assms] by blast
  moreover have "view (cx_compact cx) st e' (Top_Slot k) = None" if "starts_with k p" for k
    using e'(4) keys_from_all that by blast
  ultimately show ?thesis by (intro exI [of _ e']) auto
qed

theorem clear_prefix_completes_witness:
  "\<exists>e'. clear_prefix_rounds 3 scale_codecs (trie_backend sample_state) [1] 1 None sample_ext = Some (True, e') \<and>
    view (cx_compact scale_codecs) sample_state e' (Top_Slot [1, 2]) = None \<and>
    view (cx_compact scale_codecs) sample_state e' (Top_Slot [3]) = Some [7]"
proof -
  have "\<not> starts_with_child_storage_key [1]" by code_simp
  moreover have "length (keys_from (ts_top sample_state) (Some [1]) None) < 3" by code_simp
  ultimately show ?thesis
    using clear_prefix_completes [OF scale_cx_laws sample_serves _ _ sample_ext_ok(1), of "[1]" 1 3]
    by (auto simp: starts_with_def sample_ext_ok(2))
qed

text \<open>
  C31: Removals with a limit.  \<open>clear_prefix\<close>, \<open>clear_child_prefix\<close> and \<open>kill_child_storage\<close> remove every matching key
  the overlay holds and the first keys of the backend from the cursor on, as many as the limit
  allows, and change nothing else.  They report the first key left as the cursor, how many keys of
  the backend were looked at and how many of those the overlay had no entry for (both saturating at
  \<open>2 ^ 32 - 1\<close>), and as the unique removals the latter plus the matching keys with a value in the overlay,
  modulo \<open>2 ^ 32\<close>.  A prefix that meets the keys of child trie roots removes nothing and reports zeros.
\<close>

theorem removal_respects_limit:
  assumes "overlay_codecs cx" "ext_inv (cx_compact cx) e" "serves b st"
  shows "(\<exists>r e'. ext_kill_child_storage cx b ci limit cursor e = Some (r, e') \<and> removes (cx_compact cx) st (Some ci) (\<lambda>_. True)
      limit (keys_from (ts_child st (child_storage_key ci)) None cursor) r e e') \<and>
    (\<exists>r e'. ext_clear_child_prefix cx b ci p limit cursor e = Some (r, e') \<and> removes (cx_compact cx) st (Some ci)
      (\<lambda>k. starts_with k p) limit (keys_from (ts_child st (child_storage_key ci)) (Some p) cursor) r e e') \<and>
    (\<not> starts_with_child_storage_key p \<longrightarrow> (\<exists>r e'. ext_clear_prefix cx b p limit cursor e = Some (r, e') \<and>
      removes (cx_compact cx) st None (\<lambda>k. starts_with k p) limit (keys_from (ts_top st) (Some p) cursor) r e e')) \<and>
    (starts_with_child_storage_key p \<longrightarrow> ext_clear_prefix cx b p limit cursor e
      = Some (\<lparr>maybe_cursor = None, removed_backend = 0, removed_unique = 0, removal_loops = 0\<rparr>, e))"
  using overlay_codecs.kill_child_storage_removes [OF assms] overlay_codecs.clear_child_prefix_removes [OF assms]
    overlay_codecs.clear_prefix_removes [OF assms] by (auto simp: ext_clear_prefix_def removal_results_def)

theorem removal_respects_limit_witness:
  "\<exists>r e'. ext_clear_prefix scale_codecs (trie_backend sample_state) [1] (Some 1) None sample_ext = Some (r, e') \<and>
    maybe_cursor r = Some [1, 2] \<and> removal_loops r = 1 \<and> removed_backend r = 0 \<and> removed_unique r = 1"
proof -
  have "\<not> starts_with_child_storage_key [1]" by code_simp
  moreover have ks: "keys_from (ts_top sample_state) (Some [1]) None = [[1], [1, 2]]" by code_simp
  moreover have top: "visible (oc_layers (cx_compact scale_codecs) (ext_overlay sample_ext)) (slot_of None k) = [[1] \<mapsto> Some [2]] k" for k
    by (simp add: sample_ext_def ext_new_def slot_of_def stored_overlay_ok(6))
  moreover have "{k. starts_with k [1] \<and> (\<exists>v. ([[1] \<mapsto> Some [2]] k :: bytes option option) = Some (Some v))} = {[1]}"
    by (auto simp: starts_with_def split: if_splits)
  ultimately show ?thesis
    using removal_respects_limit [OF scale_cx_laws sample_ext_ok(1) sample_serves, of undefined "Some 1" None "[1]"]
    by (auto simp: removes_def cursor_after_def take_limit_def count32_def)
qed

text \<open>
  C20: The keys of the top trie that hold the roots of child tries cannot be written by \<open>place_storage\<close> nor
  removed by \<open>clear_prefix\<close>, whatever the key or the prefix: they read as before.
\<close>

theorem child_roots_protected:
  assumes "overlay_codecs cx" "ext_inv (cx_compact cx) e" "serves b st" "is_child_storage_key c"
  shows "(\<exists>e'. ext_place_storage cx k v e = Some e' \<and> ext_inv (cx_compact cx) e' \<and>
      view (cx_compact cx) st e' (Top_Slot c) = view (cx_compact cx) st e (Top_Slot c)) \<and>
    (\<exists>r e'. ext_clear_prefix cx b p limit cursor e = Some (r, e') \<and> ext_inv (cx_compact cx) e' \<and>
      view (cx_compact cx) st e' (Top_Slot c) = view (cx_compact cx) st e (Top_Slot c))"
proof -
  have "\<exists>e'. ext_place_storage cx k v e = Some e' \<and> ext_inv (cx_compact cx) e' \<and>
      view (cx_compact cx) st e' (Top_Slot c) = view (cx_compact cx) st e (Top_Slot c)"
  proof (cases "is_child_storage_key k")
    case True
    then show ?thesis using assms(2) by (simp add: ext_place_storage_def)
  next
    case False
    then have "c \<noteq> k" using assms(4) by blast
    then show ?thesis using overlay_codecs.place_storage_ok [OF assms(1,2) False, of v] by auto
  qed
  moreover have "\<exists>r e'. ext_clear_prefix cx b p limit cursor e = Some (r, e') \<and> ext_inv (cx_compact cx) e' \<and>
      view (cx_compact cx) st e' (Top_Slot c) = view (cx_compact cx) st e (Top_Slot c)"
  proof (cases "starts_with_child_storage_key p")
    case True
    then show ?thesis using assms(2) by (simp add: ext_clear_prefix_def)
  next
    case False
    then have "\<not> starts_with c p" using overlay_codecs.child_prefix_disjoint [OF assms(1) _ assms(4)] by blast
    with overlay_codecs.clear_prefix_removes [OF assms(1-3) False, of limit cursor]
    show ?thesis using overlay_codecs.removes_view(1) [OF assms(1), of st p limit cursor _ e _ "Top_Slot c"]
      by (fastforce simp: removes_def)
  qed
  ultimately show ?thesis ..
qed

theorem child_roots_protected_witness:
  "is_child_storage_key (CHILD_STORAGE_KEY_PREFIX @ [5]) \<and>
   (\<exists>e'. ext_place_storage scale_codecs (CHILD_STORAGE_KEY_PREFIX @ [5]) (Some [6]) sample_ext = Some e' \<and>
     view (cx_compact scale_codecs) sample_state e' (Top_Slot (CHILD_STORAGE_KEY_PREFIX @ [5])) = None)"
proof -
  have c: "is_child_storage_key (CHILD_STORAGE_KEY_PREFIX @ [5])" by code_simp
  have "CHILD_STORAGE_KEY_PREFIX @ [5] \<notin> {[1], [1, 2], [3]}" by code_simp
  then have "view (cx_compact scale_codecs) sample_state sample_ext (Top_Slot (CHILD_STORAGE_KEY_PREFIX @ [5])) = None"
    by (simp add: sample_ext_ok(2))
  with c child_roots_protected [OF scale_cx_laws sample_ext_ok(1) sample_serves c,
      of "CHILD_STORAGE_KEY_PREFIX @ [5]" "Some [6]" "[]" None None] show ?thesis by auto
qed



end
