(* ===== verification/Header_Metadata.thy ===== *)
theory Header_Metadata
  imports Prelude
begin

text \<open>
  \<open>primitives/blockchain/src/header_metadata.rs\<close>: the lowest common ancestor of two blocks and the route
  between them, over a store of header metadata, and \<open>utils::is_descendent_of\<close> of \<open>client/api/src/lib.rs\<close>.
  The store changes under a lookup (it caches), so every operation takes it and returns it.  Loops that
  follow links out of the store may not end: they are partial functions, \<open>None\<close> is a panic or a loop without
  end.  A block number is a natural number, the numbers of a chain being far below the width of their type;
  the one subtraction in the code leaves that range at zero, which the model gives as a panic.
\<close>

record 'h hash_and_number =
  hn_number :: nat
  hn_hash :: 'h

record 'h cached_header_metadata =
  hm_hash :: 'h
  hm_number :: nat
  hm_parent :: 'h
  hm_state_root :: 'h
  hm_ancestor :: 'h

text \<open>The accessors of a block header; its hash is a function of the header and an argument where it is used.\<close>

record 'h header =
  hdr_number :: nat
  hdr_parent_hash :: 'h
  hdr_state_root :: 'h

definition cached_from :: "('h header \<Rightarrow> 'h) \<Rightarrow> 'h header \<Rightarrow> 'h cached_header_metadata" where
  "cached_from header_hash header = \<lparr>hm_hash = header_hash header, hm_number = hdr_number header,
     hm_parent = hdr_parent_hash header, hm_state_root = hdr_state_root header, hm_ancestor = hdr_parent_hash header\<rparr>"

text \<open>The trait \<open>HeaderMetadata\<close>.\<close>

record ('s, 'e, 'h) header_metadata_ops =
  header_metadata :: "'h \<Rightarrow> 's \<Rightarrow> ('e + 'h cached_header_metadata) \<times> 's"
  insert_header_metadata :: "'h \<Rightarrow> 'h cached_header_metadata \<Rightarrow> 's \<Rightarrow> 's"
  remove_header_metadata :: "'h \<Rightarrow> 's \<Rightarrow> 's"

type_synonym ('s, 'e, 'a) store_run = "(('e + 'a) \<times> 's) run"

text \<open>The operator \<open>?\<close> on an operation that may also not return.\<close>

definition sbind :: "('s, 'e, 'a) store_run \<Rightarrow> ('a \<Rightarrow> 's \<Rightarrow> ('s, 'e, 'b) store_run) \<Rightarrow> ('s, 'e, 'b) store_run" where
  "sbind m f = (case m of None \<Rightarrow> None | Some (Inl e, s) \<Rightarrow> Some (Inl e, s) | Some (Inr a, s) \<Rightarrow> f a s)"

lemma sbind_simps [simp]:
  "sbind None f = None" "sbind (Some (Inl e, s)) f = Some (Inl e, s)" "sbind (Some (Inr a, s)) f = f a s"
  by (simp_all add: sbind_def)

subsection \<open>The lowest common ancestor\<close>

text \<open>Along cached ancestor links, as long as they do not lead below the other block's number.\<close>

partial_function (option) jump_loop ::
  "('s, 'e, 'h) header_metadata_ops \<Rightarrow> 'h cached_header_metadata \<Rightarrow> nat \<Rightarrow> 's \<Rightarrow> ('s, 'e, 'h cached_header_metadata) store_run" where
  "jump_loop ops one two_number s =
     (if hm_number one > two_number then
        (case header_metadata ops (hm_ancestor one) s of
           (Inl err, s) \<Rightarrow> Some (Inl err, s)
         | (Inr ancestor, s) \<Rightarrow>
             if hm_number ancestor \<ge> two_number then jump_loop ops ancestor two_number s else Some (Inr one, s))
      else Some (Inr one, s))"

text \<open>The rest of the way along parent links.\<close>

partial_function (option) meet_loop ::
  "('s, 'e, 'h) header_metadata_ops \<Rightarrow> 'h cached_header_metadata \<Rightarrow> 'h cached_header_metadata \<Rightarrow> 's
     \<Rightarrow> ('s, 'e, 'h cached_header_metadata) store_run" where
  "meet_loop ops one two s =
     (if hm_hash one \<noteq> hm_hash two then
        (if hm_number one > hm_number two then
           (case header_metadata ops (hm_parent one) s of
              (Inl err, s) \<Rightarrow> Some (Inl err, s) | (Inr one, s) \<Rightarrow> meet_loop ops one two s)
         else
           (case header_metadata ops (hm_parent two) s of
              (Inl err, s) \<Rightarrow> Some (Inl err, s) | (Inr two, s) \<Rightarrow> meet_loop ops one two s))
      else Some (Inr one, s))"

text \<open>A link to the ancestor found is cached for a block that is above it.\<close>

definition cache_link ::
  "('s, 'e, 'h) header_metadata_ops \<Rightarrow> 'h cached_header_metadata \<Rightarrow> 'h cached_header_metadata \<Rightarrow> 's \<Rightarrow> 's" where
  "cache_link ops orig found s =
     (if hm_number orig > hm_number found
      then insert_header_metadata ops (hm_hash orig) (orig\<lparr>hm_ancestor := hm_hash found\<rparr>) s else s)"

definition lowest_common_ancestor ::
  "('s, 'e, 'h) header_metadata_ops \<Rightarrow> 'h \<Rightarrow> 'h \<Rightarrow> 's \<Rightarrow> ('s, 'e, 'h hash_and_number) store_run" where
  "lowest_common_ancestor ops id_one id_two s =
     sbind (Some (header_metadata ops id_one s)) (\<lambda>header_one s.
     if hm_parent header_one = id_two then
       (if hm_number header_one = 0 then panic
        else Some (Inr \<lparr>hn_number = hm_number header_one - 1, hn_hash = id_two\<rparr>, s))
     else sbind (Some (header_metadata ops id_two s)) (\<lambda>header_two s.
     if hm_parent header_two = id_one then
       Some (Inr \<lparr>hn_number = hm_number header_one, hn_hash = id_one\<rparr>, s)
     else sbind (jump_loop ops header_one (hm_number header_two) s) (\<lambda>one s.
     sbind (jump_loop ops header_two (hm_number one) s) (\<lambda>two s.
     sbind (meet_loop ops one two s) (\<lambda>found s.
       Some (Inr \<lparr>hn_number = hm_number found, hn_hash = hm_hash found\<rparr>,
         cache_link ops header_two found (cache_link ops header_one found s)))))))"

subsection \<open>The route between two blocks\<close>

record 'h tree_route =
  tr_route :: "'h hash_and_number list"
  tr_pivot :: nat

definition entry_of :: "'h cached_header_metadata \<Rightarrow> 'h hash_and_number" where
  "entry_of m = \<lparr>hn_number = hm_number m, hn_hash = hm_hash m\<rparr>"

text \<open>A loop that goes down to a number and notes the blocks it leaves.\<close>

partial_function (option) descend_loop ::
  "('s, 'e, 'h) header_metadata_ops \<Rightarrow> 'h cached_header_metadata \<Rightarrow> nat \<Rightarrow> 'h hash_and_number list \<Rightarrow> 's
     \<Rightarrow> ('s, 'e, 'h cached_header_metadata \<times> 'h hash_and_number list) store_run" where
  "descend_loop ops m target branch s =
     (if hm_number m > target then
        (case header_metadata ops (hm_parent m) s of
           (Inl err, s) \<Rightarrow> Some (Inl err, s)
         | (Inr parent, s) \<Rightarrow> descend_loop ops parent target (branch @ [entry_of m]) s)
      else Some (Inr (m, branch), s))"

text \<open>Both go down in step until they are the same block.\<close>

partial_function (option) descend_both ::
  "('s, 'e, 'h) header_metadata_ops \<Rightarrow> 'h cached_header_metadata \<Rightarrow> 'h cached_header_metadata
     \<Rightarrow> 'h hash_and_number list \<Rightarrow> 'h hash_and_number list \<Rightarrow> 's
     \<Rightarrow> ('s, 'e, 'h cached_header_metadata \<times> 'h hash_and_number list \<times> 'h hash_and_number list) store_run" where
  "descend_both ops from to from_branch to_branch s =
     (if hm_hash to \<noteq> hm_hash from then
        (case header_metadata ops (hm_parent to) s of
           (Inl err, s) \<Rightarrow> Some (Inl err, s)
         | (Inr to', s) \<Rightarrow>
             (case header_metadata ops (hm_parent from) s of
                (Inl err, s) \<Rightarrow> Some (Inl err, s)
              | (Inr from', s) \<Rightarrow>
                  descend_both ops from' to' (from_branch @ [entry_of from]) (to_branch @ [entry_of to]) s))
      else Some (Inr (to, from_branch, to_branch), s))"

definition tree_route ::
  "('s, 'e, 'h) header_metadata_ops \<Rightarrow> 'h \<Rightarrow> 'h \<Rightarrow> 's \<Rightarrow> ('s, 'e, 'h tree_route) store_run" where
  "tree_route ops from to s =
     sbind (Some (header_metadata ops from s)) (\<lambda>from s.
     sbind (Some (header_metadata ops to s)) (\<lambda>to s.
     sbind (descend_loop ops to (hm_number from) [] s) (\<lambda>(to, to_branch) s.
     sbind (descend_loop ops from (hm_number to) [] s) (\<lambda>(from, from_branch) s.
     sbind (descend_both ops from to from_branch to_branch s) (\<lambda>(common, from_branch, to_branch) s.
       Some (Inr \<lparr>tr_route = from_branch @ [entry_of common] @ rev to_branch, tr_pivot = length from_branch\<rparr>, s))))))"

definition tree_route_new :: "'h hash_and_number list \<Rightarrow> nat \<Rightarrow> 'h tree_route option" where
  "tree_route_new route pivot = (if pivot < length route then Some \<lparr>tr_route = route, tr_pivot = pivot\<rparr> else None)"

definition retracted :: "'h tree_route \<Rightarrow> 'h hash_and_number list" where
  "retracted r = take (tr_pivot r) (tr_route r)"

definition into_retracted :: "'h tree_route \<Rightarrow> 'h hash_and_number list" where
  "into_retracted r = take (tr_pivot r) (tr_route r)"

definition common_block :: "'h tree_route \<Rightarrow> 'h hash_and_number run" where
  "common_block r = (if tr_pivot r < length (tr_route r) then Some (tr_route r ! tr_pivot r) else panic)"

definition enacted :: "'h tree_route \<Rightarrow> 'h hash_and_number list" where
  "enacted r = drop (Suc (tr_pivot r)) (tr_route r)"

definition route_last :: "'h tree_route \<Rightarrow> 'h hash_and_number option" where
  "route_last r = (if tr_route r = [] then None else Some (last (tr_route r)))"

subsection \<open>Ancestry\<close>

definition is_descendent_of ::
  "('s, 'e, 'h) header_metadata_ops \<Rightarrow> ('h \<times> 'h) option \<Rightarrow> 'h \<Rightarrow> 'h \<Rightarrow> 's \<Rightarrow> ('s, 'e, bool) store_run" where
  "is_descendent_of ops current base h s =
     (let ask = (\<lambda>h. sbind (lowest_common_ancestor ops h base s) (\<lambda>ancestor s. Some (Inr (hn_hash ancestor = base), s)))
      in if base = h then Some (Inr False, s)
         else case current of
           None \<Rightarrow> ask h
         | Some (current_hash, current_parent_hash) \<Rightarrow>
             if base = current_hash then Some (Inr False, s)
             else if h = current_hash then
               (if base = current_parent_hash then Some (Inr True, s) else ask current_parent_hash)
             else ask h)"

end
