(* ===== verification/Header_Chain.thy ===== *)
theory Header_Chain
  imports Header_Metadata
begin

text \<open>
  Blocks as a tree of parent links, the contract a store of header metadata keeps to, and the
  correctness of the lowest common ancestor, of the route between two blocks and of the ancestry test for
  every store that keeps to it.
\<close>

subsection \<open>Chains of blocks\<close>

text \<open>
  \<open>at_height num par h n\<close> is the block with number \<open>n\<close> on the chain of \<open>h\<close>; a block is above another one
  when it is on its chain with a smaller number.
\<close>

definition at_height :: "('h \<Rightarrow> nat) \<Rightarrow> ('h \<Rightarrow> 'h) \<Rightarrow> 'h \<Rightarrow> nat \<Rightarrow> 'h" where
  "at_height num par h n = (par ^^ (num h - n)) h"

definition ancestor_of :: "('h \<Rightarrow> nat) \<Rightarrow> ('h \<Rightarrow> 'h) \<Rightarrow> 'h \<Rightarrow> 'h \<Rightarrow> bool" where
  "ancestor_of num par a b \<longleftrightarrow> num a < num b \<and> at_height num par b (num a) = a"

text \<open>The number of the last block two chains share.\<close>

definition fork_height :: "('h \<Rightarrow> nat) \<Rightarrow> ('h \<Rightarrow> 'h) \<Rightarrow> 'h \<Rightarrow> 'h \<Rightarrow> nat \<Rightarrow> bool" where
  "fork_height num par a b k \<longleftrightarrow> k \<le> num a \<and> k \<le> num b \<and> at_height num par a k = at_height num par b k \<and>
     (\<forall>n. n \<le> num a \<and> n \<le> num b \<and> at_height num par a n = at_height num par b n \<longrightarrow> n \<le> k)"

text \<open>The block of a chain with a number, as routes hold it.\<close>

definition entry_at :: "('h \<Rightarrow> nat) \<Rightarrow> ('h \<Rightarrow> 'h) \<Rightarrow> 'h \<Rightarrow> nat \<Rightarrow> 'h hash_and_number" where
  "entry_at num par h n = \<lparr>hn_number = n, hn_hash = at_height num par h n\<rparr>"

lemma at_height_self [simp]: "at_height num par h (num h) = h"
  by (simp add: at_height_def)

lemma fork_height_unique: "fork_height num par a b k \<Longrightarrow> fork_height num par a b k' \<Longrightarrow> k = k'"
  unfolding fork_height_def by (simp add: le_antisym)

locale block_tree =
  fixes blocks :: "'h set" and num :: "'h \<Rightarrow> nat" and par :: "'h \<Rightarrow> 'h" and genesis :: 'h
  assumes par_block: "h \<in> blocks \<Longrightarrow> 0 < num h \<Longrightarrow> par h \<in> blocks"
    and num_par: "h \<in> blocks \<Longrightarrow> 0 < num h \<Longrightarrow> Suc (num (par h)) = num h"
    and genesis_only: "h \<in> blocks \<Longrightarrow> num h = 0 \<Longrightarrow> h = genesis"
begin

abbreviation up :: "'h \<Rightarrow> nat \<Rightarrow> 'h" where
  "up \<equiv> at_height num par"

abbreviation anc :: "'h \<Rightarrow> 'h \<Rightarrow> bool" where
  "anc \<equiv> ancestor_of num par"

lemma steps_block: "h \<in> blocks \<Longrightarrow> k \<le> num h \<Longrightarrow> (par ^^ k) h \<in> blocks \<and> num ((par ^^ k) h) = num h - k"
proof (induction k)
  case (Suc k)
  then have b: "(par ^^ k) h \<in> blocks" "num ((par ^^ k) h) = num h - k" "0 < num ((par ^^ k) h)" by simp_all
  then show ?case using par_block [OF b(1,3)] num_par [OF b(1,3)] by simp
qed simp

lemma up_block: "h \<in> blocks \<Longrightarrow> n \<le> num h \<Longrightarrow> up h n \<in> blocks" "h \<in> blocks \<Longrightarrow> n \<le> num h \<Longrightarrow> num (up h n) = n"
  using steps_block [of h "num h - n"] by (simp_all add: at_height_def)

lemma up_up:
  assumes "h \<in> blocks" "n \<le> num h" "m \<le> n"
  shows "up (up h n) m = up h m"
proof -
  have "num h - m = (n - m) + (num h - n)" using assms by simp
  then show ?thesis using up_block(2) [OF assms(1,2)] by (simp add: at_height_def funpow_add)
qed

lemma up_step:
  assumes "h \<in> blocks" "Suc n \<le> num h"
  shows "up h n = par (up h (Suc n))"
proof -
  have "num h - n = Suc (num h - Suc n)" using assms(2) by simp
  then show ?thesis by (simp add: at_height_def)
qed

lemma up_zero: "h \<in> blocks \<Longrightarrow> up h 0 = genesis"
  using genesis_only [of "up h 0"] up_block [of h 0] by simp

lemma fork_height_ex:
  assumes "a \<in> blocks" "b \<in> blocks"
  shows "\<exists>k. fork_height num par a b k"
proof -
  let ?P = "\<lambda>n. n \<le> num a \<and> n \<le> num b \<and> up a n = up b n"
  have "?P 0" using up_zero assms by simp
  moreover have "n \<le> num a" if "?P n" for n using that by simp
  ultimately obtain k where "?P k" "\<forall>n. ?P n \<longrightarrow> n \<le> k" using Nat.ex_has_greatest_nat [of ?P 0 "num a"] by blast
  then show ?thesis unfolding fork_height_def by blast
qed

lemma anc_less: "anc a b \<Longrightarrow> num a < num b"
  by (simp add: ancestor_of_def)

lemma anc_trans:
  assumes "c \<in> blocks" "anc a b" "anc b c"
  shows "anc a c"
  using assms up_up [of c "num b" "num a"] by (auto simp: ancestor_of_def)

lemma anc_linear:
  assumes "c \<in> blocks" "anc a c" "anc b c"
  shows "a = b \<or> anc a b \<or> anc b a"
proof -
  have "anc x y" if "anc x c" "anc y c" "num x < num y" for x y
    using that up_up [of c "num y" "num x"] assms(1) by (auto simp: ancestor_of_def)
  moreover have "num a = num b \<Longrightarrow> a = b" using assms by (simp add: ancestor_of_def)
  ultimately show ?thesis using assms by (meson linorder_neqE_nat)
qed

lemma fork_height_anc:
  assumes "a \<in> blocks" "b \<in> blocks" "a \<noteq> b" "fork_height num par b a k"
  shows "up b k = a \<longleftrightarrow> anc a b"
proof
  assume "up b k = a"
  then have "num a = k" using up_block(2) assms by (auto simp: fork_height_def)
  then show "anc a b" using \<open>up b k = a\<close> assms(3,4) by (auto simp: ancestor_of_def fork_height_def le_less)
next
  assume a: "anc a b"
  then have "num a \<le> k" using assms(4) by (auto simp: ancestor_of_def fork_height_def)
  then show "up b k = a" using a assms(4) by (auto simp: ancestor_of_def fork_height_def)
qed

end

subsection \<open>The contract of a store\<close>

definition meta_ok ::
  "'h set \<Rightarrow> ('h \<Rightarrow> nat) \<Rightarrow> ('h \<Rightarrow> 'h) \<Rightarrow> 'h \<Rightarrow> 'h cached_header_metadata \<Rightarrow> bool" where
  "meta_ok blocks num par h m \<longleftrightarrow> hm_hash m = h \<and> hm_number m = num h \<and>
     (if num h = 0 then hm_parent m \<notin> blocks
      else hm_parent m = par h \<and> (\<exists>n < num h. hm_ancestor m = at_height num par h n))"

locale header_store = block_tree blocks num par genesis
  for blocks :: "'h set" and num :: "'h \<Rightarrow> nat" and par :: "'h \<Rightarrow> 'h" and genesis :: 'h +
  fixes ops :: "('s, 'e, 'h) header_metadata_ops" and inv :: "'s \<Rightarrow> bool"
  assumes lookup_ok: "inv s \<Longrightarrow> h \<in> blocks \<Longrightarrow>
      \<exists>m s'. header_metadata ops h s = (Inr m, s') \<and> meta_ok blocks num par h m \<and> inv s'"
    and insert_ok: "inv s \<Longrightarrow> h \<in> blocks \<Longrightarrow> meta_ok blocks num par h m \<Longrightarrow> inv (insert_header_metadata ops h m s)"
begin

abbreviation ok :: "'h \<Rightarrow> 'h cached_header_metadata \<Rightarrow> bool" where
  "ok \<equiv> meta_ok blocks num par"

lemma ok_simps: "ok h m \<Longrightarrow> hm_hash m = h \<and> hm_number m = num h"
  by (simp add: meta_ok_def)

lemma parent_lookup:
  assumes "inv s" "h \<in> blocks" "ok h m" "0 < num h"
  obtains m' s' where "header_metadata ops (hm_parent m) s = (Inr m', s')" "ok (par h) m'" "inv s'"
proof -
  have "hm_parent m = par h" using assms(3,4) by (simp add: meta_ok_def)
  then show thesis using that lookup_ok [OF assms(1) par_block [OF assms(2,4)]] by auto
qed

lemma jump_loop_ok:
  assumes "a \<in> blocks"
  shows "i \<le> num a \<Longrightarrow> ok (up a i) m \<Longrightarrow> inv s \<Longrightarrow>
    \<exists>j m' s'. jump_loop ops m n s = Some (Inr m', s') \<and> j \<le> i \<and> min n i \<le> j \<and> ok (up a j) m' \<and> inv s'"
proof (induction i arbitrary: m s rule: less_induct)
  case (less i)
  have num: "hm_number m = i" using ok_simps [OF less.prems(2)] up_block(2) [OF assms less.prems(1)] by simp
  show ?case
  proof (cases "i > n")
    case False
    then show ?thesis using less.prems num by (subst jump_loop.simps) auto
  next
    case True
    then obtain l where l: "l < i" "hm_ancestor m = up (up a i) l"
      using less.prems(2) up_block(2) [OF assms less.prems(1)] by (auto simp: meta_ok_def)
    then have anc: "hm_ancestor m = up a l" using up_up [OF assms less.prems(1), of l] by simp
    have la: "l \<le> num a" using l(1) less.prems(1) by simp
    obtain m1 s1 where m1: "header_metadata ops (hm_ancestor m) s = (Inr m1, s1)" "ok (up a l) m1" "inv s1"
      using lookup_ok [OF less.prems(3) up_block(1) [OF assms la]] anc by auto
    have num1: "hm_number m1 = l" using ok_simps [OF m1(2)] up_block(2) [OF assms la] by simp
    show ?thesis
    proof (cases "n \<le> l")
      case True
      have "jump_loop ops m n s = jump_loop ops m1 n s1"
        using \<open>i > n\<close> True num m1(1) num1 by (subst jump_loop.simps) simp
      moreover obtain j m' s' where "jump_loop ops m1 n s1 = Some (Inr m', s')" "j \<le> l" "min n l \<le> j" "ok (up a j) m'" "inv s'"
        using less.IH [OF l(1) la m1(2,3)] by blast
      ultimately show ?thesis using l(1) True \<open>i > n\<close> by (intro exI [of _ j] exI [of _ m'] exI [of _ s']) simp
    next
      case False
      then have "jump_loop ops m n s = Some (Inr m, s1)"
        using \<open>i > n\<close> num m1(1) num1 by (subst jump_loop.simps) simp
      then show ?thesis using less.prems m1(3) by auto
    qed
  qed
qed

lemma meet_loop_ok:
  assumes "a \<in> blocks" "b \<in> blocks" "fork_height num par a b k"
  shows "i \<le> num a \<Longrightarrow> j \<le> num b \<Longrightarrow> k \<le> i \<Longrightarrow> k \<le> j \<Longrightarrow> ok (up a i) one \<Longrightarrow> ok (up b j) two \<Longrightarrow> inv s \<Longrightarrow>
    \<exists>m s'. meet_loop ops one two s = Some (Inr m, s') \<and> ok (up a k) m \<and> inv s'"
proof (induction "i + j" arbitrary: i j one two s rule: less_induct)
  case less
  have num: "hm_number one = i" "hm_number two = j" "hm_hash one = up a i" "hm_hash two = up b j"
    using ok_simps [OF less.prems(5)] ok_simps [OF less.prems(6)] up_block(2) [OF assms(1) less.prems(1)]
      up_block(2) [OF assms(2) less.prems(2)] by simp_all
  have blk: "up a i \<in> blocks" "up b j \<in> blocks" using up_block(1) assms(1,2) less.prems(1,2) by simp_all
  show ?case
  proof (cases "up a i = up b j")
    case True
    then have "i = j" using up_block(2) [OF assms(1) less.prems(1)] up_block(2) [OF assms(2) less.prems(2)] by simp
    then have "i = k" using True assms(3) less.prems(1-3) by (auto simp: fork_height_def intro: le_antisym)
    then show ?thesis using True num less.prems(5,7) by (subst meet_loop.simps) simp
  next
    case False
    show ?thesis
    proof (cases "i > j")
      case True
      then have i: "0 < i" "k \<le> i - 1" "i - 1 \<le> num a" "i - 1 + j < i + j" using less.prems by simp_all
      obtain m1 s1 where m1: "header_metadata ops (hm_parent one) s = (Inr m1, s1)" "ok (par (up a i)) m1" "inv s1"
        using parent_lookup [OF less.prems(7) blk(1) less.prems(5)] up_block(2) [OF assms(1) less.prems(1)] i(1) by auto
      have "up a (i - 1) = par (up a i)" using up_step [OF assms(1), of "i - 1"] i(1) less.prems(1) by simp
      moreover have "meet_loop ops one two s = meet_loop ops m1 two s1"
        using False True num m1(1) by (subst meet_loop.simps) simp
      ultimately show ?thesis using less.hyps [OF i(4,3) less.prems(2) i(2) less.prems(4) _ less.prems(6) m1(3)] m1(2) by simp
    next
      case le: False
      have "k \<noteq> j"
      proof
        assume "k = j"
        then have "i = j" using le less.prems(3) by simp
        then show False using False \<open>k = j\<close> assms(3) by (simp add: fork_height_def)
      qed
      then have j: "0 < j" "k \<le> j - 1" "j - 1 \<le> num b" "i + (j - 1) < i + j" using less.prems by simp_all
      obtain m1 s1 where m1: "header_metadata ops (hm_parent two) s = (Inr m1, s1)" "ok (par (up b j)) m1" "inv s1"
        using parent_lookup [OF less.prems(7) blk(2) less.prems(6)] up_block(2) [OF assms(2) less.prems(2)] j(1) by auto
      have "up b (j - 1) = par (up b j)" using up_step [OF assms(2), of "j - 1"] j(1) less.prems(2) by simp
      moreover have "meet_loop ops one two s = meet_loop ops one m1 s1"
        using False le num m1(1) by (subst meet_loop.simps) simp
      ultimately show ?thesis using less.hyps [OF j(4) less.prems(1) j(3) less.prems(3) j(2) less.prems(5) _ m1(3)] m1(2) by simp
    qed
  qed
qed

text \<open>A cached link leads to a block further up.\<close>

lemma cache_link_ok:
  assumes "inv s" "a \<in> blocks" "ok a m" "k \<le> num a" "ok (up a k) found"
  shows "inv (cache_link ops m found s)"
proof (cases "k < num a")
  case True
  then have "ok a (m\<lparr>hm_ancestor := hm_hash found\<rparr>)" using assms(3,5) by (auto simp: meta_ok_def)
  then have "inv (insert_header_metadata ops a (m\<lparr>hm_ancestor := hm_hash found\<rparr>) s)" by (rule insert_ok [OF assms(1,2)])
  then show ?thesis using assms(1) ok_simps [OF assms(3)] by (simp add: cache_link_def)
next
  case False
  then have "hm_number found = num a" "hm_number m = num a"
    using assms(3-5) up_block(2) [OF assms(2,4)] by (simp_all add: meta_ok_def)
  then show ?thesis using assms(1) by (simp add: cache_link_def)
qed

lemma fork_at_parent:
  assumes "a \<in> blocks" "b \<in> blocks" "0 < num a" "par a = b"
  shows "fork_height num par a b (num b)" "fork_height num par b a (num b)" "num b = num a - 1"
proof -
  show n: "num b = num a - 1" using num_par [OF assms(1,3)] assms(4) by simp
  have "up a (num b) = b" using up_step [OF assms(1), of "num b"] n assms(3,4) by simp
  moreover have "num b \<le> num a" using n by simp
  ultimately show "fork_height num par a b (num b)" "fork_height num par b a (num b)"
    unfolding fork_height_def by simp_all
qed

lemma lca_ok:
  assumes "inv s" "a \<in> blocks" "b \<in> blocks" "fork_height num par a b k"
  shows "\<exists>s'. lowest_common_ancestor ops a b s = Some (Inr \<lparr>hn_number = k, hn_hash = up a k\<rparr>, s') \<and> inv s'"
proof -
  obtain one s1 where one: "header_metadata ops a s = (Inr one, s1)" "ok a one" "inv s1" using lookup_ok [OF assms(1,2)] by blast
  obtain two s2 where two: "header_metadata ops b s1 = (Inr two, s2)" "ok b two" "inv s2" using lookup_ok [OF one(3) assms(3)] by blast
  consider (child) "hm_parent one = b" | (parent) "hm_parent one \<noteq> b" "hm_parent two = a"
    | (other) "hm_parent one \<noteq> b" "hm_parent two \<noteq> a" by blast
  then show ?thesis
  proof cases
    case child
    then have pa: "0 < num a" "par a = b" using one(2) assms(3) by (auto simp: meta_ok_def split: if_splits)
    note f = fork_at_parent [OF assms(2,3) pa]
    have k: "k = num b" using fork_height_unique [OF assms(4) f(1)] .
    then have "up a k = b" using assms(4) by (simp add: fork_height_def)
    then show ?thesis using child one k f(3) pa(1) ok_simps [OF one(2)] by (simp add: lowest_common_ancestor_def)
  next
    case parent
    then have pb: "0 < num b" "par b = a" using two(2) assms(2) by (auto simp: meta_ok_def split: if_splits)
    have "k = num a" using fork_height_unique [OF assms(4) fork_at_parent(2) [OF assms(3,2) pb]] .
    then show ?thesis using parent one two ok_simps [OF one(2)] by (simp add: lowest_common_ancestor_def)
  next
    case other
    have k: "k \<le> num a" "k \<le> num b" "up a k = up b k" using assms(4) by (simp_all add: fork_height_def)
    obtain i m1 s3 where j1: "jump_loop ops one (num b) s2 = Some (Inr m1, s3)" "i \<le> num a" "min (num b) (num a) \<le> i"
        "ok (up a i) m1" "inv s3"
      using jump_loop_ok [OF assms(2) order_refl, of one s2 "num b"] one(2) two(3) by auto
    have n1: "hm_number m1 = i" using j1(4) up_block(2) [OF assms(2) j1(2)] by (simp add: meta_ok_def)
    obtain j m2 s4 where j2: "jump_loop ops two i s3 = Some (Inr m2, s4)" "j \<le> num b" "min i (num b) \<le> j"
        "ok (up b j) m2" "inv s4"
      using jump_loop_ok [OF assms(3) order_refl, of two s3 i] two(2) j1(5) by auto
    have "k \<le> i" "k \<le> j" using k j1(3) j2(3) by auto
    then obtain m s5 where m: "meet_loop ops m1 m2 s4 = Some (Inr m, s5)" "ok (up a k) m" "inv s5"
      using meet_loop_ok [OF assms(2-4) j1(2) j2(2) _ _ j1(4) j2(4,5)] by blast
    have nm: "hm_number m = k" "hm_hash m = up a k" using m(2) up_block(2) [OF assms(2) k(1)] by (simp_all add: meta_ok_def)
    have "inv (cache_link ops two m (cache_link ops one m s5))"
      using cache_link_ok [OF cache_link_ok [OF m(3) assms(2) one(2) k(1) m(2)] assms(3) two(2) k(2)] m(2) k(3) by simp
    then show ?thesis
      using other one(1) two(1) j1(1) j2(1) m(1) n1 nm ok_simps [OF two(2)] by (simp add: lowest_common_ancestor_def)
  qed
qed

lemma is_descendent_ok:
  assumes "inv s" "base \<in> blocks" "h \<in> blocks"
  shows "\<exists>s'. is_descendent_of ops None base h s = Some (Inr (anc base h), s') \<and> inv s'"
proof (cases "base = h")
  case True
  then show ?thesis using assms(1) by (simp add: is_descendent_of_def ancestor_of_def)
next
  case False
  obtain k where k: "fork_height num par h base k" using fork_height_ex [OF assms(3,2)] by blast
  have "up h k = base \<longleftrightarrow> anc base h" using fork_height_anc [OF assms(2,3) False k] .
  then show ?thesis using lca_ok [OF assms(1,3,2) k] False by (auto simp: is_descendent_of_def)
qed

text \<open>The block that is not in the store yet hangs below its parent.\<close>

lemma is_descendent_current_ok:
  assumes "inv s" "cp \<in> blocks" "c \<notin> blocks" "base \<in> insert c blocks" "h \<in> insert c blocks"
  shows "\<exists>s'. is_descendent_of ops (Some (c, cp)) base h s =
      Some (Inr (base \<in> blocks \<and> (if h = c then base = cp \<or> anc base cp else anc base h)), s') \<and> inv s'"
proof -
  have ask: "\<exists>s'. sbind (lowest_common_ancestor ops x base s) (\<lambda>ancestor s. Some (Inr (hn_hash ancestor = base), s)) =
      Some (Inr (anc base x), s') \<and> inv s'" if x: "x \<in> blocks" "base \<in> blocks" "base \<noteq> x" for x
  proof -
    obtain k where k: "fork_height num par x base k" using fork_height_ex [OF x(1,2)] by blast
    have "up x k = base \<longleftrightarrow> anc base x" using fork_height_anc [OF x(2,1,3) k] .
    then show ?thesis using lca_ok [OF assms(1) x(1,2) k] by auto
  qed
  consider "base = h" | "base \<noteq> h" "base = c" | "base \<noteq> h" "base \<noteq> c" "h = c" "base = cp"
    | "base \<noteq> h" "base \<noteq> c" "h = c" "base \<noteq> cp" | "base \<noteq> h" "base \<noteq> c" "h \<noteq> c" by blast
  then show ?thesis
  proof cases
    case 4
    then show ?thesis using ask [of cp] assms by (auto simp: is_descendent_of_def)
  next
    case 5
    then show ?thesis using ask [of h] assms by (auto simp: is_descendent_of_def)
  qed (use assms in \<open>auto simp: is_descendent_of_def ancestor_of_def\<close>)
qed

subsection \<open>Routes\<close>

abbreviation entry :: "'h \<Rightarrow> nat \<Rightarrow> 'h hash_and_number" where
  "entry \<equiv> entry_at num par"

lemma entry_of_ok: "a \<in> blocks \<Longrightarrow> i \<le> num a \<Longrightarrow> ok (up a i) m \<Longrightarrow> entry_of m = entry a i"
  using up_block(2) by (simp add: entry_of_def entry_at_def meta_ok_def)

lemma descend_loop_ok:
  assumes "a \<in> blocks"
  shows "i \<le> num a \<Longrightarrow> ok (up a i) m \<Longrightarrow> inv s \<Longrightarrow>
    \<exists>m' s'. descend_loop ops m n branch s = Some (Inr (m', branch @ map (entry a) (rev [Suc (min n i)..<Suc i])), s') \<and>
      ok (up a (min n i)) m' \<and> inv s'"
proof (induction i arbitrary: m branch s)
  case 0
  then show ?case using up_block(2) [OF assms] by (subst descend_loop.simps) (simp add: meta_ok_def)
next
  case (Suc i)
  have num: "hm_number m = Suc i" using Suc.prems up_block(2) [OF assms] by (simp add: meta_ok_def)
  show ?case
  proof (cases "n < Suc i")
    case False
    then show ?thesis using Suc.prems num by (subst descend_loop.simps) (simp add: min_def)
  next
    case True
    obtain m1 s1 where m1: "header_metadata ops (hm_parent m) s = (Inr m1, s1)" "ok (par (up a (Suc i))) m1" "inv s1"
      using parent_lookup [OF Suc.prems(3) up_block(1) [OF assms Suc.prems(1)] Suc.prems(2)]
        up_block(2) [OF assms Suc.prems(1)] by auto
    have "up a i = par (up a (Suc i))" using up_step [OF assms Suc.prems(1)] .
    then obtain m' s' where "descend_loop ops m1 n (branch @ [entry_of m]) s1 =
        Some (Inr (m', (branch @ [entry_of m]) @ map (entry a) (rev [Suc (min n i)..<Suc i])), s')" "ok (up a (min n i)) m'" "inv s'"
      using Suc.IH [of m1 s1 "branch @ [entry_of m]"] Suc.prems(1) m1(2,3) by auto
    moreover have "min n i = min n (Suc i)" using True by simp
    moreover have "rev [Suc (min n i)..<Suc (Suc i)] = Suc i # rev [Suc (min n i)..<Suc i]" using True by simp
    ultimately show ?thesis
      using True num m1(1) entry_of_ok [OF assms Suc.prems(1,2)] by (subst descend_loop.simps) simp
  qed
qed

lemma descend_both_ok:
  assumes "a \<in> blocks" "b \<in> blocks" "fork_height num par a b k"
  shows "i \<le> num a \<Longrightarrow> i \<le> num b \<Longrightarrow> k \<le> i \<Longrightarrow> ok (up a i) fm \<Longrightarrow> ok (up b i) tm \<Longrightarrow> inv s \<Longrightarrow>
    \<exists>m s'. descend_both ops fm tm fb tb s =
        Some (Inr (m, fb @ map (entry a) (rev [Suc k..<Suc i]), tb @ map (entry b) (rev [Suc k..<Suc i])), s') \<and>
      ok (up a k) m \<and> inv s'"
proof (induction i arbitrary: fm tm fb tb s)
  case 0
  then have "k = 0" by simp
  then show ?case using 0 assms(3) by (subst descend_both.simps) (simp add: meta_ok_def fork_height_def)
next
  case (Suc i)
  have hashes: "hm_hash fm = up a (Suc i)" "hm_hash tm = up b (Suc i)"
    using ok_simps [OF Suc.prems(4)] ok_simps [OF Suc.prems(5)] by simp_all
  show ?case
  proof (cases "k = Suc i")
    case True
    then have "up a (Suc i) = up b (Suc i)" using assms(3) by (simp add: fork_height_def)
    then show ?thesis using True Suc.prems hashes by (subst descend_both.simps) simp
  next
    case False
    then have k: "k \<le> i" "up a (Suc i) \<noteq> up b (Suc i)"
      using Suc.prems(1-3) assms(3) unfolding fork_height_def by auto
    have pos: "0 < num (up a (Suc i))" "0 < num (up b (Suc i))"
      using up_block(2) [OF assms(1) Suc.prems(1)] up_block(2) [OF assms(2) Suc.prems(2)] by simp_all
    obtain tm1 s1 where t: "header_metadata ops (hm_parent tm) s = (Inr tm1, s1)" "ok (par (up b (Suc i))) tm1" "inv s1"
      using parent_lookup [OF Suc.prems(6) up_block(1) [OF assms(2) Suc.prems(2)] Suc.prems(5) pos(2)] by auto
    obtain fm1 s2 where f: "header_metadata ops (hm_parent fm) s1 = (Inr fm1, s2)" "ok (par (up a (Suc i))) fm1" "inv s2"
      using parent_lookup [OF t(3) up_block(1) [OF assms(1) Suc.prems(1)] Suc.prems(4) pos(1)] by auto
    have steps: "up a i = par (up a (Suc i))" "up b i = par (up b (Suc i))"
      using up_step [OF assms(1) Suc.prems(1)] up_step [OF assms(2) Suc.prems(2)] by simp_all
    obtain m s' where "descend_both ops fm1 tm1 (fb @ [entry_of fm]) (tb @ [entry_of tm]) s2 =
        Some (Inr (m, (fb @ [entry_of fm]) @ map (entry a) (rev [Suc k..<Suc i]), (tb @ [entry_of tm]) @ map (entry b) (rev [Suc k..<Suc i])), s')"
        "ok (up a k) m" "inv s'"
      using Suc.IH [of fm1 tm1 s2 "fb @ [entry_of fm]" "tb @ [entry_of tm]"] Suc.prems(1,2) k(1) f(2,3) t(2) steps by auto
    moreover have "rev [Suc k..<Suc (Suc i)] = Suc i # rev [Suc k..<Suc i]" using k(1) by simp
    ultimately show ?thesis
      using k(2) hashes t(1) f(1) entry_of_ok [OF assms(1) Suc.prems(1,4)] entry_of_ok [OF assms(2) Suc.prems(2,5)]
      by (subst descend_both.simps) simp
  qed
qed

lemma tree_route_ok:
  assumes "inv s" "a \<in> blocks" "b \<in> blocks" "fork_height num par a b k"
  shows "\<exists>s'. tree_route ops a b s = Some (Inr \<lparr>tr_route = map (entry a) (rev [Suc k..<Suc (num a)]) @ [entry a k] @ map (entry b) [Suc k..<Suc (num b)],
      tr_pivot = num a - k\<rparr>, s') \<and> inv s'"
proof -
  let ?i = "min (num a) (num b)"
  obtain fm s1 where fm: "header_metadata ops a s = (Inr fm, s1)" "ok a fm" "inv s1" using lookup_ok [OF assms(1,2)] by blast
  obtain tm s2 where tm: "header_metadata ops b s1 = (Inr tm, s2)" "ok b tm" "inv s2" using lookup_ok [OF fm(3) assms(3)] by blast
  have k: "k \<le> num a" "k \<le> num b" "k \<le> ?i" using assms(4) by (simp_all add: fork_height_def)
  obtain tm1 s3 where t: "descend_loop ops tm (num a) [] s2 = Some (Inr (tm1, map (entry b) (rev [Suc ?i..<Suc (num b)])), s3)"
      "ok (up b ?i) tm1" "inv s3"
    using descend_loop_ok [OF assms(3) order_refl, of tm s2 "num a" "[]"] tm(2,3) by auto
  have n: "hm_number tm1 = ?i" using t(2) up_block(2) [OF assms(3), of ?i] by (simp add: meta_ok_def)
  have "min ?i (num a) = ?i" by simp
  then obtain fm1 s4 where f: "descend_loop ops fm ?i [] s3 = Some (Inr (fm1, map (entry a) (rev [Suc ?i..<Suc (num a)])), s4)"
      "ok (up a ?i) fm1" "inv s4"
    using descend_loop_ok [OF assms(2) order_refl, of fm s3 ?i "[]"] fm(2) t(3) by auto
  obtain m s5 where m: "descend_both ops fm1 tm1 (map (entry a) (rev [Suc ?i..<Suc (num a)])) (map (entry b) (rev [Suc ?i..<Suc (num b)])) s4 =
      Some (Inr (m, map (entry a) (rev [Suc ?i..<Suc (num a)]) @ map (entry a) (rev [Suc k..<Suc ?i]),
        map (entry b) (rev [Suc ?i..<Suc (num b)]) @ map (entry b) (rev [Suc k..<Suc ?i])), s5)" "ok (up a k) m" "inv s5"
    using descend_both_ok [OF assms(2-4) min.cobounded1 min.cobounded2 k(3) f(2) t(2) f(3)] by blast
  have whole: "map (entry x) (rev [Suc ?i..<Suc (num x)]) @ map (entry x) (rev [Suc k..<Suc ?i]) = map (entry x) (rev [Suc k..<Suc (num x)])"
    if "x = a \<or> x = b" for x
  proof -
    have "[Suc k..<Suc (num x)] = [Suc k..<Suc ?i] @ [Suc ?i..<Suc (num x)]"
      using upt_add_eq_append [of "Suc k" "Suc ?i" "num x - ?i"] k(3) that by (auto simp del: upt_Suc)
    then show ?thesis by (simp del: upt_Suc)
  qed
  show ?thesis
    using fm tm t(1) f(1) m(1,3) n ok_simps [OF fm(2)] whole [of a] whole [of b] entry_of_ok [OF assms(2) k(1) m(2)]
    by (simp add: tree_route_def rev_map del: upt_Suc)
qed

end

end
