(* ===== verification/Stored_Chain.thy ===== *)
theory Stored_Chain
  imports Header_Chain
begin

text \<open>
  The tree of blocks that stored headers make up: the blocks that lead to the genesis block along stored headers
  with decreasing numbers.  It satisfies the laws of \<^const>\<open>block_tree\<close> whatever is stored.
\<close>

definition stored_num :: "('h \<Rightarrow> 'h header option) \<Rightarrow> 'h \<Rightarrow> nat" where
  "stored_num H h = (case H h of Some header \<Rightarrow> hdr_number header | None \<Rightarrow> 0)"

definition stored_par :: "('h \<Rightarrow> 'h header option) \<Rightarrow> 'h \<Rightarrow> 'h" where
  "stored_par H h = (case H h of Some header \<Rightarrow> hdr_parent_hash header | None \<Rightarrow> h)"

inductive_set linked :: "('h header \<Rightarrow> 'h) \<Rightarrow> ('h \<Rightarrow> 'h header option) \<Rightarrow> 'h \<Rightarrow> 'h set"
  for header_hash :: "'h header \<Rightarrow> 'h" and H :: "'h \<Rightarrow> 'h header option" and g :: 'h where
  genesis: "H g = Some header \<Longrightarrow> header_hash header = g \<Longrightarrow> hdr_number header = 0 \<Longrightarrow> g \<in> linked header_hash H g"
| child: "H h = Some header \<Longrightarrow> header_hash header = h \<Longrightarrow> hdr_parent_hash header \<in> linked header_hash H g \<Longrightarrow>
    hdr_number header = Suc (stored_num H (hdr_parent_hash header)) \<Longrightarrow> h \<in> linked header_hash H g"

text \<open>The parent hash in the genesis block is no block; with one that is, nothing counts as known.\<close>

definition known_blocks :: "('h header \<Rightarrow> 'h) \<Rightarrow> ('h \<Rightarrow> 'h header option) \<Rightarrow> 'h \<Rightarrow> 'h set" where
  "known_blocks header_hash H g = (if stored_par H g \<in> linked header_hash H g then {} else linked header_hash H g)"

lemma linked_header:
  assumes "h \<in> linked header_hash H g"
  obtains header where "H h = Some header" "header_hash header = h"
  using assms by (cases rule: linked.cases) auto

lemma linked_zero: "h \<in> linked header_hash H g \<Longrightarrow> stored_num H h = 0 \<Longrightarrow> h = g"
  by (erule linked.cases) (auto simp: stored_num_def)

lemma linked_parent:
  assumes "h \<in> linked header_hash H g" "0 < stored_num H h"
  shows "stored_par H h \<in> linked header_hash H g \<and> stored_num H h = Suc (stored_num H (stored_par H h))"
  using assms by (cases rule: linked.cases) (auto simp: stored_num_def stored_par_def)

lemma known_linked: "h \<in> known_blocks header_hash H g \<Longrightarrow> h \<in> linked header_hash H g"
  by (simp add: known_blocks_def split: if_splits)

interpretation stored: block_tree "known_blocks header_hash H g" "stored_num H" "stored_par H" g
  for header_hash :: "'h header \<Rightarrow> 'h" and H :: "'h \<Rightarrow> 'h header option" and g :: 'h
proof
  fix h assume h: "h \<in> known_blocks header_hash H g"
  then have l: "h \<in> linked header_hash H g" "known_blocks header_hash H g = linked header_hash H g"
    by (auto simp: known_blocks_def split: if_splits)
  show "stored_par H h \<in> known_blocks header_hash H g" if "0 < stored_num H h" using linked_parent [OF l(1) that] l(2) by simp
  show "Suc (stored_num H (stored_par H h)) = stored_num H h" if "0 < stored_num H h" using linked_parent [OF l(1) that] by simp
  show "h = g" if "stored_num H h = 0" using linked_zero [OF l(1) that] .
qed

text \<open>Metadata made from a stored header.\<close>

lemma cached_from_ok:
  assumes "h \<in> known_blocks header_hash H g" "H h = Some header"
  shows "meta_ok (known_blocks header_hash H g) (stored_num H) (stored_par H) h (cached_from header_hash header)"
proof -
  have l: "h \<in> linked header_hash H g" using known_linked [OF assms(1)] .
  then have "header_hash header = h" using assms(2) by (cases rule: linked.cases) auto
  moreover have n: "hdr_number header = stored_num H h" "hdr_parent_hash header = stored_par H h"
    using assms(2) by (simp_all add: stored_num_def stored_par_def)
  moreover have "stored_par H h \<notin> known_blocks header_hash H g" if "stored_num H h = 0"
    using linked_zero [OF l that] assms(1) by (auto simp: known_blocks_def split: if_splits)
  moreover have "at_height (stored_num H) (stored_par H) h (stored_num H h - 1) = stored_par H h" if "0 < stored_num H h"
    using that by (simp add: at_height_def)
  ultimately show ?thesis by (auto simp: meta_ok_def cached_from_def intro: exI [of _ "stored_num H h - 1"])
qed

subsection \<open>A new block\<close>

lemma linked_subset: "h \<in> linked header_hash H g \<Longrightarrow> H h \<noteq> None"
  by (elim linked_header) simp

lemma linked_upd:
  assumes "H h = None"
  shows "x \<in> linked header_hash H g \<Longrightarrow> x \<in> linked header_hash (H(h \<mapsto> header)) g"
proof (induction rule: linked.induct)
  case (genesis hd)
  then have "(H(h \<mapsto> header)) g = Some hd" using assms by auto
  then show ?case using genesis(2,3) by (rule linked.genesis)
next
  case (child x hd)
  have "H (hdr_parent_hash hd) \<noteq> None" using linked_subset [OF child(3)] .
  then have "stored_num (H(h \<mapsto> header)) (hdr_parent_hash hd) = stored_num H (hdr_parent_hash hd)"
    using assms by (auto simp: stored_num_def)
  then have "hdr_number hd = Suc (stored_num (H(h \<mapsto> header)) (hdr_parent_hash hd))" using child(4) by simp
  moreover have "(H(h \<mapsto> header)) x = Some hd" using assms child(1) by auto
  ultimately show ?case using child(2) child.IH linked.child by metis
qed

lemma linked_new:
  assumes "g \<noteq> h" "x \<in> linked header_hash (H(h \<mapsto> header)) g"
    "\<And>y hd. H y = Some hd \<Longrightarrow> hdr_parent_hash hd \<noteq> h"
  shows "x = h \<or> x \<in> linked header_hash H g"
  using assms(2)
proof (induction rule: linked.induct)
  case (genesis hd)
  then have "H g = Some hd" using assms(1) by simp
  then show ?case using genesis(2,3) linked.genesis by metis
next
  case (child x hd)
  show ?case
  proof (cases "x = h")
    case False
    then have Hx: "H x = Some hd" using child(1) by simp
    then have np: "hdr_parent_hash hd \<noteq> h" using assms(3) by blast
    then have "stored_num (H(h \<mapsto> header)) (hdr_parent_hash hd) = stored_num H (hdr_parent_hash hd)"
      by (simp add: stored_num_def)
    then have "hdr_number hd = Suc (stored_num H (hdr_parent_hash hd))" using child(4) by simp
    moreover have "hdr_parent_hash hd \<in> linked header_hash H g" using child.IH np by simp
    ultimately show ?thesis using Hx child(2) linked.child by metis
  qed simp
qed

text \<open>A block below a known one, that nothing stored refers to yet.\<close>

definition extends :: "('h header \<Rightarrow> 'h) \<Rightarrow> ('h \<Rightarrow> 'h header option) \<Rightarrow> 'h \<Rightarrow> 'h \<Rightarrow> 'h header \<Rightarrow> bool" where
  "extends header_hash H g h header \<longleftrightarrow> H h = None \<and> header_hash header = h \<and>
     hdr_parent_hash header \<in> known_blocks header_hash H g \<and>
     hdr_number header = Suc (stored_num H (hdr_parent_hash header)) \<and>
     (\<forall>y hd. H y = Some hd \<longrightarrow> hdr_parent_hash hd \<noteq> h)"

lemma known_blocks_upd:
  assumes "extends header_hash H g h header"
  shows "known_blocks header_hash (H(h \<mapsto> header)) g = insert h (known_blocks header_hash H g)"
proof -
  let ?H = "H(h \<mapsto> header)"
  note e = assms [unfolded extends_def]
  have p: "hdr_parent_hash header \<in> linked header_hash H g" using e known_linked by metis
  have known: "stored_par H g \<notin> linked header_hash H g" "known_blocks header_hash H g = linked header_hash H g"
    using e by (auto simp: known_blocks_def split: if_splits)
  have gH: "H g \<noteq> None" using p by (induction rule: linked.induct) auto
  then have gh: "g \<noteq> h" using e by auto
  have "h \<in> linked header_hash ?H g"
  proof (rule linked.child)
    show "hdr_parent_hash header \<in> linked header_hash ?H g" using linked_upd p e by metis
    have "hdr_parent_hash header \<noteq> h" using linked_subset [OF p] e by auto
    then show "hdr_number header = Suc (stored_num ?H (hdr_parent_hash header))" using e by (simp add: stored_num_def)
  qed (use e in simp_all)
  then have linked: "linked header_hash ?H g = insert h (linked header_hash H g)"
    using linked_upd [of H h _ header_hash g header] linked_new [OF gh, of _ header_hash H header] e by blast
  moreover have "stored_par ?H g = stored_par H g" using gh by (simp add: stored_par_def)
  moreover have "stored_par H g \<noteq> h" using e gH by (auto simp: stored_par_def)
  ultimately show ?thesis using known by (simp add: known_blocks_def)
qed

lemma stored_upd_other:
  "x \<noteq> h \<Longrightarrow> stored_num (H(h \<mapsto> header)) x = stored_num H x" "x \<noteq> h \<Longrightarrow> stored_par (H(h \<mapsto> header)) x = stored_par H x"
  "stored_num (H(h \<mapsto> header)) h = hdr_number header" "stored_par (H(h \<mapsto> header)) h = hdr_parent_hash header"
  by (simp_all add: stored_num_def stored_par_def)

lemma at_height_upd:
  assumes "extends header_hash H g h header" "x \<in> known_blocks header_hash H g" "n \<le> stored_num H x"
  shows "at_height (stored_num (H(h \<mapsto> header))) (stored_par (H(h \<mapsto> header))) x n = at_height (stored_num H) (stored_par H) x n"
proof -
  have nh: "y \<noteq> h" if "y \<in> known_blocks header_hash H g" for y
    using that assms(1) linked_subset [OF known_linked [OF that]] by (auto simp: extends_def)
  have "(stored_par (H(h \<mapsto> header)) ^^ k) x = (stored_par H ^^ k) x" if "k \<le> stored_num H x" for k
    using that
  proof (induction k)
    case (Suc k)
    have "(stored_par H ^^ k) x \<noteq> h" using nh stored.steps_block [OF assms(2), of k] Suc.prems by simp
    then show ?case using Suc by (simp add: stored_upd_other del: fun_upd_apply)
  qed simp
  then show ?thesis using nh [OF assms(2)] by (simp add: at_height_def stored_upd_other del: fun_upd_apply)
qed

lemma at_height_new:
  assumes "extends header_hash H g h header" "n \<le> stored_num H (hdr_parent_hash header)"
  shows "at_height (stored_num (H(h \<mapsto> header))) (stored_par (H(h \<mapsto> header))) h n =
    at_height (stored_num H) (stored_par H) (hdr_parent_hash header) n"
proof -
  let ?p = "hdr_parent_hash header"
  have e: "hdr_number header = Suc (stored_num H ?p)" "?p \<in> known_blocks header_hash H g"
    using assms(1) by (simp_all add: extends_def)
  have "?p \<noteq> h" using assms(1) linked_subset [OF known_linked [OF e(2)]] by (auto simp: extends_def)
  moreover have "Suc (stored_num H ?p) - n = Suc (stored_num H ?p - n)" using assms(2) by simp
  ultimately show ?thesis
    using at_height_upd [OF assms(1) e(2) assms(2)] e(1) unfolding at_height_def by (simp add: stored_upd_other funpow_Suc_right del: funpow.simps fun_upd_apply)
qed

end
