(* ===== verification/Leaf_Set.thy ===== *)
theory Leaf_Set
  imports BTree_Map "HOL-Library.Multiset"
begin

text \<open>
  \<open>LeafSet\<close> of \<open>client/api/src/leaves.rs\<close>: the leaves of the block tree by their numbers, highest first, and
  the undoing of the changes made to it.  A block number is a natural number; it is decremented only
  where it is not zero.
\<close>

subsection \<open>Reversed keys\<close>

text \<open>\<open>std::cmp::Reverse\<close> orders the other way round.\<close>

datatype 'a reverse = Reverse (reverse_of: 'a)

instantiation reverse :: (linorder) linorder
begin

definition less_eq_reverse :: "'a reverse \<Rightarrow> 'a reverse \<Rightarrow> bool" where
  "less_eq_reverse a b \<longleftrightarrow> reverse_of b \<le> reverse_of a"

definition less_reverse :: "'a reverse \<Rightarrow> 'a reverse \<Rightarrow> bool" where
  "less_reverse a b \<longleftrightarrow> reverse_of b < reverse_of a"

instance
  by standard (auto simp: less_eq_reverse_def less_reverse_def reverse.expand)

end

lemma reverse_less [simp]: "Reverse a < Reverse b \<longleftrightarrow> b < a" "Reverse a \<le> Reverse b \<longleftrightarrow> b \<le> a"
  by (simp_all add: less_reverse_def less_eq_reverse_def)

subsection \<open>The leaf set\<close>

type_synonym 'h leaf_set = "(nat reverse, 'h list) btree"

record 'h leaf_set_item =
  li_hash :: 'h
  li_number :: nat

record 'h import_outcome =
  io_inserted :: "'h leaf_set_item"
  io_removed :: "'h option"

record 'h remove_outcome =
  ro_inserted :: "'h option"
  ro_removed :: "'h leaf_set_item"

definition leaf_set_new :: "'h leaf_set" where
  "leaf_set_new = []"

text \<open>
  Reading the list kept in the database, which is given decoded: \<open>None\<close> stands for an absent entry and
  \<open>Some None\<close> for one that cannot be decoded, which is an error.
\<close>

definition read_from_db :: "(nat \<times> 'h list) list option option \<Rightarrow> 'h leaf_set option" where
  "read_from_db stored = (case stored of
     None \<Rightarrow> Some []
   | Some None \<Rightarrow> None
   | Some (Some vals) \<Rightarrow> Some (fold (\<lambda>(number, hashes) storage. bt_insert (Reverse number) hashes storage) vals []))"

text \<open>The list written to the database.\<close>

definition prepare_transaction :: "'h leaf_set \<Rightarrow> (nat \<times> 'h list) list" where
  "prepare_transaction ls = map (\<lambda>(n, hashes). (reverse_of n, hashes)) ls"

definition insert_leaf :: "nat \<Rightarrow> 'h \<Rightarrow> 'h leaf_set \<Rightarrow> 'h leaf_set" where
  "insert_leaf number h ls =
     bt_insert (Reverse number) ((case bt_get ls (Reverse number) of None \<Rightarrow> [] | Some hashes \<Rightarrow> hashes) @ [h]) ls"

text \<open>Was the leaf there; a level that loses its last leaf goes with it.\<close>

definition remove_leaf :: "nat \<Rightarrow> 'h \<Rightarrow> 'h leaf_set \<Rightarrow> bool \<times> 'h leaf_set" where
  "remove_leaf number h ls = (case bt_get ls (Reverse number) of
     None \<Rightarrow> (False, ls)
   | Some leaves \<Rightarrow>
       (let found = (h \<in> set leaves); rest = filter (\<lambda>x. x \<noteq> h) leaves;
            ls = bt_insert (Reverse number) rest ls
        in (found, if found \<and> rest = [] then bt_remove (Reverse number) ls else ls)))"

definition leaf_set_import :: "'h \<Rightarrow> nat \<Rightarrow> 'h \<Rightarrow> 'h leaf_set \<Rightarrow> 'h import_outcome \<times> 'h leaf_set" where
  "leaf_set_import h number parent_hash ls =
     (let (removed, ls) = (if number \<noteq> 0
            then (let (was, ls) = remove_leaf (number - 1) parent_hash ls in (if was then Some parent_hash else None, ls))
            else (None, ls))
      in (\<lparr>io_inserted = \<lparr>li_hash = h, li_number = number\<rparr>, io_removed = removed\<rparr>, insert_leaf number h ls))"

definition leaf_set_remove :: "'h \<Rightarrow> nat \<Rightarrow> 'h option \<Rightarrow> 'h leaf_set \<Rightarrow> 'h remove_outcome option \<times> 'h leaf_set" where
  "leaf_set_remove h number parent_hash ls =
     (let (was, ls) = remove_leaf number h ls
      in if \<not> was then (None, ls)
         else (let (inserted, ls) = (case parent_hash of
                 None \<Rightarrow> (None, ls)
               | Some p \<Rightarrow> if number \<noteq> 0 then (Some p, insert_leaf (number - 1) p ls) else (None, ls))
           in (Some \<lparr>ro_inserted = inserted, ro_removed = \<lparr>li_hash = h, li_number = number\<rparr>\<rparr>, ls)))"

definition remove_displaced_leaves :: "(nat \<times> 'h) list \<Rightarrow> 'h leaf_set \<Rightarrow> 'h leaf_set" where
  "remove_displaced_leaves displaced ls = fold (\<lambda>(number, h) ls. snd (remove_leaf number h ls)) displaced ls"

definition leaf_items :: "'h leaf_set \<Rightarrow> ('h \<times> nat) list" where
  "leaf_items ls = concat (map (\<lambda>(number, hashes). map (\<lambda>h. (h, reverse_of number)) hashes) ls)"

definition leaf_contains :: "nat \<Rightarrow> 'h \<Rightarrow> 'h leaf_set \<Rightarrow> bool" where
  "leaf_contains number h ls = (case bt_get ls (Reverse number) of None \<Rightarrow> False | Some hashes \<Rightarrow> h \<in> set hashes)"

text \<open>The loop of \<open>revert\<close> with its assertion.\<close>

fun revert_loop :: "nat \<Rightarrow> ('h \<times> nat) list \<Rightarrow> 'h leaf_set \<Rightarrow> 'h leaf_set run" where
  "revert_loop best_number [] ls = Some ls"
| "revert_loop best_number ((h, number) # items) ls =
     (if number > best_number then
        (let (was, ls) = remove_leaf number h ls in if was then revert_loop best_number items ls else panic)
      else revert_loop best_number items ls)"

definition leaf_set_revert :: "'h \<Rightarrow> nat \<Rightarrow> 'h leaf_set \<Rightarrow> (('h \<times> nat) list \<times> 'h leaf_set) run" where
  "leaf_set_revert best_hash best_number ls =
     (case revert_loop best_number (leaf_items ls) ls of
        None \<Rightarrow> panic
      | Some ls' \<Rightarrow> Some (filter (\<lambda>(_, n). n > best_number) (leaf_items ls),
          if leaf_contains best_number best_hash ls' then ls' else insert_leaf best_number best_hash ls'))"

definition leaf_hashes :: "'h leaf_set \<Rightarrow> 'h list" where
  "leaf_hashes ls = concat (map snd ls)"

definition leaf_count :: "'h leaf_set \<Rightarrow> nat" where
  "leaf_count ls = sum_list (map (\<lambda>(_, level). length level) ls)"

definition highest_leaf :: "'h leaf_set \<Rightarrow> (nat \<times> 'h list) option" where
  "highest_leaf ls = (case ls of [] \<Rightarrow> None | (n, hashes) # _ \<Rightarrow> Some (reverse_of n, hashes))"

definition undo_import :: "'h import_outcome \<Rightarrow> 'h leaf_set \<Rightarrow> 'h leaf_set" where
  "undo_import outcome ls =
     (let item = io_inserted outcome;
          ls = (case io_removed outcome of None \<Rightarrow> ls | Some removed_hash \<Rightarrow> insert_leaf (li_number item - 1) removed_hash ls)
      in snd (remove_leaf (li_number item) (li_hash item) ls))"

definition undo_remove :: "'h remove_outcome \<Rightarrow> 'h leaf_set \<Rightarrow> 'h leaf_set" where
  "undo_remove outcome ls =
     (let item = ro_removed outcome;
          ls = (case ro_inserted outcome of None \<Rightarrow> ls | Some inserted_hash \<Rightarrow> snd (remove_leaf (li_number item - 1) inserted_hash ls))
      in insert_leaf (li_number item) (li_hash item) ls)"

definition undo_finalization :: "(nat \<times> 'h) list \<Rightarrow> 'h leaf_set \<Rightarrow> 'h leaf_set" where
  "undo_finalization removed ls = fold (\<lambda>(number, h) ls. insert_leaf number h ls) removed ls"

subsection \<open>Well-formed leaf sets\<close>

definition leaf_wf :: "'h leaf_set \<Rightarrow> bool" where
  "leaf_wf ls \<longleftrightarrow> bt_wf ls \<and> (\<forall>(n, hashes) \<in> set ls. hashes \<noteq> [] \<and> distinct hashes)"

lemma leaf_wf_level:
  assumes "leaf_wf ls" "bt_get ls k = Some hashes"
  shows "hashes \<noteq> [] \<and> distinct hashes"
  using assms map_of_SomeD [OF assms(2)] by (auto simp: leaf_wf_def)

lemma leaf_wf_iff: "leaf_wf ls \<longleftrightarrow> bt_wf ls \<and> (\<forall>k hashes. bt_get ls k = Some hashes \<longrightarrow> hashes \<noteq> [] \<and> distinct hashes)"
  using bt_get_Some_iff [of ls] by (auto simp: leaf_wf_def)

lemma leaf_wf_new [simp]: "leaf_wf leaf_set_new"
  by (simp add: leaf_wf_def leaf_set_new_def)

lemma insert_leaf_wf:
  assumes "leaf_wf ls" "\<not> leaf_contains n h ls"
  shows "leaf_wf (insert_leaf n h ls)"
  using assms leaf_wf_level [OF assms(1)]
  by (fastforce simp: leaf_wf_iff insert_leaf_def leaf_contains_def bt_wf_insert split: option.splits if_splits)

lemma contains_insert [simp]:
  "bt_wf ls \<Longrightarrow> leaf_contains m x (insert_leaf n h ls) \<longleftrightarrow> leaf_contains m x ls \<or> m = n \<and> x = h"
  by (auto simp: leaf_contains_def insert_leaf_def split: option.split)

lemma remove_leaf_found [simp]: "fst (remove_leaf n h ls) = leaf_contains n h ls"
  by (simp add: remove_leaf_def leaf_contains_def Let_def split: option.split)

lemma contains_remove:
  assumes "leaf_wf ls"
  shows "leaf_contains m x (snd (remove_leaf n h ls)) \<longleftrightarrow> leaf_contains m x ls \<and> \<not> (m = n \<and> x = h)"
proof -
  have "bt_wf ls" using assms by (simp add: leaf_wf_def)
  then show ?thesis
    by (auto simp: leaf_contains_def remove_leaf_def Let_def bt_wf_insert filter_empty_conv split: option.split if_splits)
qed

lemma remove_leaf_wf:
  assumes "leaf_wf ls"
  shows "leaf_wf (snd (remove_leaf n h ls))"
proof (cases "bt_get ls (Reverse n)")
  case (Some leaves)
  have "bt_wf ls" using assms by (simp add: leaf_wf_def)
  moreover have "leaves \<noteq> [] \<and> distinct leaves" using leaf_wf_level [OF assms Some] .
  moreover have "h \<notin> set leaves \<Longrightarrow> filter (\<lambda>x. x \<noteq> h) leaves = leaves" by (auto simp: filter_id_conv)
  ultimately show ?thesis
    using assms Some
    by (auto simp: leaf_wf_iff remove_leaf_def Let_def bt_wf_insert bt_wf_remove split: if_splits) fastforce+
qed (use assms in \<open>simp add: remove_leaf_def\<close>)

lemma leaf_items_contains:
  assumes "leaf_wf ls"
  shows "(h, n) \<in> set (leaf_items ls) \<longleftrightarrow> leaf_contains n h ls"
proof -
  have "bt_wf ls" using assms by (simp add: leaf_wf_def)
  then have "leaf_contains n h ls \<longleftrightarrow> (\<exists>hashes. (Reverse n, hashes) \<in> set ls \<and> h \<in> set hashes)"
    unfolding bt_get_Some_iff [OF \<open>bt_wf ls\<close>, symmetric] by (auto simp: leaf_contains_def split: option.split)
  moreover have "(h, n) \<in> set (leaf_items ls) \<longleftrightarrow> (\<exists>k hashes. (k, hashes) \<in> set ls \<and> h \<in> set hashes \<and> k = Reverse n)"
  proof
    assume "(h, n) \<in> set (leaf_items ls)"
    then obtain k hashes where "(k, hashes) \<in> set ls" "h \<in> set hashes" "n = reverse_of k" by (auto simp: leaf_items_def)
    then show "\<exists>k hashes. (k, hashes) \<in> set ls \<and> h \<in> set hashes \<and> k = Reverse n" by auto
  next
    assume "\<exists>k hashes. (k, hashes) \<in> set ls \<and> h \<in> set hashes \<and> k = Reverse n"
    then obtain hashes where "(Reverse n, hashes) \<in> set ls" "h \<in> set hashes" by blast
    then show "(h, n) \<in> set (leaf_items ls)" by (auto simp: leaf_items_def intro!: bexI [of _ "(Reverse n, hashes)"])
  qed
  ultimately show ?thesis by simp
qed

text \<open>Two well-formed leaf sets with the same leaves differ in the order within a level at most.\<close>

lemma import_wf:
  assumes "leaf_wf ls" "\<not> leaf_contains n h ls"
  shows "leaf_wf (snd (leaf_set_import h n p ls))"
proof -
  have "leaf_wf (insert_leaf n h (snd (remove_leaf (n - 1) p ls)))"
    using assms by (intro insert_leaf_wf remove_leaf_wf) (simp_all add: contains_remove)
  then show ?thesis using insert_leaf_wf [OF assms] by (auto simp: leaf_set_import_def case_prod_unfold Let_def)
qed

lemma import_contains:
  assumes "leaf_wf ls"
  shows "leaf_contains m x (snd (leaf_set_import h n p ls)) \<longleftrightarrow>
    m = n \<and> x = h \<or> leaf_contains m x ls \<and> \<not> (n \<noteq> 0 \<and> m = n - 1 \<and> x = p)"
proof -
  have "bt_wf ls" "bt_wf (snd (remove_leaf (n - 1) p ls))"
    using assms remove_leaf_wf [OF assms] by (simp_all add: leaf_wf_def)
  then show ?thesis
    using contains_remove [OF assms, of m x "n - 1" p] by (auto simp: leaf_set_import_def case_prod_unfold Let_def)
qed

subsection \<open>Undoing\<close>

lemma undo_import_ok:
  assumes "leaf_wf ls" "\<not> leaf_contains n h ls" "leaf_set_import h n p ls = (outcome, ls')"
  shows "leaf_wf (undo_import outcome ls')" "leaf_contains m x (undo_import outcome ls') \<longleftrightarrow> leaf_contains m x ls"
proof -
  have w: "leaf_wf ls'" using import_wf [OF assms(1,2), of p] assms(3) by simp
  have c: "leaf_contains m x ls' \<longleftrightarrow> m = n \<and> x = h \<or> leaf_contains m x ls \<and> \<not> (n \<noteq> 0 \<and> m = n - 1 \<and> x = p)" for m x
    using import_contains [OF assms(1), of m x h n p] assms(3) by simp
  have o: "io_inserted outcome = \<lparr>li_hash = h, li_number = n\<rparr>"
      "io_removed outcome = (if n \<noteq> 0 \<and> leaf_contains (n - 1) p ls then Some p else None)"
    using assms(3) remove_leaf_found [of "n - 1" p ls] by (auto simp: leaf_set_import_def case_prod_unfold Let_def)
  define ls1 where "ls1 = (case io_removed outcome of None \<Rightarrow> ls' | Some q \<Rightarrow> insert_leaf (n - 1) q ls')"
  have w1: "leaf_wf ls1"
  proof (cases "n \<noteq> 0 \<and> leaf_contains (n - 1) p ls")
    case True
    then have "\<not> leaf_contains (n - 1) p ls'" by (auto simp: c)
    then show ?thesis using True insert_leaf_wf [OF w] by (simp add: ls1_def o)
  next
    case False
    then show ?thesis using w by (auto simp: ls1_def o)
  qed
  have c1: "leaf_contains m x ls1 \<longleftrightarrow> leaf_contains m x ls \<or> m = n \<and> x = h" for m x
    using w by (auto simp: ls1_def o c leaf_wf_def)
  have eq: "undo_import outcome ls' = snd (remove_leaf n h ls1)" by (simp add: undo_import_def ls1_def o Let_def)
  show "leaf_wf (undo_import outcome ls')" using remove_leaf_wf [OF w1] by (simp add: eq)
  show "leaf_contains m x (undo_import outcome ls') \<longleftrightarrow> leaf_contains m x ls"
    using contains_remove [OF w1, of m x n h] assms(2) by (auto simp: eq c1)
qed

lemma undo_remove_ok:
  assumes "leaf_wf ls" "leaf_set_remove h n parent ls = (Some outcome, ls')"
    "\<And>p. parent = Some p \<Longrightarrow> n \<noteq> 0 \<Longrightarrow> \<not> leaf_contains (n - 1) p ls"
  shows "leaf_wf (undo_remove outcome ls')" "leaf_contains m x (undo_remove outcome ls') \<longleftrightarrow> leaf_contains m x ls"
proof -
  define ls1 where "ls1 = snd (remove_leaf n h ls)"
  have was: "leaf_contains n h ls"
    using assms(2) remove_leaf_found [of n h ls] by (auto simp: leaf_set_remove_def case_prod_unfold Let_def split: if_splits)
  have w1: "leaf_wf ls1" using remove_leaf_wf [OF assms(1)] by (simp add: ls1_def)
  have c1: "leaf_contains m x ls1 \<longleftrightarrow> leaf_contains m x ls \<and> \<not> (m = n \<and> x = h)" for m x
    using contains_remove [OF assms(1)] by (simp add: ls1_def)
  have o: "ro_removed outcome = \<lparr>li_hash = h, li_number = n\<rparr>"
      "ro_inserted outcome = (if n \<noteq> 0 then parent else None)"
      "ls' = (case (if n \<noteq> 0 then parent else None) of None \<Rightarrow> ls1 | Some p \<Rightarrow> insert_leaf (n - 1) p ls1)"
    using assms(2) was remove_leaf_found [of n h ls]
    by (auto simp: leaf_set_remove_def case_prod_unfold Let_def ls1_def split: option.splits if_splits)
  define ls2 where "ls2 = (case ro_inserted outcome of None \<Rightarrow> ls' | Some q \<Rightarrow> snd (remove_leaf (n - 1) q ls'))"
  have "leaf_wf ls2 \<and> (leaf_contains m x ls2 \<longleftrightarrow> leaf_contains m x ls1)" for m x
  proof (cases "if n \<noteq> 0 then parent else None")
    case None
    then show ?thesis using w1 by (simp add: ls2_def o split: if_splits)
  next
    case (Some p)
    then have p: "n \<noteq> 0" "parent = Some p" by (simp_all split: if_splits)
    have np: "\<not> leaf_contains (n - 1) p ls1" using assms(3) [OF p(2,1)] by (simp add: c1)
    have "leaf_wf (insert_leaf (n - 1) p ls1)" using insert_leaf_wf [OF w1 np] .
    then show ?thesis
      using p np remove_leaf_wf [of "insert_leaf (n - 1) p ls1" "n - 1" p]
        contains_remove [of "insert_leaf (n - 1) p ls1" m x "n - 1" p] w1
      by (auto simp: ls2_def o leaf_wf_def)
  qed
  then have w2: "leaf_wf ls2" and c2: "\<And>m x. leaf_contains m x ls2 \<longleftrightarrow> leaf_contains m x ls \<and> \<not> (m = n \<and> x = h)" by (simp_all add: c1)
  have eq: "undo_remove outcome ls' = insert_leaf n h ls2" by (simp add: undo_remove_def ls2_def o(1) Let_def split: option.split)
  show "leaf_wf (undo_remove outcome ls')" using insert_leaf_wf [OF w2] by (simp add: eq c2)
  show "leaf_contains m x (undo_remove outcome ls') \<longleftrightarrow> leaf_contains m x ls"
    using w2 was by (auto simp: eq c2 leaf_wf_def)
qed

subsection \<open>Reverting\<close>

lemma revert_loop_ok:
  assumes "leaf_wf ls" "distinct items" "\<And>h n. (h, n) \<in> set items \<Longrightarrow> leaf_contains n h ls"
  shows "\<exists>ls'. revert_loop b items ls = Some ls' \<and> leaf_wf ls' \<and>
    (\<forall>m x. leaf_contains m x ls' \<longleftrightarrow> leaf_contains m x ls \<and> \<not> (b < m \<and> (x, m) \<in> set items))"
  using assms
proof (induction items arbitrary: ls)
  case (Cons item items)
  obtain h n where item: "item = (h, n)" by (cases item)
  show ?case
  proof (cases "b < n")
    case True
    define ls1 where "ls1 = snd (remove_leaf n h ls)"
    have w: "leaf_wf ls1" using remove_leaf_wf [OF Cons.prems(1)] by (simp add: ls1_def)
    have c: "leaf_contains m x ls1 \<longleftrightarrow> leaf_contains m x ls \<and> \<not> (m = n \<and> x = h)" for m x
      using contains_remove [OF Cons.prems(1)] by (simp add: ls1_def)
    have "leaf_contains m x ls1" if "(x, m) \<in> set items" for x m
      using that Cons.prems(2,3) by (auto simp: c item)
    then obtain ls' where "revert_loop b items ls1 = Some ls'" "leaf_wf ls'"
        "\<forall>m x. leaf_contains m x ls' \<longleftrightarrow> leaf_contains m x ls1 \<and> \<not> (b < m \<and> (x, m) \<in> set items)"
      using Cons.IH [OF w] Cons.prems(2) by auto
    moreover have "fst (remove_leaf n h ls)" using Cons.prems(3) by (simp add: item)
    then have "revert_loop b (item # items) ls = revert_loop b items ls1"
      using True by (simp add: item case_prod_unfold Let_def ls1_def)
    ultimately show ?thesis using True by (auto simp: c item)
  next
    case False
    then show ?thesis using Cons by (auto simp: item)
  qed
qed simp

lemma leaf_items_distinct:
  assumes "leaf_wf ls"
  shows "distinct (leaf_items ls)"
  using assms
proof (induction ls)
  case (Cons e ls)
  obtain k hashes where e: "e = (k, hashes)" by (cases e)
  have w: "leaf_wf ls" "distinct hashes" "\<forall>k' \<in> fst ` set ls. k < k'" using Cons.prems by (auto simp: leaf_wf_def e bt_wf_Cons)
  have "distinct (map (\<lambda>h. (h, reverse_of k)) hashes)" using w(2) by (simp add: distinct_map inj_on_def)
  moreover have "(h, reverse_of k) \<notin> set (leaf_items ls)" for h
  proof
    assume "(h, reverse_of k) \<in> set (leaf_items ls)"
    then obtain k' hs where "(k', hs) \<in> set ls" "reverse_of k' = reverse_of k" by (auto simp: leaf_items_def)
    then show False using w(3) by (cases k; cases k') force
  qed
  moreover have "leaf_items (e # ls) = map (\<lambda>h. (h, reverse_of k)) hashes @ leaf_items ls" by (simp add: e leaf_items_def)
  ultimately show ?case using Cons.IH [OF w(1)] by auto
qed (simp add: leaf_items_def)

lemma revert_ok:
  assumes "leaf_wf ls"
  shows "\<exists>removed ls'. leaf_set_revert h n ls = Some (removed, ls') \<and> leaf_wf ls' \<and>
    (\<forall>m x. leaf_contains m x ls' \<longleftrightarrow> leaf_contains m x ls \<and> m \<le> n \<or> m = n \<and> x = h) \<and>
    set removed = {(x, m). leaf_contains m x ls \<and> n < m}"
proof -
  obtain ls1 where l: "revert_loop n (leaf_items ls) ls = Some ls1" "leaf_wf ls1"
      "\<forall>m x. leaf_contains m x ls1 \<longleftrightarrow> leaf_contains m x ls \<and> \<not> (n < m \<and> (x, m) \<in> set (leaf_items ls))"
    using revert_loop_ok [OF assms leaf_items_distinct [OF assms], of n] leaf_items_contains [OF assms] by auto
  then have c: "leaf_contains m x ls1 \<longleftrightarrow> leaf_contains m x ls \<and> m \<le> n" for m x
    using leaf_items_contains [OF assms] by auto
  have "set (filter (\<lambda>(_, k). n < k) (leaf_items ls)) = {(x, m). leaf_contains m x ls \<and> n < m}"
    using leaf_items_contains [OF assms] by auto
  moreover have "bt_wf ls1" using l(2) by (simp add: leaf_wf_def)
  ultimately show ?thesis
    using l(1,2) insert_leaf_wf [OF l(2)] by (auto simp: leaf_set_revert_def c)
qed

lemma remove_wf:
  assumes "leaf_wf ls" "\<And>p. parent = Some p \<Longrightarrow> n \<noteq> 0 \<Longrightarrow> \<not> leaf_contains (n - 1) p ls"
  shows "leaf_wf (snd (leaf_set_remove h n parent ls))"
proof -
  have w: "leaf_wf (snd (remove_leaf n h ls))" using remove_leaf_wf [OF assms(1)] .
  moreover have "leaf_wf (insert_leaf (n - 1) p (snd (remove_leaf n h ls)))" if "parent = Some p" "n \<noteq> 0" for p
    using insert_leaf_wf [OF w] assms(2) [OF that] by (simp add: contains_remove [OF assms(1)])
  ultimately show ?thesis
    by (auto simp: leaf_set_remove_def case_prod_unfold Let_def split: option.split)
qed

lemma remove_displaced_ok:
  assumes "leaf_wf ls"
  shows "leaf_wf (remove_displaced_leaves ds ls) \<and>
    (\<forall>m x. leaf_contains m x (remove_displaced_leaves ds ls) \<longleftrightarrow> leaf_contains m x ls \<and> (m, x) \<notin> set ds)"
  using assms
proof (induction ds arbitrary: ls)
  case (Cons d ds)
  obtain n h where d: "d = (n, h)" by (cases d)
  show ?case using Cons.IH [OF remove_leaf_wf [OF Cons.prems, of n h]] contains_remove [OF Cons.prems]
    by (auto simp: remove_displaced_leaves_def d)
qed (simp add: remove_displaced_leaves_def)

subsection \<open>Writing and reading\<close>

lemma fold_insert_sorted: "bt_wf (m @ m') \<Longrightarrow> fold (\<lambda>(k, v) m. bt_insert k v m) m' m = m @ m'"
proof (induction m' arbitrary: m)
  case (Cons e m')
  obtain k v where e: "e = (k, v)" by (cases e)
  have "bt_insert k v m = m @ [(k, v)]" if "\<forall>k' \<in> fst ` set m. k' < k"
    using that by (induction m) auto
  moreover have "\<forall>k' \<in> fst ` set m. k' < k" using Cons.prems by (auto simp: bt_wf_def sorted_wrt_append e)
  ultimately show ?case using Cons.IH [of "m @ [(k, v)]"] Cons.prems by (simp add: e)
qed simp

lemma read_written: "leaf_wf ls \<Longrightarrow> read_from_db (Some (Some (prepare_transaction ls))) = Some ls"
  using fold_insert_sorted [of "[]" ls]
  by (simp add: read_from_db_def prepare_transaction_def leaf_wf_def fold_map o_def case_prod_unfold)

subsection \<open>Counting\<close>

lemma leaf_count_items: "leaf_count ls = length (leaf_items ls)" "leaf_hashes ls = map fst (leaf_items ls)"
  by (induction ls) (auto simp: leaf_count_def leaf_items_def leaf_hashes_def o_def)

lemma leaf_count_card:
  assumes "leaf_wf ls"
  shows "leaf_count ls = card {(h, n). leaf_contains n h ls}"
proof -
  have "{(h, n). leaf_contains n h ls} = set (leaf_items ls)" using leaf_items_contains [OF assms] by auto
  then show ?thesis using distinct_card [OF leaf_items_distinct [OF assms]] by (simp add: leaf_count_items)
qed

lemma highest_leaf_max:
  assumes "leaf_wf ls"
  shows "(case highest_leaf ls of None \<Rightarrow> \<forall>m x. \<not> leaf_contains m x ls
    | Some (n, hashes) \<Rightarrow> hashes \<noteq> [] \<and> (\<forall>x. x \<in> set hashes \<longleftrightarrow> leaf_contains n x ls) \<and> (\<forall>m x. leaf_contains m x ls \<longrightarrow> m \<le> n))"
proof (cases ls)
  case Nil
  then show ?thesis by (simp add: highest_leaf_def leaf_contains_def)
next
  case (Cons e rest)
  obtain k hashes where e: "e = (Reverse k, hashes)" by (cases e) (metis reverse.exhaust)
  have above: "\<forall>k' \<in> fst ` set rest. Reverse k < k'" "hashes \<noteq> []" using assms by (simp_all add: Cons e leaf_wf_def bt_wf_Cons)
  have "m \<le> k" if "leaf_contains m x ls" for m x
  proof (rule ccontr)
    assume "\<not> m \<le> k"
    moreover from this have "bt_get rest (Reverse m) \<noteq> None" using that by (auto simp: leaf_contains_def Cons e split: if_splits option.splits)
    then have "Reverse m \<in> fst ` set rest" by (auto simp: map_of_eq_None_iff)
    ultimately show False using above(1) by fastforce
  qed
  then show ?thesis using above(2) by (auto simp: highest_leaf_def Cons e leaf_contains_def)
qed

end
