(* ===== verification/In_Mem_Backend.thy ===== *)
theory In_Mem_Backend
  imports Header_Metadata Leaf_Set Overlayed_Changes "HOL-Library.AList"
begin

text \<open>
  The in-memory blockchain and backend of \<open>client/api/src/in_mem.rs\<close>.  A \<open>HashMap\<close> is an association list with
  distinct keys, whose order is never observed.  The hash of a header, the default hash and the state backends
  are arguments.  A failed assertion or \<open>expect\<close> and a search that does not end are \<open>None\<close>.
\<close>

subsection \<open>Blocks and justifications\<close>

type_synonym justification = "bytes \<times> bytes"

text \<open>\<open>Justifications\<close> of \<open>primitives/runtime/src/lib.rs\<close>.\<close>

definition justifications_get :: "bytes \<Rightarrow> justification list \<Rightarrow> bytes option" where
  "justifications_get engine_id js = map_option snd (find (\<lambda>j. fst j = engine_id) js)"

definition justifications_append :: "justification \<Rightarrow> justification list \<Rightarrow> bool \<times> justification list" where
  "justifications_append j js =
     (if justifications_get (fst j) js \<noteq> None then (False, js) else (True, js @ [j]))"

definition justifications_remove :: "bytes \<Rightarrow> justification list \<Rightarrow> justification list" where
  "justifications_remove engine_id js = filter (\<lambda>j. fst j \<noteq> engine_id) js"

datatype ('h, 'x) stored_block =
    Header_Only "'h header" "justification list option"
  | Full "'h header" "'x list" "justification list option"

definition stored_new ::
  "'h header \<Rightarrow> 'x list option \<Rightarrow> justification list option \<Rightarrow> ('h, 'x) stored_block" where
  "stored_new header body just = (case body of Some body \<Rightarrow> Full header body just | None \<Rightarrow> Header_Only header just)"

fun stored_header :: "('h, 'x) stored_block \<Rightarrow> 'h header" where
  "stored_header (Header_Only h _) = h"
| "stored_header (Full h _ _) = h"

fun stored_justifications :: "('h, 'x) stored_block \<Rightarrow> justification list option" where
  "stored_justifications (Header_Only _ j) = j"
| "stored_justifications (Full _ _ j) = j"

fun set_justifications :: "justification list option \<Rightarrow> ('h, 'x) stored_block \<Rightarrow> ('h, 'x) stored_block" where
  "set_justifications j (Header_Only h _) = Header_Only h j"
| "set_justifications j (Full h b _) = Full h b j"

fun stored_extrinsics :: "('h, 'x) stored_block \<Rightarrow> 'x list option" where
  "stored_extrinsics (Header_Only _ _) = None"
| "stored_extrinsics (Full _ b _) = Some b"

fun into_inner :: "('h, 'x) stored_block \<Rightarrow> 'h header \<times> 'x list option \<times> justification list option" where
  "into_inner (Header_Only h j) = (h, None, j)"
| "into_inner (Full h b j) = (h, Some b, j)"

datatype new_block_state = Normal | Best | Final

definition is_best :: "new_block_state \<Rightarrow> bool" where
  "is_best s = (case s of Best \<Rightarrow> True | Final \<Rightarrow> True | Normal \<Rightarrow> False)"

datatype block_status = InChain | Unknown

datatype 'h blockchain_error = UnknownBlock 'h | BadJustification | InvalidState

subsection \<open>The blockchain\<close>

record ('h, 'x) blockchain_storage =
  bs_blocks :: "('h \<times> ('h, 'x) stored_block) list"
  bs_hashes :: "(nat \<times> 'h) list"
  bs_best_hash :: 'h
  bs_best_number :: nat
  bs_finalized_hash :: 'h
  bs_finalized_number :: nat
  bs_genesis_hash :: 'h
  bs_header_cht_roots :: "(nat \<times> 'h) list"
  bs_leaves :: "'h leaf_set"
  bs_aux :: "(bytes \<times> bytes) list"

definition blockchain_new :: "'h \<Rightarrow> ('h, 'x) blockchain_storage" where
  "blockchain_new default_hash = \<lparr>bs_blocks = [], bs_hashes = [], bs_best_hash = default_hash, bs_best_number = 0,
     bs_finalized_hash = default_hash, bs_finalized_number = 0, bs_genesis_hash = default_hash,
     bs_header_cht_roots = [], bs_leaves = leaf_set_new, bs_aux = []\<rparr>"

datatype 'h block_id = By_Hash 'h | By_Number nat

definition blockchain_id :: "'h block_id \<Rightarrow> ('h, 'x) blockchain_storage \<Rightarrow> 'h option" where
  "blockchain_id i s = (case i of By_Hash h \<Rightarrow> Some h | By_Number n \<Rightarrow> map_of (bs_hashes s) n)"

definition in_mem_header :: "'h \<Rightarrow> ('h, 'x) blockchain_storage \<Rightarrow> 'h header option" where
  "in_mem_header h s = map_option stored_header (map_of (bs_blocks s) h)"

text \<open>The in-memory \<open>HeaderMetadata\<close> caches nothing.\<close>

definition in_mem_ops ::
  "('h header \<Rightarrow> 'h) \<Rightarrow> (('h, 'x) blockchain_storage, 'h blockchain_error, 'h) header_metadata_ops" where
  "in_mem_ops header_hash = \<lparr>
     header_metadata = (\<lambda>h s. (ok_or (UnknownBlock h) (map_option (cached_from header_hash) (in_mem_header h s)), s)),
     insert_header_metadata = (\<lambda>_ _ s. s),
     remove_header_metadata = (\<lambda>_ s. s)\<rparr>"

text \<open>The index of the best chain after a reorganization up to the parent of the new head.\<close>

definition reorganize :: "'h tree_route \<Rightarrow> (nat \<times> 'h) list \<Rightarrow> (nat \<times> 'h) list" where
  "reorganize route index =
     (let enacted = enacted route;
          index = fold (\<lambda>entry index. AList.update (hn_number entry) (hn_hash entry) index) enacted index
      in fold (\<lambda>entry index. AList.delete (hn_number entry) index) (drop (length enacted) (retracted route)) index)"

definition apply_head ::
  "('h header \<Rightarrow> 'h) \<Rightarrow> 'h header \<Rightarrow> ('h, 'x) blockchain_storage
     \<Rightarrow> (('h, 'x) blockchain_storage, 'h blockchain_error, unit) store_run" where
  "apply_head header_hash header s =
     (let set_best = (\<lambda>s. s\<lparr>bs_best_hash := header_hash header, bs_best_number := hdr_number header,
            bs_hashes := AList.update (hdr_number header) (header_hash header) (bs_hashes s)\<rparr>)
      in if bs_best_hash s = hdr_parent_hash header then Some (Inr (), set_best s)
         else sbind (tree_route (in_mem_ops header_hash) (bs_best_hash s) (hdr_parent_hash header) s) (\<lambda>route s.
           Some (Inr (), set_best (s\<lparr>bs_hashes := reorganize route (bs_hashes s)\<rparr>))))"

definition in_mem_insert ::
  "('h header \<Rightarrow> 'h) \<Rightarrow> 'h \<Rightarrow> 'h header \<Rightarrow> justification list option \<Rightarrow> 'x list option \<Rightarrow> new_block_state \<Rightarrow> bool
     \<Rightarrow> ('h, 'x) blockchain_storage \<Rightarrow> (('h, 'x) blockchain_storage, 'h blockchain_error, unit) store_run" where
  "in_mem_insert header_hash h header justifications body new_state register_as_leaf s =
     sbind (if is_best new_state then apply_head header_hash header s else Some (Inr (), s)) (\<lambda>_ s.
       let number = hdr_number header;
           s = (if register_as_leaf
                then s\<lparr>bs_leaves := snd (leaf_set_import h number (hdr_parent_hash header) (bs_leaves s))\<rparr> else s);
           s = s\<lparr>bs_blocks := AList.update h (stored_new header body justifications) (bs_blocks s)\<rparr>;
           s = (if new_state = Final then s\<lparr>bs_finalized_hash := h, bs_finalized_number := number\<rparr> else s);
           s = (if number = 0 then s\<lparr>bs_genesis_hash := h\<rparr> else s)
       in Some (Inr (), s))"

definition blocks_count :: "('h, 'x) blockchain_storage \<Rightarrow> nat" where
  "blocks_count s = length (bs_blocks s)"

text \<open>Equality of hash maps.\<close>

definition same_map :: "('k \<times> 'v) list \<Rightarrow> ('k \<times> 'v) list \<Rightarrow> bool" where
  "same_map a b = (length a = length b \<and> (\<forall>(k, v) \<in> set a. map_of b k = Some v))"

definition canon_equals_to :: "('h, 'x) blockchain_storage \<Rightarrow> ('h, 'x) blockchain_storage \<Rightarrow> bool" where
  "canon_equals_to a b = (same_map (bs_hashes a) (bs_hashes b) \<and> bs_best_hash a = bs_best_hash b \<and>
     bs_best_number a = bs_best_number b \<and> bs_genesis_hash a = bs_genesis_hash b)"

definition equals_to :: "('h, 'x) blockchain_storage \<Rightarrow> ('h, 'x) blockchain_storage \<Rightarrow> bool" where
  "equals_to a b = (canon_equals_to a b \<and> same_map (bs_blocks a) (bs_blocks b))"

definition insert_cht_root :: "nat \<Rightarrow> 'h \<Rightarrow> ('h, 'x) blockchain_storage \<Rightarrow> ('h, 'x) blockchain_storage" where
  "insert_cht_root block cht_root s = s\<lparr>bs_header_cht_roots := AList.update block cht_root (bs_header_cht_roots s)\<rparr>"

definition set_head ::
  "('h header \<Rightarrow> 'h) \<Rightarrow> 'h \<Rightarrow> ('h, 'x) blockchain_storage
     \<Rightarrow> (('h, 'x) blockchain_storage, 'h blockchain_error, unit) store_run" where
  "set_head header_hash h s = (case in_mem_header h s of
     None \<Rightarrow> Some (Inl (UnknownBlock h), s) | Some header \<Rightarrow> apply_head header_hash header s)"

definition finalize_header ::
  "'h \<Rightarrow> justification option \<Rightarrow> ('h, 'x) blockchain_storage \<Rightarrow> ('h, 'x) blockchain_storage run" where
  "finalize_header block justification s =
     (let s = s\<lparr>bs_finalized_hash := block\<rparr>
      in case justification of
           None \<Rightarrow> Some s
         | Some j \<Rightarrow> (case map_of (bs_blocks s) block of
             None \<Rightarrow> panic
           | Some b \<Rightarrow> Some (s\<lparr>bs_blocks := AList.update block (set_justifications (Some [j]) b) (bs_blocks s)\<rparr>)))"

definition append_justification ::
  "'h \<Rightarrow> justification \<Rightarrow> ('h, 'x) blockchain_storage
     \<Rightarrow> (('h, 'x) blockchain_storage, 'h blockchain_error, unit) store_run" where
  "append_justification h justification s = (case map_of (bs_blocks s) h of
     None \<Rightarrow> panic
   | Some b \<Rightarrow> (case stored_justifications b of
       Some js \<Rightarrow> (case justifications_append justification js of
           (False, _) \<Rightarrow> Some (Inl BadJustification, s)
         | (True, js) \<Rightarrow> Some (Inr (), s\<lparr>bs_blocks := AList.update h (set_justifications (Some js) b) (bs_blocks s)\<rparr>))
     | None \<Rightarrow> Some (Inr (), s\<lparr>bs_blocks := AList.update h (set_justifications (Some [justification]) b) (bs_blocks s)\<rparr>)))"

definition write_aux :: "(bytes \<times> bytes option) list \<Rightarrow> ('h, 'x) blockchain_storage \<Rightarrow> ('h, 'x) blockchain_storage" where
  "write_aux ops s = s\<lparr>bs_aux := fold (\<lambda>(k, v) aux. case v of
     Some v \<Rightarrow> AList.update k v aux | None \<Rightarrow> AList.delete k aux) ops (bs_aux s)\<rparr>"

definition insert_aux :: "(bytes \<times> bytes) list \<Rightarrow> bytes list \<Rightarrow> ('h, 'x) blockchain_storage \<Rightarrow> ('h, 'x) blockchain_storage" where
  "insert_aux inserts deletes s = s\<lparr>bs_aux :=
     fold AList.delete deletes (fold (\<lambda>(k, v) aux. AList.update k v aux) inserts (bs_aux s))\<rparr>"

definition get_aux :: "bytes \<Rightarrow> ('h, 'x) blockchain_storage \<Rightarrow> bytes option" where
  "get_aux key s = map_of (bs_aux s) key"

record 'h blockchain_info =
  bi_best_hash :: 'h
  bi_best_number :: nat
  bi_genesis_hash :: 'h
  bi_finalized_hash :: 'h
  bi_finalized_number :: nat
  bi_finalized_state :: "('h \<times> nat) option"
  bi_number_leaves :: nat

definition in_mem_info :: "'h \<Rightarrow> ('h, 'x) blockchain_storage \<Rightarrow> 'h blockchain_info" where
  "in_mem_info default_hash s = \<lparr>bi_best_hash = bs_best_hash s, bi_best_number = bs_best_number s,
     bi_genesis_hash = bs_genesis_hash s, bi_finalized_hash = bs_finalized_hash s,
     bi_finalized_number = bs_finalized_number s,
     bi_finalized_state = (if bs_finalized_hash s \<noteq> default_hash then Some (bs_finalized_hash s, bs_finalized_number s) else None),
     bi_number_leaves = leaf_count (bs_leaves s)\<rparr>"

definition in_mem_status :: "'h \<Rightarrow> ('h, 'x) blockchain_storage \<Rightarrow> block_status" where
  "in_mem_status h s = (if map_of (bs_blocks s) h \<noteq> None then InChain else Unknown)"

definition in_mem_number :: "'h \<Rightarrow> ('h, 'x) blockchain_storage \<Rightarrow> nat option" where
  "in_mem_number h s = map_option (\<lambda>b. hdr_number (stored_header b)) (map_of (bs_blocks s) h)"

definition in_mem_hash :: "nat \<Rightarrow> ('h, 'x) blockchain_storage \<Rightarrow> 'h option" where
  "in_mem_hash number s = blockchain_id (By_Number number) s"

definition in_mem_body :: "'h \<Rightarrow> ('h, 'x) blockchain_storage \<Rightarrow> 'x list option" where
  "in_mem_body h s = Option.bind (map_of (bs_blocks s) h) stored_extrinsics"

definition in_mem_justifications :: "'h \<Rightarrow> ('h, 'x) blockchain_storage \<Rightarrow> justification list option" where
  "in_mem_justifications h s = Option.bind (map_of (bs_blocks s) h) stored_justifications"

definition last_finalized :: "('h, 'x) blockchain_storage \<Rightarrow> 'h" where
  "last_finalized s = bs_finalized_hash s"

definition in_mem_leaves :: "('h, 'x) blockchain_storage \<Rightarrow> 'h list" where
  "in_mem_leaves s = leaf_hashes (bs_leaves s)"

subsection \<open>The backend\<close>

record ('h, 'x) pending_block =
  pb_block :: "('h, 'x) stored_block"
  pb_state :: new_block_state
  pb_register_as_leaf :: bool

record ('h, 'x, 'st, 'tx) import_operation =
  op_pending_block :: "('h, 'x) pending_block option"
  op_old_state :: 'st
  op_new_state :: "'tx option"
  op_aux :: "(bytes \<times> bytes option) list"
  op_finalized_blocks :: "('h \<times> justification option) list"
  op_set_head :: "'h option"

text \<open>\<open>Storage\<close>: the pairs of the top trie, and those of each child trie by its key.\<close>

record genesis_storage =
  gs_top :: "(bytes \<times> bytes) list"
  gs_children_default :: "(bytes \<times> (bytes \<times> bytes) list) list"

text \<open>
  The state backend, which is not part of this file: the empty state, a state updated by a transaction, and the
  root of a storage with the transaction that leads to it, for the encoding of a state version.
\<close>

record ('h, 'st, 'tx) state_ops =
  st_default :: 'st
  st_full_storage_root :: "genesis_storage \<Rightarrow> state_version \<Rightarrow> 'st \<Rightarrow> 'h \<times> 'tx"
  st_update_backend :: "'h \<Rightarrow> 'tx \<Rightarrow> 'st \<Rightarrow> 'st"

record ('h, 'x, 'st) in_mem_backend =
  be_states :: "('h \<times> 'st) list"
  be_blockchain :: "('h, 'x) blockchain_storage"
  be_pinned_blocks :: "('h \<times> 64 word) list"

definition backend_new :: "'h \<Rightarrow> ('h, 'x, 'st) in_mem_backend" where
  "backend_new default_hash = \<lparr>be_states = [], be_blockchain = blockchain_new default_hash, be_pinned_blocks = []\<rparr>"

definition pin_refs :: "'h \<Rightarrow> ('h, 'x, 'st) in_mem_backend \<Rightarrow> 64 word option" where
  "pin_refs h b = map_of (be_pinned_blocks b) h"

definition pin_block :: "'h \<Rightarrow> ('h, 'x, 'st) in_mem_backend \<Rightarrow> ('h, 'x, 'st) in_mem_backend" where
  "pin_block h b = b\<lparr>be_pinned_blocks := AList.update h ((case pin_refs h b of None \<Rightarrow> 0 | Some n \<Rightarrow> n) + 1) (be_pinned_blocks b)\<rparr>"

definition unpin_block :: "'h \<Rightarrow> ('h, 'x, 'st) in_mem_backend \<Rightarrow> ('h, 'x, 'st) in_mem_backend" where
  "unpin_block h b = b\<lparr>be_pinned_blocks := AList.update h (case pin_refs h b of None \<Rightarrow> - 1 | Some n \<Rightarrow> n - 1) (be_pinned_blocks b)\<rparr>"

definition state_at ::
  "('h, 'st, 'tx) state_ops \<Rightarrow> 'h \<Rightarrow> 'h \<Rightarrow> ('h, 'x, 'st) in_mem_backend \<Rightarrow> 'h blockchain_error + 'st" where
  "state_at so default_hash h b =
     (if h = default_hash then Inr (st_default so) else ok_or (UnknownBlock h) (map_of (be_states b) h))"

definition begin_operation ::
  "('h, 'st, 'tx) state_ops \<Rightarrow> 'h \<Rightarrow> ('h, 'x, 'st) in_mem_backend
     \<Rightarrow> 'h blockchain_error + ('h, 'x, 'st, 'tx) import_operation" where
  "begin_operation so default_hash b = rbind (state_at so default_hash default_hash b) (\<lambda>old_state.
     Inr \<lparr>op_pending_block = None, op_old_state = old_state, op_new_state = None, op_aux = [],
       op_finalized_blocks = [], op_set_head = None\<rparr>)"

definition begin_state_operation ::
  "('h, 'st, 'tx) state_ops \<Rightarrow> 'h \<Rightarrow> 'h \<Rightarrow> ('h, 'x, 'st) in_mem_backend \<Rightarrow> ('h, 'x, 'st, 'tx) import_operation
     \<Rightarrow> 'h blockchain_error + ('h, 'x, 'st, 'tx) import_operation" where
  "begin_state_operation so default_hash block b operation =
     rbind (state_at so default_hash block b) (\<lambda>st. Inr (operation\<lparr>op_old_state := st\<rparr>))"

definition set_block_data ::
  "'h header \<Rightarrow> 'x list option \<Rightarrow> justification list option \<Rightarrow> new_block_state \<Rightarrow> bool
     \<Rightarrow> ('h, 'x, 'st, 'tx) import_operation \<Rightarrow> ('h, 'x, 'st, 'tx) import_operation run" where
  "set_block_data header body justifications new_state register_as_leaf operation =
     (if op_pending_block operation \<noteq> None then panic
      else Some (operation\<lparr>op_pending_block := Some \<lparr>pb_block = stored_new header body justifications,
        pb_state = new_state, pb_register_as_leaf = register_as_leaf\<rparr>\<rparr>))"

definition update_db_storage :: "'tx \<Rightarrow> ('h, 'x, 'st, 'tx) import_operation \<Rightarrow> ('h, 'x, 'st, 'tx) import_operation" where
  "update_db_storage update operation = operation\<lparr>op_new_state := Some update\<rparr>"

definition op_insert_aux ::
  "(bytes \<times> bytes option) list \<Rightarrow> ('h, 'x, 'st, 'tx) import_operation \<Rightarrow> ('h, 'x, 'st, 'tx) import_operation" where
  "op_insert_aux ops operation = operation\<lparr>op_aux := op_aux operation @ ops\<rparr>"

definition mark_finalized ::
  "'h \<Rightarrow> justification option \<Rightarrow> ('h, 'x, 'st, 'tx) import_operation \<Rightarrow> ('h, 'x, 'st, 'tx) import_operation" where
  "mark_finalized h justification operation =
     operation\<lparr>op_finalized_blocks := op_finalized_blocks operation @ [(h, justification)]\<rparr>"

definition mark_head :: "'h \<Rightarrow> ('h, 'x, 'st, 'tx) import_operation \<Rightarrow> ('h, 'x, 'st, 'tx) import_operation run" where
  "mark_head h operation =
     (if op_pending_block operation \<noteq> None then panic else Some (operation\<lparr>op_set_head := Some h\<rparr>))"

fun finalize_headers ::
  "('h \<times> justification option) list \<Rightarrow> ('h, 'x) blockchain_storage \<Rightarrow> ('h, 'x) blockchain_storage run" where
  "finalize_headers [] s = Some s"
| "finalize_headers ((block, justification) # rest) s =
     Option.bind (finalize_header block justification s) (finalize_headers rest)"

text \<open>An operation on the blockchain of the backend.\<close>

definition on_blockchain ::
  "(('h, 'x) blockchain_storage \<Rightarrow> (('h, 'x) blockchain_storage, 'h blockchain_error, 'a) store_run)
     \<Rightarrow> ('h, 'x, 'st) in_mem_backend \<Rightarrow> (('h, 'x, 'st) in_mem_backend, 'h blockchain_error, 'a) store_run" where
  "on_blockchain f b = map_option (\<lambda>(r, s). (r, b\<lparr>be_blockchain := s\<rparr>)) (f (be_blockchain b))"

definition commit_operation ::
  "('h, 'st, 'tx) state_ops \<Rightarrow> ('h header \<Rightarrow> 'h) \<Rightarrow> ('h, 'x, 'st, 'tx) import_operation \<Rightarrow> ('h, 'x, 'st) in_mem_backend
     \<Rightarrow> (('h, 'x, 'st) in_mem_backend, 'h blockchain_error, unit) store_run" where
  "commit_operation so header_hash operation b =
     sbind (on_blockchain (\<lambda>s. map_option (Pair (Inr ())) (finalize_headers (op_finalized_blocks operation) s)) b) (\<lambda>_ b.
     sbind (case op_pending_block operation of
         None \<Rightarrow> Some (Inr (), b)
       | Some pending \<Rightarrow>
           (let (header, body, justification) = into_inner (pb_block pending);
                h = header_hash header;
                new_state = (case op_new_state operation of
                  Some tx \<Rightarrow> st_update_backend so (hdr_state_root header) tx (op_old_state operation)
                | None \<Rightarrow> op_old_state operation);
                b = b\<lparr>be_states := AList.update h new_state (be_states b)\<rparr>
            in on_blockchain (in_mem_insert header_hash h header justification body (pb_state pending) (pb_register_as_leaf pending)) b)) (\<lambda>_ b.
     let b = (if op_aux operation \<noteq> [] then b\<lparr>be_blockchain := write_aux (op_aux operation) (be_blockchain b)\<rparr> else b)
     in case op_set_head operation of None \<Rightarrow> Some (Inr (), b) | Some h \<Rightarrow> on_blockchain (set_head header_hash h) b))"

definition finalize_block ::
  "'h \<Rightarrow> justification option \<Rightarrow> ('h, 'x, 'st) in_mem_backend \<Rightarrow> ('h, 'x, 'st) in_mem_backend run" where
  "finalize_block h justification b =
     map_option (\<lambda>s. b\<lparr>be_blockchain := s\<rparr>) (finalize_header h justification (be_blockchain b))"

definition check_genesis_storage :: "genesis_storage \<Rightarrow> 'h blockchain_error + unit" where
  "check_genesis_storage storage =
     (if list_ex (\<lambda>(k, _). is_child_storage_key k) (gs_top storage) then Inl InvalidState
      else if list_ex (\<lambda>(k, _). \<not> is_child_storage_key k) (gs_children_default storage) then Inl InvalidState
      else Inr ())"

definition apply_storage ::
  "('h, 'st, 'tx) state_ops \<Rightarrow> genesis_storage \<Rightarrow> bool \<Rightarrow> state_version \<Rightarrow> ('h, 'x, 'st, 'tx) import_operation
     \<Rightarrow> ('h blockchain_error + 'h) \<times> ('h, 'x, 'st, 'tx) import_operation" where
  "apply_storage so storage commit state_version operation = (case check_genesis_storage storage of
     Inl err \<Rightarrow> (Inl err, operation)
   | Inr _ \<Rightarrow>
       (let (root, transaction) = st_full_storage_root so storage state_version (op_old_state operation)
        in (Inr root, if commit then operation\<lparr>op_new_state := Some transaction\<rparr> else operation)))"

definition set_genesis_state ::
  "('h, 'st, 'tx) state_ops \<Rightarrow> genesis_storage \<Rightarrow> bool \<Rightarrow> state_version \<Rightarrow> ('h, 'x, 'st, 'tx) import_operation
     \<Rightarrow> ('h blockchain_error + 'h) \<times> ('h, 'x, 'st, 'tx) import_operation" where
  "set_genesis_state so storage commit state_version operation = apply_storage so storage commit state_version operation"

definition reset_storage ::
  "('h, 'st, 'tx) state_ops \<Rightarrow> genesis_storage \<Rightarrow> state_version \<Rightarrow> ('h, 'x, 'st, 'tx) import_operation
     \<Rightarrow> ('h blockchain_error + 'h) \<times> ('h, 'x, 'st, 'tx) import_operation" where
  "reset_storage so storage state_version operation = apply_storage so storage True state_version operation"

end
