(* ===== verification/Blockchain_Db.thy ===== *)
theory Blockchain_Db
  imports Stored_Chain Leaf_Set In_Mem_Backend
begin

text \<open>
  \<open>BlockchainDb\<close> of \<open>client/db/src/lib.rs\<close> as far as it serves headers: reading a header through a small cache,
  header metadata through \<open>HeaderMetadataCache\<close>, and the metadata of the chain.  The two cache containers and the
  database come from other packages and are arguments.  With caches that return only what was put in, the
  store keeps to the contract of a header store.
\<close>

subsection \<open>Caches\<close>

text \<open>
  What the code uses of \<open>LinkedHashMap\<close> and of \<open>LruMap\<close>: a lookup that refreshes the entry, insertion and removal,
  and of the former its length and the removal of its oldest entry.
\<close>

record ('c, 'k, 'v) cache_ops =
  c_get :: "'k \<Rightarrow> 'c \<Rightarrow> 'v option \<times> 'c"
  c_insert :: "'k \<Rightarrow> 'v \<Rightarrow> 'c \<Rightarrow> 'c"
  c_remove :: "'k \<Rightarrow> 'c \<Rightarrow> 'c"
  c_len :: "'c \<Rightarrow> nat"
  c_pop_front :: "'c \<Rightarrow> 'c"

definition CACHE_HEADERS :: nat where
  "CACHE_HEADERS = 8"

text \<open>The loop that shrinks the cache takes at most as many rounds as there are entries.\<close>

fun shrink_cache :: "('c, 'k, 'v) cache_ops \<Rightarrow> nat \<Rightarrow> 'c \<Rightarrow> 'c" where
  "shrink_cache co 0 c = c"
| "shrink_cache co (Suc rounds) c =
     (if c_len co c > CACHE_HEADERS then shrink_cache co rounds (c_pop_front co c) else c)"

definition cache_header :: "('c, 'h, 'v) cache_ops \<Rightarrow> 'h \<Rightarrow> 'v \<Rightarrow> 'c \<Rightarrow> 'c" where
  "cache_header co h header c = (let c = c_insert co h header c in shrink_cache co (c_len co c) c)"

subsection \<open>The store\<close>

datatype ('h, 'e) client_error = Db_UnknownBlock 'h | Backend 'e

record block_gap =
  gap_start :: nat
  gap_end :: nat
  gap_missing_headers :: bool

record 'h db_meta =
  meta_best_hash :: 'h
  meta_best_number :: nat
  meta_finalized_hash :: 'h
  meta_finalized_number :: nat
  meta_genesis_hash :: 'h
  meta_finalized_state :: "('h \<times> nat) option"
  meta_block_gap :: "block_gap option"

record ('h, 'hc, 'mc) blockchain_db =
  db_header_cache :: 'hc
  db_header_metadata_cache :: 'mc
  db_meta :: "'h db_meta"
  db_leaves :: "'h leaf_set"

text \<open>The database and the cache containers.\<close>

record ('h, 'e, 'hc, 'mc) db_env =
  env_header_hash :: "'h header \<Rightarrow> 'h"
  env_read_header :: "'h block_id \<Rightarrow> 'e + 'h header option"
  env_headers :: "('hc, 'h, 'h header option) cache_ops"
  env_metadata :: "('mc, 'h, 'h cached_header_metadata) cache_ops"

definition db_header ::
  "('h, 'e, 'hc, 'mc) db_env \<Rightarrow> 'h \<Rightarrow> ('h, 'hc, 'mc) blockchain_db
     \<Rightarrow> (('h, 'e) client_error + 'h header option) \<times> ('h, 'hc, 'mc) blockchain_db" where
  "db_header env h s = (case c_get (env_headers env) h (db_header_cache s) of
     (Some result, cache) \<Rightarrow> (Inr result, s\<lparr>db_header_cache := cache\<rparr>)
   | (None, cache) \<Rightarrow> (case env_read_header env (By_Hash h) of
       Inl err \<Rightarrow> (Inl (Backend err), s\<lparr>db_header_cache := cache\<rparr>)
     | Inr header \<Rightarrow> (Inr header, s\<lparr>db_header_cache := cache_header (env_headers env) h header cache\<rparr>)))"

definition db_header_metadata ::
  "('h, 'e, 'hc, 'mc) db_env \<Rightarrow> 'h \<Rightarrow> ('h, 'hc, 'mc) blockchain_db
     \<Rightarrow> (('h, 'e) client_error + 'h cached_header_metadata) \<times> ('h, 'hc, 'mc) blockchain_db" where
  "db_header_metadata env h s = (case c_get (env_metadata env) h (db_header_metadata_cache s) of
     (Some m, cache) \<Rightarrow> (Inr m, s\<lparr>db_header_metadata_cache := cache\<rparr>)
   | (None, cache) \<Rightarrow> (case db_header env h (s\<lparr>db_header_metadata_cache := cache\<rparr>) of
       (Inl err, s) \<Rightarrow> (Inl err, s)
     | (Inr None, s) \<Rightarrow> (Inl (Db_UnknownBlock h), s)
     | (Inr (Some header), s) \<Rightarrow>
         (let m = cached_from (env_header_hash env) header
          in (Inr m, s\<lparr>db_header_metadata_cache := c_insert (env_metadata env) (hm_hash m) m (db_header_metadata_cache s)\<rparr>))))"

definition db_insert_header_metadata ::
  "('h, 'e, 'hc, 'mc) db_env \<Rightarrow> 'h \<Rightarrow> 'h cached_header_metadata \<Rightarrow> ('h, 'hc, 'mc) blockchain_db \<Rightarrow> ('h, 'hc, 'mc) blockchain_db" where
  "db_insert_header_metadata env h m s =
     s\<lparr>db_header_metadata_cache := c_insert (env_metadata env) h m (db_header_metadata_cache s)\<rparr>"

definition db_remove_header_metadata ::
  "('h, 'e, 'hc, 'mc) db_env \<Rightarrow> 'h \<Rightarrow> ('h, 'hc, 'mc) blockchain_db \<Rightarrow> ('h, 'hc, 'mc) blockchain_db" where
  "db_remove_header_metadata env h s = s\<lparr>db_header_cache := c_remove (env_headers env) h (db_header_cache s),
     db_header_metadata_cache := c_remove (env_metadata env) h (db_header_metadata_cache s)\<rparr>"

definition db_ops ::
  "('h, 'e, 'hc, 'mc) db_env \<Rightarrow> (('h, 'hc, 'mc) blockchain_db, ('h, 'e) client_error, 'h) header_metadata_ops" where
  "db_ops env = \<lparr>header_metadata = db_header_metadata env, insert_header_metadata = db_insert_header_metadata env,
     remove_header_metadata = db_remove_header_metadata env\<rparr>"

record 'h meta_update =
  mu_hash :: 'h
  mu_number :: nat
  mu_is_best :: bool
  mu_is_finalized :: bool
  mu_with_state :: bool

definition update_meta :: "'h meta_update \<Rightarrow> 'h db_meta \<Rightarrow> 'h db_meta" where
  "update_meta u meta =
     (let meta = (if mu_number u = 0 then meta\<lparr>meta_genesis_hash := mu_hash u\<rparr> else meta);
          meta = (if mu_is_best u then meta\<lparr>meta_best_number := mu_number u, meta_best_hash := mu_hash u\<rparr> else meta)
      in if mu_is_finalized u then
           (let meta = (if mu_with_state u then meta\<lparr>meta_finalized_state := Some (mu_hash u, mu_number u)\<rparr> else meta)
            in meta\<lparr>meta_finalized_number := mu_number u, meta_finalized_hash := mu_hash u\<rparr>)
         else meta)"

definition update_block_gap :: "block_gap option \<Rightarrow> 'h db_meta \<Rightarrow> 'h db_meta" where
  "update_block_gap gap meta = meta\<lparr>meta_block_gap := gap\<rparr>"

definition db_info :: "('h, 'hc, 'mc) blockchain_db \<Rightarrow> 'h blockchain_info \<times> block_gap option" where
  "db_info s = (let meta = db_meta s in (\<lparr>bi_best_hash = meta_best_hash meta, bi_best_number = meta_best_number meta,
     bi_genesis_hash = meta_genesis_hash meta, bi_finalized_hash = meta_finalized_hash meta,
     bi_finalized_number = meta_finalized_number meta, bi_finalized_state = meta_finalized_state meta,
     bi_number_leaves = leaf_count (db_leaves s)\<rparr>, meta_block_gap meta))"

definition db_status ::
  "('h, 'e, 'hc, 'mc) db_env \<Rightarrow> 'h \<Rightarrow> ('h, 'hc, 'mc) blockchain_db
     \<Rightarrow> (('h, 'e) client_error + block_status) \<times> ('h, 'hc, 'mc) blockchain_db" where
  "db_status env h s = (let (r, s) = db_header env h s in (rbind r (\<lambda>header. Inr (if header \<noteq> None then InChain else Unknown)), s))"

definition db_number ::
  "('h, 'e, 'hc, 'mc) db_env \<Rightarrow> 'h \<Rightarrow> ('h, 'hc, 'mc) blockchain_db \<Rightarrow> nat option \<times> ('h, 'hc, 'mc) blockchain_db" where
  "db_number env h s = (case db_header_metadata env h s of (Inl _, s) \<Rightarrow> (None, s) | (Inr m, s) \<Rightarrow> (Some (hm_number m), s))"

definition db_hash :: "('h, 'e, 'hc, 'mc) db_env \<Rightarrow> nat \<Rightarrow> ('h, 'e) client_error + 'h option" where
  "db_hash env number = (case env_read_header env (By_Number number) of
     Inl err \<Rightarrow> Inl (Backend err) | Inr header \<Rightarrow> Inr (map_option (env_header_hash env) header))"

definition db_last_finalized :: "('h, 'hc, 'mc) blockchain_db \<Rightarrow> 'h" where
  "db_last_finalized s = meta_finalized_hash (db_meta s)"

definition db_leaf_hashes :: "('h, 'hc, 'mc) blockchain_db \<Rightarrow> 'h list" where
  "db_leaf_hashes s = leaf_hashes (db_leaves s)"

subsection \<open>What a cache promises\<close>

locale cache =
  fixes co :: "('c, 'k, 'v) cache_ops" and content :: "'c \<Rightarrow> 'k \<Rightarrow> 'v option"
  assumes get_content: "fst (c_get co k c) = content c k"
    and get_keeps: "content (snd (c_get co k c)) = content c"
    and insert_content: "content (c_insert co k v c) x = Some y \<Longrightarrow> x = k \<and> y = v \<or> x \<noteq> k \<and> content c x = Some y"
    and remove_content: "content (c_remove co k c) x = Some y \<Longrightarrow> x \<noteq> k \<and> content c x = Some y"
    and pop_content: "content (c_pop_front co c) x = Some y \<Longrightarrow> content c x = Some y"
    and pop_len: "c_len co (c_pop_front co c) = c_len co c - 1"
begin

lemma shrink_content: "content (shrink_cache co n c) x = Some y \<Longrightarrow> content c x = Some y"
  by (induction n arbitrary: c) (auto split: if_splits dest: pop_content)

lemma shrink_len: "c_len co c \<le> n + CACHE_HEADERS \<Longrightarrow> c_len co (shrink_cache co n c) \<le> CACHE_HEADERS"
  by (induction n arbitrary: c) (auto simp: pop_len)

lemma cache_header_content:
  "content (cache_header co k v c) x = Some y \<Longrightarrow> x = k \<and> y = v \<or> x \<noteq> k \<and> content c x = Some y"
  by (auto simp: cache_header_def Let_def dest!: shrink_content insert_content)

lemma cache_header_bounded: "c_len co (cache_header co k v c) \<le> CACHE_HEADERS"
  by (simp add: cache_header_def Let_def shrink_len)

end

text \<open>A bounded list, newest entry first, that forgets its oldest entries.\<close>

definition list_cache :: "nat \<Rightarrow> (('k \<times> 'v) list, 'k, 'v) cache_ops" where
  "list_cache capacity = \<lparr>
     c_get = (\<lambda>k c. (map_of c k, case map_of c k of None \<Rightarrow> c | Some v \<Rightarrow> (k, v) # filter (\<lambda>e. fst e \<noteq> k) c)),
     c_insert = (\<lambda>k v c. take capacity ((k, v) # filter (\<lambda>e. fst e \<noteq> k) c)),
     c_remove = (\<lambda>k c. filter (\<lambda>e. fst e \<noteq> k) c),
     c_len = length,
     c_pop_front = butlast\<rparr>"

lemma map_of_take: "map_of (take n xs) k = Some v \<Longrightarrow> map_of xs k = Some v"
  by (induction xs arbitrary: n) (auto simp: take_Cons' split: if_splits)

lemma map_of_other: "map_of (filter (\<lambda>e. fst e \<noteq> k) c) x = (if x = k then None else map_of c x)"
  by (induction c) auto

interpretation list_cache: cache "list_cache capacity" map_of
  for capacity :: nat
proof
  fix k x :: 'a and v y :: 'b and c :: "('a \<times> 'b) list"
  show "map_of (snd (c_get (list_cache capacity) k c)) = map_of c"
    by (auto simp: list_cache_def map_of_other fun_eq_iff split: option.split)
  show "x = k \<and> y = v \<or> x \<noteq> k \<and> map_of c x = Some y" if "map_of (c_insert (list_cache capacity) k v c) x = Some y"
    using that by (auto simp: list_cache_def map_of_other dest!: map_of_take split: if_splits)
  show "map_of c x = Some y" if "map_of (c_pop_front (list_cache capacity) c) x = Some y"
    using that by (auto simp: list_cache_def butlast_conv_take dest!: map_of_take)
qed (auto simp: list_cache_def map_of_other split: if_splits)

subsection \<open>The store keeps to its contract\<close>

definition db_stored :: "('h, 'e, 'hc, 'mc) db_env \<Rightarrow> 'h \<Rightarrow> 'h header option" where
  "db_stored env h = (case env_read_header env (By_Hash h) of Inr header \<Rightarrow> header | Inl _ \<Rightarrow> None)"

abbreviation db_blocks :: "('h, 'e, 'hc, 'mc) db_env \<Rightarrow> 'h \<Rightarrow> 'h set" where
  "db_blocks env g \<equiv> known_blocks (env_header_hash env) (db_stored env) g"

text \<open>The caches hold what the database holds.\<close>

definition db_inv ::
  "('h, 'e, 'hc, 'mc) db_env \<Rightarrow> ('hc \<Rightarrow> 'h \<Rightarrow> 'h header option option) \<Rightarrow> ('mc \<Rightarrow> 'h \<Rightarrow> 'h cached_header_metadata option)
     \<Rightarrow> 'h \<Rightarrow> ('h, 'hc, 'mc) blockchain_db \<Rightarrow> bool" where
  "db_inv env hcontent mcontent g s \<longleftrightarrow>
     (\<forall>h header. hcontent (db_header_cache s) h = Some header \<longrightarrow> env_read_header env (By_Hash h) = Inr header) \<and>
     (\<forall>h \<in> db_blocks env g. \<forall>m. mcontent (db_header_metadata_cache s) h = Some m \<longrightarrow>
        meta_ok (db_blocks env g) (stored_num (db_stored env)) (stored_par (db_stored env)) h m)"

locale db_caches = headers: cache "env_headers env" hcontent + metadata: cache "env_metadata env" mcontent
  for env :: "('h, 'e, 'hc, 'mc) db_env" and hcontent :: "'hc \<Rightarrow> 'h \<Rightarrow> 'h header option option"
    and mcontent :: "'mc \<Rightarrow> 'h \<Rightarrow> 'h cached_header_metadata option" +
  fixes g :: 'h
begin

abbreviation inv :: "('h, 'hc, 'mc) blockchain_db \<Rightarrow> bool" where
  "inv \<equiv> db_inv env hcontent mcontent g"

lemma db_header_ok:
  assumes "inv s" "env_read_header env (By_Hash h) = Inr header"
  shows "\<exists>s'. db_header env h s = (Inr header, s') \<and> inv s' \<and> db_header_metadata_cache s' = db_header_metadata_cache s"
proof -
  obtain r c where rc: "c_get (env_headers env) h (db_header_cache s) = (r, c)" by fastforce
  have r: "hcontent (db_header_cache s) h = r" "hcontent c = hcontent (db_header_cache s)"
    using headers.get_content [of h "db_header_cache s"] headers.get_keeps [of h "db_header_cache s"] by (simp_all add: rc)
  show ?thesis
  proof (cases r)
    case None
    have "env_read_header env (By_Hash x) = Inr y" if "hcontent (cache_header (env_headers env) h header c) x = Some y" for x y
      using headers.cache_header_content [OF that] assms r by (auto simp: db_inv_def)
    then show ?thesis using None rc assms by (auto simp: db_header_def db_inv_def)
  next
    case (Some x)
    then have "x = header" using assms r(1) by (auto simp: db_inv_def)
    then show ?thesis using Some rc assms r(2) by (simp add: db_header_def db_inv_def)
  qed
qed

lemma insert_metadata_ok:
  assumes "inv s" "meta_ok (db_blocks env g) (stored_num (db_stored env)) (stored_par (db_stored env)) h m"
  shows "inv (s\<lparr>db_header_metadata_cache := c_insert (env_metadata env) h m (db_header_metadata_cache s)\<rparr>)"
  using assms metadata.insert_content [of h m "db_header_metadata_cache s"] by (fastforce simp: db_inv_def)

end

sublocale db_caches \<subseteq> store: header_store "db_blocks env g" "stored_num (db_stored env)" "stored_par (db_stored env)" g "db_ops env" inv
proof
  fix s h
  assume s: "inv s" and h: "h \<in> db_blocks env g"
  let ?ok = "meta_ok (db_blocks env g) (stored_num (db_stored env)) (stored_par (db_stored env)) h"
  obtain header where header: "db_stored env h = Some header" using known_linked [OF h] by (rule linked_header)
  then have read: "env_read_header env (By_Hash h) = Inr (Some header)" by (simp add: db_stored_def split: sum.splits)
  have ok: "?ok (cached_from (env_header_hash env) header)" using cached_from_ok [OF h header] .
  have hm: "hm_hash (cached_from (env_header_hash env) header) = h" using ok by (simp add: meta_ok_def)
  obtain r c where rc: "c_get (env_metadata env) h (db_header_metadata_cache s) = (r, c)" by fastforce
  have r: "mcontent (db_header_metadata_cache s) h = r" "mcontent c = mcontent (db_header_metadata_cache s)"
    using metadata.get_content [of h "db_header_metadata_cache s"] metadata.get_keeps [of h "db_header_metadata_cache s"] by (simp_all add: rc)
  have s1: "inv (s\<lparr>db_header_metadata_cache := c\<rparr>)" using s r(2) by (simp add: db_inv_def)
  show "\<exists>m s'. header_metadata (db_ops env) h s = (Inr m, s') \<and> ?ok m \<and> inv s'"
  proof (cases r)
    case (Some m)
    then have "?ok m" using s h r(1) by (auto simp: db_inv_def)
    then show ?thesis using Some rc s1 by (simp add: db_ops_def db_header_metadata_def)
  next
    case None
    obtain s2 where s2: "db_header env h (s\<lparr>db_header_metadata_cache := c\<rparr>) = (Inr (Some header), s2)" "inv s2"
      using db_header_ok [OF s1 read] by blast
    then show ?thesis
      using None rc ok hm insert_metadata_ok [OF s2(2) ok] by (simp add: db_ops_def db_header_metadata_def Let_def)
  qed
next
  fix s h m
  assume "inv s" "meta_ok (db_blocks env g) (stored_num (db_stored env)) (stored_par (db_stored env)) h m"
  then show "inv (insert_header_metadata (db_ops env) h m s)"
    using insert_metadata_ok by (simp add: db_ops_def db_insert_header_metadata_def)
qed

context db_caches
begin

lemma is_store: "header_store (db_blocks env g) (stored_num (db_stored env)) (stored_par (db_stored env)) g (db_ops env) inv"
  by (rule store.header_store_axioms)

end

text \<open>The store with list caches of the sizes the code asks for.\<close>

definition LRU_CACHE_SIZE :: nat where
  "LRU_CACHE_SIZE = 5000"

definition list_env :: "('h header \<Rightarrow> 'h) \<Rightarrow> ('h block_id \<Rightarrow> 'e + 'h header option)
    \<Rightarrow> ('h, 'e, ('h \<times> 'h header option) list, ('h \<times> 'h cached_header_metadata) list) db_env" where
  "list_env header_hash read = \<lparr>env_header_hash = header_hash, env_read_header = read,
     env_headers = list_cache (Suc CACHE_HEADERS), env_metadata = list_cache LRU_CACHE_SIZE\<rparr>"

interpretation list_db: db_caches "list_env header_hash read" map_of map_of g
  for header_hash :: "'h header \<Rightarrow> 'h" and read :: "'h block_id \<Rightarrow> 'e + 'h header option" and g :: 'h
  by (simp add: db_caches_def list_env_def list_cache.cache_axioms)

end
