(* ===== verification/In_Mem_Chain.thy ===== *)
theory In_Mem_Chain
  imports In_Mem_Backend Stored_Chain
begin

text \<open>
  The in-memory blockchain keeps to the contract of a header store, so routes in it are right; from that, when
  the index of the best chain stays right under an insertion, and when a reorganization leaves a hole in it.
\<close>

abbreviation headers_of :: "('h, 'x) blockchain_storage \<Rightarrow> 'h \<Rightarrow> 'h header option" where
  "headers_of s \<equiv> \<lambda>h. in_mem_header h s"

abbreviation in_mem_blocks :: "('h header \<Rightarrow> 'h) \<Rightarrow> ('h, 'x) blockchain_storage \<Rightarrow> 'h \<Rightarrow> 'h set" where
  "in_mem_blocks header_hash s g \<equiv> known_blocks header_hash (headers_of s) g"

abbreviation in_mem_num :: "('h, 'x) blockchain_storage \<Rightarrow> 'h \<Rightarrow> nat" where
  "in_mem_num s \<equiv> stored_num (headers_of s)"

abbreviation in_mem_at :: "('h, 'x) blockchain_storage \<Rightarrow> 'h \<Rightarrow> nat \<Rightarrow> 'h" where
  "in_mem_at s \<equiv> at_height (stored_num (headers_of s)) (stored_par (headers_of s))"

interpretation in_mem: header_store "in_mem_blocks header_hash s0 g" "in_mem_num s0" "stored_par (headers_of s0)" g
    "in_mem_ops header_hash" "\<lambda>s. s = s0"
  for header_hash :: "'h header \<Rightarrow> 'h" and s0 :: "('h, 'x) blockchain_storage" and g :: 'h
proof
  fix s :: "('h, 'x) blockchain_storage" and h
  assume s: "s = s0" and h: "h \<in> in_mem_blocks header_hash s0 g"
  obtain header where header: "in_mem_header h s0 = Some header" using known_linked [OF h] by (rule linked_header)
  show "\<exists>m s'. header_metadata (in_mem_ops header_hash) h s = (Inr m, s') \<and>
      meta_ok (in_mem_blocks header_hash s0 g) (in_mem_num s0) (stored_par (headers_of s0)) h m \<and> s' = s0"
    using cached_from_ok [OF h header] header s by (simp add: in_mem_ops_def)
qed (simp_all add: in_mem_ops_def)

subsection \<open>The index of the best chain\<close>

lemma fold_update_entries:
  "map_of (fold (\<lambda>e index. AList.update (hn_number e) (hn_hash e) index) (map (entry_at num par p) [Suc k..<Suc m]) index) n =
     (if k < n \<and> n \<le> m then Some (at_height num par p n) else map_of index n)"
proof (induction m)
  case (Suc m)
  then show ?case
    by (cases "k \<le> m") (auto simp: entry_at_def update_conv')
qed auto

lemma fold_delete_entries:
  "map_of (fold (\<lambda>e index. AList.delete (hn_number e) index) es index) n =
     (if n \<in> hn_number ` set es then None else map_of index n)"
  by (induction es arbitrary: index) (auto simp: delete_conv')

lemma reorganize_entries:
  fixes num :: "'h \<Rightarrow> nat" and par :: "'h \<Rightarrow> 'h" and index :: "(nat \<times> 'h) list"
  assumes "route = \<lparr>tr_route = map (entry_at num par a) (rev [Suc k..<Suc i]) @ [entry_at num par a k] @
      map (entry_at num par b) [Suc k..<Suc j], tr_pivot = i - k\<rparr>" "k \<le> i" "k \<le> j"
  shows "map_of (reorganize route index) n =
    (if k < n \<and> n \<le> k + (i - j) then None else if k < n \<and> n \<le> j then Some (at_height num par b n) else map_of index n)"
proof -
  have en: "enacted route = map (entry_at num par b) [Suc k..<Suc j]"
    using assms(2) by (simp add: assms(1) enacted_def del: upt_Suc)
  have re: "retracted route = map (entry_at num par a) (rev [Suc k..<Suc i])"
    by (simp add: assms(1) retracted_def del: upt_Suc)
  have "drop (length (enacted route)) (retracted route) = map (entry_at num par a) (rev (take (i - k - (j - k)) [Suc k..<Suc i]))"
    by (simp add: en re drop_map drop_rev del: upt_Suc)
  moreover have "take (i - k - (j - k)) [Suc k..<Suc i] = [Suc k..<Suc (k + (i - j))]"
    using assms(2,3) by (simp add: take_upt del: upt_Suc) 
  ultimately have removed: "hn_number ` set (drop (length (enacted route)) (retracted route)) = {Suc k..<Suc (k + (i - j))}"
    by (simp add: image_image entry_at_def del: upt_Suc)
  show ?thesis
    unfolding reorganize_def Let_def fold_delete_entries removed
    by (subst en, subst fold_update_entries) auto
qed

text \<open>The stored blocks are a tree, and the index, the best block and the leaves are those of the tree.\<close>

definition index_ok :: "('h header \<Rightarrow> 'h) \<Rightarrow> 'h \<Rightarrow> ('h, 'x) blockchain_storage \<Rightarrow> bool" where
  "index_ok header_hash g s \<longleftrightarrow> bs_best_hash s \<in> in_mem_blocks header_hash s g \<and>
     bs_best_number s = in_mem_num s (bs_best_hash s) \<and>
     (\<forall>n. in_mem_hash n s = (if n \<le> bs_best_number s then Some (in_mem_at s (bs_best_hash s) n) else None))"

definition leaves_ok :: "('h header \<Rightarrow> 'h) \<Rightarrow> ('h, 'x) blockchain_storage \<Rightarrow> bool" where
  "leaves_ok header_hash s \<longleftrightarrow> leaf_wf (bs_leaves s) \<and> (\<forall>n h. leaf_contains n h (bs_leaves s) \<longleftrightarrow>
     (\<exists>header. in_mem_header h s = Some header \<and> hdr_number header = n) \<and>
     (\<forall>c header. in_mem_header c s = Some header \<and> hdr_number header \<noteq> 0 \<longrightarrow> hdr_parent_hash header \<noteq> h))"

definition in_mem_ok :: "('h header \<Rightarrow> 'h) \<Rightarrow> 'h \<Rightarrow> ('h, 'x) blockchain_storage \<Rightarrow> bool" where
  "in_mem_ok header_hash g s \<longleftrightarrow> {h. in_mem_header h s \<noteq> None} = in_mem_blocks header_hash s g \<and>
     index_ok header_hash g s \<and> leaves_ok header_hash s"

text \<open>The index after a new head below a known parent.\<close>

lemma apply_head_index:
  assumes "index_ok header_hash g s" "hdr_parent_hash header \<in> in_mem_blocks header_hash s g"
    "hdr_number header = Suc (in_mem_num s (hdr_parent_hash header))"
    "fork_height (in_mem_num s) (stored_par (headers_of s)) (bs_best_hash s) (hdr_parent_hash header) k"
  shows "\<exists>index. apply_head header_hash header s = Some (Inr (), s\<lparr>bs_best_hash := header_hash header,
      bs_best_number := hdr_number header, bs_hashes := index\<rparr>) \<and>
    (\<forall>n. map_of index n =
      (if n = hdr_number header then Some (header_hash header)
       else if k < n \<and> n \<le> k + (bs_best_number s - in_mem_num s (hdr_parent_hash header)) then None
       else if n \<le> in_mem_num s (hdr_parent_hash header) then Some (in_mem_at s (hdr_parent_hash header) n)
       else map_of (bs_hashes s) n))"
proof -
  let ?p = "hdr_parent_hash header" and ?b = "bs_best_hash s"
  note b = assms(1) [unfolded index_ok_def in_mem_hash_def blockchain_id_def, simplified]
  have k: "k \<le> in_mem_num s ?b" "k \<le> in_mem_num s ?p" "in_mem_at s ?b k = in_mem_at s ?p k"
    using assms(4) by (simp_all add: fork_height_def)
  have shared: "in_mem_at s ?b n = in_mem_at s ?p n" if "n \<le> k" for n
    using stored.up_up [of ?b header_hash "headers_of s" g k n] stored.up_up [of ?p header_hash "headers_of s" g k n]
      b assms(2) k that by simp
  show ?thesis
  proof (cases "?b = ?p")
    case True
    then have "k = in_mem_num s ?p" using fork_height_unique [OF assms(4), of "in_mem_num s ?p"] by (simp add: fork_height_def)
    then show ?thesis using True b assms(3) by (auto simp: apply_head_def Let_def update_conv')
  next
    case False
    let ?route = "\<lparr>tr_route = map (entry_at (in_mem_num s) (stored_par (headers_of s)) ?b) (rev [Suc k..<Suc (in_mem_num s ?b)]) @
        [entry_at (in_mem_num s) (stored_par (headers_of s)) ?b k] @
        map (entry_at (in_mem_num s) (stored_par (headers_of s)) ?p) [Suc k..<Suc (in_mem_num s ?p)],
      tr_pivot = in_mem_num s ?b - k\<rparr>"
    have route: "tree_route (in_mem_ops header_hash) ?b ?p s = Some (Inr ?route, s)"
      using in_mem.tree_route_ok [of s s ?b header_hash g ?p k] b assms(2,4) by blast
    have "map_of (reorganize ?route (bs_hashes s)) n =
        (if k < n \<and> n \<le> k + (in_mem_num s ?b - in_mem_num s ?p) then None
         else if k < n \<and> n \<le> in_mem_num s ?p then Some (in_mem_at s ?p n) else map_of (bs_hashes s) n)" for n
      by (rule reorganize_entries [OF refl k(1,2)])
    then show ?thesis
      using False route b shared k by (auto simp: apply_head_def Let_def update_conv' simp del: upt_Suc)
  qed
qed

subsection \<open>Inserting a block\<close>

definition insert_data where
  "insert_data h header justifications body new_state register_as_leaf s =
     (let number = hdr_number header;
          s = (if register_as_leaf
               then s\<lparr>bs_leaves := snd (leaf_set_import h number (hdr_parent_hash header) (bs_leaves s))\<rparr> else s);
          s = s\<lparr>bs_blocks := AList.update h (stored_new header body justifications) (bs_blocks s)\<rparr>;
          s = (if new_state = Final then s\<lparr>bs_finalized_hash := h, bs_finalized_number := number\<rparr> else s)
      in if number = 0 then s\<lparr>bs_genesis_hash := h\<rparr> else s)"

lemma in_mem_insert_eq:
  "in_mem_insert header_hash h header js body st leaf s =
     sbind (if is_best st then apply_head header_hash header s else Some (Inr (), s))
       (\<lambda>_ s. Some (Inr (), insert_data h header js body st leaf s))"
  by (simp add: in_mem_insert_def insert_data_def Let_def)

lemma stored_header_new [simp]: "stored_header (stored_new header body js) = header"
  by (simp add: stored_new_def split: option.split)

lemma insert_data_simps:
  "headers_of (insert_data h header js body st leaf s) = (headers_of s)(h \<mapsto> header)"
  "bs_best_hash (insert_data h header js body st leaf s) = bs_best_hash s"
  "bs_best_number (insert_data h header js body st leaf s) = bs_best_number s"
  "bs_hashes (insert_data h header js body st leaf s) = bs_hashes s"
  "bs_leaves (insert_data h header js body st True s) = snd (leaf_set_import h (hdr_number header) (hdr_parent_hash header) (bs_leaves s))"
  by (auto simp: insert_data_def Let_def in_mem_header_def update_conv' fun_eq_iff)

lemma leaves_insert:
  assumes "leaves_ok header_hash s" "in_mem_header h s = None" "hdr_number header = Suc n"
    "\<exists>hd. in_mem_header (hdr_parent_hash header) s = Some hd \<and> hdr_number hd = n"
    "\<forall>c hd. in_mem_header c s = Some hd \<longrightarrow> hdr_parent_hash hd \<noteq> h"
    "headers_of s' = (headers_of s)(h \<mapsto> header)"
    "bs_leaves s' = snd (leaf_set_import h (Suc n) (hdr_parent_hash header) (bs_leaves s))"
  shows "leaves_ok header_hash s'"
proof -
  let ?p = "hdr_parent_hash header"
  have w: "leaf_wf (bs_leaves s)" using assms(1) by (simp add: leaves_ok_def)
  have l: "leaf_contains m x (bs_leaves s) \<longleftrightarrow> (\<exists>hd. in_mem_header x s = Some hd \<and> hdr_number hd = m) \<and>
      (\<forall>c hd. in_mem_header c s = Some hd \<and> hdr_number hd \<noteq> 0 \<longrightarrow> hdr_parent_hash hd \<noteq> x)" for m x
    using assms(1) by (simp add: leaves_ok_def)
  have nl: "\<not> leaf_contains m h (bs_leaves s)" for m using assms(2) by (simp add: l)
  have hd: "in_mem_header x s' = (if x = h then Some header else in_mem_header x s)" for x
    using assms(6) by (metis fun_upd_apply)
  have ph: "?p \<noteq> h" using assms(2,4) by auto
  have kids: "(\<forall>c hd. in_mem_header c s' = Some hd \<and> hdr_number hd \<noteq> 0 \<longrightarrow> hdr_parent_hash hd \<noteq> x) \<longleftrightarrow>
      (\<forall>c hd. in_mem_header c s = Some hd \<and> hdr_number hd \<noteq> 0 \<longrightarrow> hdr_parent_hash hd \<noteq> x) \<and> ?p \<noteq> x" (is "?l \<longleftrightarrow> ?r \<and> _") for x
  proof
    assume l: ?l
    then have "in_mem_header h s' = Some header \<and> hdr_number header \<noteq> 0 \<longrightarrow> ?p \<noteq> x" by blast
    moreover have ?r
    proof (intro allI impI)
      fix c hd assume c: "in_mem_header c s = Some hd \<and> hdr_number hd \<noteq> 0"
      then have "c \<noteq> h" using assms(2) by auto
      then have "in_mem_header c s' = Some hd" using c by (simp add: hd)
      then show "hdr_parent_hash hd \<noteq> x" using l c by blast
    qed
    ultimately show "?r \<and> ?p \<noteq> x" using assms(3) by (simp add: hd)
  qed (auto simp: hd)
  have "leaf_contains m x (bs_leaves s') \<longleftrightarrow> m = Suc n \<and> x = h \<or> leaf_contains m x (bs_leaves s) \<and> \<not> (m = n \<and> x = ?p)" for m x
    using import_contains [OF w, of m x h "Suc n" ?p] by (simp add: assms(7))
  moreover have "(m = Suc n \<and> x = h \<or> leaf_contains m x (bs_leaves s) \<and> \<not> (m = n \<and> x = ?p)) \<longleftrightarrow>
      (\<exists>hd. in_mem_header x s' = Some hd \<and> hdr_number hd = m) \<and>
      (\<forall>c hd. in_mem_header c s' = Some hd \<and> hdr_number hd \<noteq> 0 \<longrightarrow> hdr_parent_hash hd \<noteq> x)" for m x
  proof (cases "x = h")
    case True
    then show ?thesis using nl assms(3,5) ph unfolding kids by (auto simp: hd)
  next
    case False
    then show ?thesis using assms(3,4) ph unfolding kids l by (auto simp: hd)
  qed
  moreover have "leaf_wf (bs_leaves s')" using import_wf [OF w nl] by (simp add: assms(7))
  ultimately show ?thesis by (simp add: leaves_ok_def)
qed

lemma in_mem_insert_ok:
  assumes "in_mem_ok header_hash g s" "extends header_hash (headers_of s) g h header"
    "is_best st \<Longrightarrow> bs_best_number s \<le> in_mem_num s (hdr_parent_hash header) \<or>
      in_mem_at s (bs_best_hash s) (in_mem_num s (hdr_parent_hash header)) = hdr_parent_hash header"
  shows "\<exists>s'. in_mem_insert header_hash h header js body st True s = Some (Inr (), s') \<and> in_mem_ok header_hash g s' \<and>
    headers_of s' = (headers_of s)(h \<mapsto> header) \<and> bs_best_hash s' = (if is_best st then h else bs_best_hash s)"
proof -
  let ?p = "hdr_parent_hash header" and ?b = "bs_best_hash s"
  note e = assms(2) [unfolded extends_def]
  have ok: "{h. in_mem_header h s \<noteq> None} = in_mem_blocks header_hash s g" "index_ok header_hash g s" "leaves_ok header_hash s"
    using assms(1) by (simp_all add: in_mem_ok_def)
  have bb: "?b \<in> in_mem_blocks header_hash s g" "bs_best_number s = in_mem_num s ?b"
      "in_mem_hash n s = (if n \<le> bs_best_number s then Some (in_mem_at s ?b n) else None)" for n
    using ok(2) by (simp_all add: index_ok_def)
  have parent: "\<exists>hd. in_mem_header ?p s = Some hd \<and> hdr_number hd = in_mem_num s ?p"
    using e linked_subset [OF known_linked, of ?p header_hash "headers_of s" g] by (auto simp: stored_num_def)
  have rest: "in_mem_ok header_hash g (insert_data h header js body st True s1)"
    if s1: "headers_of s1 = headers_of s" "bs_leaves s1 = bs_leaves s"
      and idx: "bs_best_hash s1 = (if is_best st then h else ?b)" "bs_best_number s1 = (if is_best st then hdr_number header else bs_best_number s)"
        "\<And>n. map_of (bs_hashes s1) n = (if is_best st then if n = hdr_number header then Some h
            else if n \<le> in_mem_num s ?p then Some (in_mem_at s ?p n) else None else in_mem_hash n s)" for s1
  proof -
    let ?s' = "insert_data h header js body st True s1"
    have H: "headers_of ?s' = (headers_of s)(h \<mapsto> header)" by (simp add: insert_data_simps s1)
    have blocks: "in_mem_blocks header_hash ?s' g = insert h (in_mem_blocks header_hash s g)"
      unfolding H by (rule known_blocks_upd [OF assms(2)])
    have "in_mem_header x ?s' = (if x = h then Some header else in_mem_header x s)" for x
      using H by (metis fun_upd_apply)
    then have dom: "{h. in_mem_header h ?s' \<noteq> None} = insert h {h. in_mem_header h s \<noteq> None}" by auto
    have hash: "in_mem_hash n ?s' = map_of (bs_hashes s1) n" for n
      by (simp add: in_mem_hash_def blockchain_id_def insert_data_simps)
    have nh: "?b \<noteq> h" using e linked_subset [OF known_linked [OF bb(1)]] by auto
    have "index_ok header_hash g ?s'"
    proof (cases "is_best st")
      case True
      have "in_mem_at ?s' h n = (if n = hdr_number header then h else in_mem_at s ?p n)" if "n \<le> hdr_number header" for n
        unfolding H using that e at_height_new [OF assms(2), of n]
          at_height_self [of "stored_num ((headers_of s)(h \<mapsto> header))" "stored_par ((headers_of s)(h \<mapsto> header))" h]
        by (auto simp: stored_upd_other le_Suc_eq simp del: fun_upd_apply)
      moreover have "in_mem_num ?s' h = hdr_number header" unfolding H by (rule stored_upd_other)
      ultimately show ?thesis using True idx e by (auto simp: index_ok_def blocks hash insert_data_simps(2-4))
    next
      case False
      have "in_mem_at ?s' ?b n = in_mem_at s ?b n" if "n \<le> bs_best_number s" for n
        unfolding H using at_height_upd [OF assms(2) bb(1)] that bb(2) by simp
      moreover have "in_mem_num ?s' ?b = in_mem_num s ?b" unfolding H using nh by (rule stored_upd_other)
      ultimately show ?thesis using False idx bb by (auto simp: index_ok_def blocks hash insert_data_simps(2-4))
    qed
    moreover have "leaves_ok header_hash ?s'"
      using e parent s1 by (intro leaves_insert [OF ok(3) _ _ parent _ H]) (simp_all add: insert_data_simps)
    ultimately show ?thesis using ok(1) dom blocks by (simp add: in_mem_ok_def)
  qed
  show ?thesis
  proof (cases "is_best st")
    case False
    then show ?thesis
      using rest [of s] by (auto simp: in_mem_insert_eq insert_data_simps in_mem_hash_def blockchain_id_def)
  next
    case True
    obtain k where k: "fork_height (in_mem_num s) (stored_par (headers_of s)) ?b ?p k"
      using stored.fork_height_ex [OF bb(1)] e by metis
    obtain index where index: "apply_head header_hash header s = Some (Inr (), s\<lparr>bs_best_hash := header_hash header,
        bs_best_number := hdr_number header, bs_hashes := index\<rparr>)" "\<forall>n. map_of index n =
        (if n = hdr_number header then Some (header_hash header)
         else if k < n \<and> n \<le> k + (bs_best_number s - in_mem_num s ?p) then None
         else if n \<le> in_mem_num s ?p then Some (in_mem_at s ?p n) else map_of (bs_hashes s) n)"
      using apply_head_index [OF ok(2) _ _ k] e by blast
    have keq: "k = in_mem_num s ?p" if "\<not> bs_best_number s \<le> in_mem_num s ?p"
    proof -
      have "in_mem_at s ?b (in_mem_num s ?p) = ?p" using assms(3) [OF True] that by blast
      then have "fork_height (in_mem_num s) (stored_par (headers_of s)) ?b ?p (in_mem_num s ?p)"
        using that bb(2) by (simp add: fork_height_def)
      then show ?thesis using fork_height_unique [OF k] by blast
    qed
    have "map_of index n = (if n = hdr_number header then Some h
        else if n \<le> in_mem_num s ?p then Some (in_mem_at s ?p n) else None)" for n
    proof (cases "bs_best_number s \<le> in_mem_num s ?p")
      case True
      then show ?thesis using index(2) e bb(3) [of n] by (simp add: in_mem_hash_def blockchain_id_def)
    next
      case False
      then show ?thesis using index(2) e bb(3) [of n] keq by (simp add: in_mem_hash_def blockchain_id_def)
    qed
    note index_eq = this
    define s1 where "s1 = s\<lparr>bs_best_hash := header_hash header, bs_best_number := hdr_number header, bs_hashes := index\<rparr>"
    have H1: "headers_of s1 = headers_of s" by (simp add: s1_def in_mem_header_def)
    have "in_mem_ok header_hash g (insert_data h header js body st True s1)"
      using True e index_eq by (intro rest H1) (simp_all add: s1_def)
    moreover have "in_mem_insert header_hash h header js body st True s = Some (Inr (), insert_data h header js body st True s1)"
      using True index(1) by (simp add: in_mem_insert_eq s1_def)
    moreover have "headers_of (insert_data h header js body st True s1) = (headers_of s)(h \<mapsto> header)"
      by (simp only: insert_data_simps(1) H1)
    moreover have "bs_best_hash (insert_data h header js body st True s1) = h"
      using e by (simp add: insert_data_simps(2) s1_def)
    ultimately show ?thesis using True by auto
  qed
qed

text \<open>
  A head that is not above the best block and not below an ancestor of it: the removal of retracted numbers
  starts at the wrong end, and the first block of the new branch is lost from the index.
\<close>

lemma reorganize_hole:
  assumes "index_ok header_hash g s" "hdr_parent_hash header \<in> in_mem_blocks header_hash s g"
    "hdr_number header = Suc (in_mem_num s (hdr_parent_hash header))"
    "fork_height (in_mem_num s) (stored_par (headers_of s)) (bs_best_hash s) (hdr_parent_hash header) k"
    "k < in_mem_num s (hdr_parent_hash header)" "in_mem_num s (hdr_parent_hash header) < bs_best_number s"
  shows "\<exists>s'. apply_head header_hash header s = Some (Inr (), s') \<and> bs_best_hash s' = header_hash header \<and>
    in_mem_hash (Suc k) s' = None"
  using apply_head_index [OF assms(1-4)] assms(3,5,6) by (auto simp: in_mem_hash_def blockchain_id_def)

lemma genesis_ok:
  assumes "header_hash header = g" "hdr_number header = 0" "hdr_parent_hash header = d" "g \<noteq> d" "is_best st"
  shows "\<exists>s'. in_mem_insert header_hash g header js body st True (blockchain_new d) = Some (Inr (), s') \<and>
    in_mem_ok header_hash g s' \<and> bs_best_hash s' = g"
proof -
  define s1 :: "('a, 'b) blockchain_storage" where
    "s1 = (blockchain_new d)\<lparr>bs_best_hash := g, bs_best_number := 0, bs_hashes := [(0, g)]\<rparr>"
  have s1: "bs_best_hash s1 = g" "bs_best_number s1 = 0" "bs_hashes s1 = [(0, g)]" "bs_leaves s1 = leaf_set_new"
    by (simp_all add: s1_def blockchain_new_def)
  let ?s = "insert_data g header js body st True s1"
  have insert: "in_mem_insert header_hash g header js body st True (blockchain_new d) = Some (Inr (), ?s)"
    using assms by (simp add: in_mem_insert_eq apply_head_def blockchain_new_def s1_def Let_def)
  have hd: "in_mem_header x ?s = (if x = g then Some header else None)" for x
    by (simp add: insert_data_def Let_def in_mem_header_def s1_def blockchain_new_def)
  then have H: "headers_of ?s = [g \<mapsto> header]" by auto
  have l: "x \<in> linked header_hash (headers_of ?s) g \<longleftrightarrow> x = g" for x
  proof
    show "x = g" if "x \<in> linked header_hash (headers_of ?s) g" using that by (rule linked_header) (simp add: hd split: if_splits)
    show "x \<in> linked header_hash (headers_of ?s) g" if "x = g"
      unfolding that by (rule linked.genesis [of _ _ header]) (use assms in \<open>simp_all add: hd\<close>)
  qed
  have "stored_par (headers_of ?s) g = d" using assms(3) by (simp add: stored_par_def hd)
  then have blocks: "in_mem_blocks header_hash ?s g = {g}" using l assms(4) by (auto simp: known_blocks_def)
  have num: "in_mem_num ?s g = 0" using assms(2) by (simp add: stored_num_def hd)
  have "index_ok header_hash g ?s"
    using num at_height_self [of "in_mem_num ?s" "stored_par (headers_of ?s)" g]
    by (simp add: index_ok_def blocks insert_data_simps(2-4) in_mem_hash_def blockchain_id_def s1)
  moreover have "leaf_contains n x (bs_leaves ?s) \<longleftrightarrow> n = 0 \<and> x = g" for n x
    using import_contains [OF leaf_wf_new, of n x g 0 d] assms(2,3)
    by (simp add: insert_data_simps(5) s1) (simp add: leaf_contains_def leaf_set_new_def)
  moreover have "leaf_wf (bs_leaves ?s)"
    using import_wf [OF leaf_wf_new, of 0 g d] assms(2,3)
    by (simp add: insert_data_simps(5) s1) (simp add: leaf_contains_def leaf_set_new_def)
  ultimately have "index_ok header_hash g ?s" "leaves_ok header_hash ?s"
    using assms(2) by (auto simp: leaves_ok_def hd)
  moreover have "{h. in_mem_header h ?s \<noteq> None} = {g}" by (auto simp: hd)
  ultimately have "in_mem_ok header_hash g ?s" by (simp only: in_mem_ok_def blocks simp_thms)
  then show ?thesis using insert by (auto simp: insert_data_simps(2) s1)
qed

text \<open>The index and the leaves are not touched by what else a commit does.\<close>

lemma write_aux_ok: "in_mem_ok header_hash g (write_aux ops s) = in_mem_ok header_hash g s"
  by (simp add: in_mem_ok_def index_ok_def leaves_ok_def write_aux_def in_mem_header_def in_mem_hash_def blockchain_id_def)

lemma into_inner_new [simp]: "into_inner (stored_new header body js) = (header, body, js)"
  by (simp add: stored_new_def split: option.split)

lemma commit_operation_ok:
  assumes "in_mem_ok header_hash g (be_blockchain b)" "extends header_hash (headers_of (be_blockchain b)) g h header"
    "is_best st \<Longrightarrow> bs_best_number (be_blockchain b) \<le> in_mem_num (be_blockchain b) (hdr_parent_hash header) \<or>
      in_mem_at (be_blockchain b) (bs_best_hash (be_blockchain b)) (in_mem_num (be_blockchain b) (hdr_parent_hash header)) = hdr_parent_hash header"
    "op_finalized_blocks operation = []" "op_set_head operation = None"
    "set_block_data header body js st True operation = Some operation'"
  shows "\<exists>b'. commit_operation so header_hash operation' b = Some (Inr (), b') \<and> in_mem_ok header_hash g (be_blockchain b') \<and>
    bs_best_hash (be_blockchain b') = (if is_best st then h else bs_best_hash (be_blockchain b)) \<and>
    in_mem_header h (be_blockchain b') = Some header \<and>
    (h \<noteq> d \<longrightarrow> state_at so d h b' = Inr (case op_new_state operation of None \<Rightarrow> op_old_state operation
      | Some tx \<Rightarrow> st_update_backend so (hdr_state_root header) tx (op_old_state operation)))"
proof -
  have hh: "header_hash header = h" using assms(2) by (simp add: extends_def)
  have op: "operation' = operation\<lparr>op_pending_block := Some \<lparr>pb_block = stored_new header body js, pb_state = st, pb_register_as_leaf = True\<rparr>\<rparr>"
    using assms(6) by (simp add: set_block_data_def split: if_splits)
  obtain s' where s': "in_mem_insert header_hash h header js body st True (be_blockchain b) = Some (Inr (), s')"
      "in_mem_ok header_hash g s'" "headers_of s' = (headers_of (be_blockchain b))(h \<mapsto> header)"
      "bs_best_hash s' = (if is_best st then h else bs_best_hash (be_blockchain b))"
    using in_mem_insert_ok [OF assms(1-3)] by blast
  have header: "in_mem_header h s' = Some header" using fun_cong [OF s'(3), of h] by simp
  define s'' where "s'' = (if op_aux operation \<noteq> [] then write_aux (op_aux operation) s' else s')"
  have "in_mem_ok header_hash g s''" using s'(2) by (simp add: s''_def write_aux_ok)
  moreover have "bs_best_hash s'' = bs_best_hash s'" "in_mem_header h s'' = Some header"
    using header by (simp_all add: s''_def write_aux_def in_mem_header_def)
  moreover have "commit_operation so header_hash operation' b = Some (Inr (), b\<lparr>be_states := AList.update h (case op_new_state operation of
      Some tx \<Rightarrow> st_update_backend so (hdr_state_root header) tx (op_old_state operation) | None \<Rightarrow> op_old_state operation) (be_states b),
      be_blockchain := s''\<rparr>)"
    using s'(1) assms(4,5) hh
    by (cases "op_new_state operation") (simp_all add: commit_operation_def on_blockchain_def op s''_def Let_def)
  ultimately show ?thesis using s'(4) by (auto simp: state_at_def update_conv' split: option.split)
qed

end
