(* ===== verification/Fork_Tree.thy ===== *)
theory Fork_Tree
  imports Prelude
begin

text \<open>
  \<open>ForkTree\<close> of \<open>utils/fork-tree/src/lib.rs\<close>: nodes on competing branches, with import, search for the deepest
  ancestor, pruning, finalization and filtering.  Loops over explicit stacks, queues and output
  arrays are kept as loops; a stack is kept newest first.  The function that establishes ancestry is an
  argument and may fail.  An operation returns its result next to the tree, since a failure in the
  middle leaves the tree changed.
\<close>

datatype ('h, 'n, 'v) node =
  Node (hash: 'h) (number: 'n) (data: 'v) (children: "('h, 'n, 'v) node list")

record ('h, 'n, 'v) fork_tree =
  roots :: "('h, 'n, 'v) node list"
  best_finalized_number :: "'n option"

datatype 'e fork_tree_error = Duplicate | UnfinalizedAncestor | Revert | Client 'e

datatype 'v finalization_result = Changed "'v option" | Unchanged

datatype filter_action = Remove | KeepNode | KeepTree

type_synonym ('h, 'e) ancestry = "'h \<Rightarrow> 'h \<Rightarrow> 'e + bool"

definition fork_tree_new :: "('h, 'n, 'v) fork_tree" where
  "fork_tree_new = \<lparr>roots = [], best_finalized_number = None\<rparr>"

text \<open>The number of nodes, for termination.\<close>

primrec node_size :: "('h, 'n, 'v) node \<Rightarrow> nat" where
  "node_size (Node h n v cs) = Suc (sum_list (map node_size cs))"

abbreviation nodes_size :: "('h, 'n, 'v) node list \<Rightarrow> nat" where
  "nodes_size ns \<equiv> sum_list (map node_size ns)"

lemma node_size_pos [simp]: "0 < node_size n"
  by (cases n) simp

lemma node_size_children: "node_size n = Suc (nodes_size (children n))"
  by (cases n) simp

lemma children_size_less [simp]: "nodes_size (children n) < node_size n"
  by (cases n) simp

lemma sum_list_rev_nat [simp]: "sum_list (map f (rev xs)) = sum_list (map f xs :: nat list)"
  by (induction xs) simp_all

subsection \<open>Iteration\<close>

function iter_loop :: "('h, 'n, 'v) node list \<Rightarrow> ('h, 'n, 'v) node list" where
  "iter_loop [] = []"
| "iter_loop (node # stack) = node # iter_loop (children node @ stack)"
  by pat_completeness auto
termination by (relation "measure nodes_size") simp_all

definition node_iter :: "('h, 'n, 'v) fork_tree \<Rightarrow> ('h, 'n, 'v) node list" where
  "node_iter t = iter_loop (roots t)"

definition fork_tree_iter :: "('h, 'n, 'v) fork_tree \<Rightarrow> ('h \<times> 'n \<times> 'v) list" where
  "fork_tree_iter t = map (\<lambda>n. (hash n, number n, data n)) (node_iter t)"

definition fork_tree_roots :: "('h, 'n, 'v) fork_tree \<Rightarrow> ('h \<times> 'n \<times> 'v) list" where
  "fork_tree_roots t = map (\<lambda>n. (hash n, number n, data n)) (roots t)"

text \<open>\<open>RemovedIterator\<close> takes the nodes from the end of the vector of removed ones.\<close>

definition removed_iter :: "('h, 'n, 'v) node list \<Rightarrow> ('h \<times> 'n \<times> 'v) list" where
  "removed_iter removed = map (\<lambda>n. (hash n, number n, data n)) (iter_loop (rev removed))"

subsection \<open>Rebalancing\<close>

function max_depth_loop :: "(('h, 'n, 'v) node \<times> nat) list \<Rightarrow> nat \<Rightarrow> nat" where
  "max_depth_loop [] mx = mx"
| "max_depth_loop ((node, height) # stack) mx =
     max_depth_loop (rev (map (\<lambda>n. (n, height + 1)) (children node)) @ stack) (if height > mx then height else mx)"
  by pat_completeness auto
termination
  by (relation "measure (\<lambda>(stack, _). nodes_size (map fst stack))")
    (simp_all add: rev_map [symmetric] comp_def)

definition max_depth :: "('h, 'n, 'v) node \<Rightarrow> nat" where
  "max_depth node = max_depth_loop [(node, 0)] 0"

text \<open>\<open>sort_by_key(|n| Reverse(n.max_depth()))\<close>, a stable sort.\<close>

definition sort_by_depth :: "('h, 'n, 'v) node list \<Rightarrow> ('h, 'n, 'v) node list" where
  "sort_by_depth = sort_key (\<lambda>n. - int (max_depth n))"

lemma set_sort_by_depth [simp]: "set (sort_by_depth ns) = set ns"
  by (simp add: sort_by_depth_def)

lemma node_size_member: "n \<in> set ns \<Longrightarrow> node_size n \<le> nodes_size ns"
  by (induction ns) auto

text \<open>Every node below has its children sorted; the order in which the nodes are visited does not matter.\<close>

function rebalance_node :: "('h, 'n, 'v) node \<Rightarrow> ('h, 'n, 'v) node" where
  "rebalance_node (Node h n v cs) = Node h n v (map rebalance_node (sort_by_depth cs))"
  by pat_completeness auto
termination by (relation "measure node_size") (auto simp: less_Suc_eq_le node_size_member)

definition rebalance :: "('h, 'n, 'v) fork_tree \<Rightarrow> ('h, 'n, 'v) fork_tree" where
  "rebalance t = t\<lparr>roots := map rebalance_node (sort_by_depth (roots t))\<rparr>"

subsection \<open>Searching\<close>

text \<open>
  The stack holds each node on the current path with the index of the next child to search.  Once an
  ancestor is met only the path up to the root is looked at.  The result says whether a node was
  found, whether an ancestor was met, and the stack left, from which the path is read.
\<close>

text \<open>The children from an index on, and what is left to do for a stack.\<close>

definition stack_work :: "(('h, 'n, 'v) node \<times> nat) list \<Rightarrow> nat" where
  "stack_work stack = sum_list (map (\<lambda>(node, i). Suc (2 * nodes_size (drop i (children node)))) stack)"

lemma stack_work_step:
  assumes "i < length (children node)"
  shows "stack_work ((children node ! i, 0) # (node, Suc i) # stack) < stack_work ((node, i) # stack)"
    "stack_work ((node, Suc i) # stack) < stack_work ((node, i) # stack)"
  using Cons_nth_drop_Suc [OF assms, symmetric]
  by (simp_all add: stack_work_def node_size_children)

function find_loop ::
  "('h, 'e) ancestry \<Rightarrow> ('v \<Rightarrow> bool) \<Rightarrow> 'h \<Rightarrow> 'n::linorder \<Rightarrow> bool \<Rightarrow> (('h, 'n, 'v) node \<times> nat) list
     \<Rightarrow> 'e fork_tree_error + bool \<times> bool \<times> (('h, 'n, 'v) node \<times> nat) list" where
  "find_loop desc P h n is_desc [] = Inr (False, is_desc, [])"
| "find_loop desc P h n is_desc ((node, i) # stack) =
     (if i < length (children node) \<and> \<not> is_desc then
        (if number (children node ! i) < n
         then find_loop desc P h n is_desc ((children node ! i, 0) # (node, Suc i) # stack)
         else find_loop desc P h n is_desc ((node, Suc i) # stack))
      else
        (case (if is_desc then Inr True else desc (hash node) h) of
           Inl err \<Rightarrow> Inl (Client err)
         | Inr False \<Rightarrow> find_loop desc P h n is_desc stack
         | Inr True \<Rightarrow> if P (data node) then Inr (True, True, stack) else find_loop desc P h n True stack))"
  by pat_completeness auto
termination
  by (relation "measure (\<lambda>(_, _, _, _, _, stack). stack_work stack)") (auto simp: stack_work_step, auto simp: stack_work_def)

fun find_roots ::
  "('h, 'e) ancestry \<Rightarrow> ('v \<Rightarrow> bool) \<Rightarrow> 'h \<Rightarrow> 'n::linorder \<Rightarrow> nat \<Rightarrow> ('h, 'n, 'v) node list
     \<Rightarrow> 'e fork_tree_error + nat list option" where
  "find_roots desc P h n root_idx [] = Inr None"
| "find_roots desc P h n root_idx (root # rs) =
     (if n \<le> number root then find_roots desc P h n (Suc root_idx) rs
      else rbind (find_loop desc P h n False [(root, 0)]) (\<lambda>(found, is_desc, stack).
        if found then Inr (Some (root_idx # rev (map (\<lambda>(_, i). i - 1) stack)))
        else if is_desc then Inr None
        else find_roots desc P h n (Suc root_idx) rs))"

definition find_node_index_where ::
  "('h, 'e) ancestry \<Rightarrow> ('v \<Rightarrow> bool) \<Rightarrow> 'h \<Rightarrow> 'n::linorder \<Rightarrow> ('h, 'n, 'v) fork_tree
     \<Rightarrow> 'e fork_tree_error + nat list option" where
  "find_node_index_where desc P h n t = find_roots desc P h n 0 (roots t)"

text \<open>The node at a path of indices from the roots.\<close>

fun node_at :: "nat list \<Rightarrow> ('h, 'n, 'v) node list \<Rightarrow> ('h, 'n, 'v) node option" where
  "node_at [] ns = None"
| "node_at [i] ns = (if i < length ns then Some (ns ! i) else None)"
| "node_at (i # j # path) ns = (if i < length ns then node_at (j # path) (children (ns ! i)) else None)"

definition find_node_where ::
  "('h, 'e) ancestry \<Rightarrow> ('v \<Rightarrow> bool) \<Rightarrow> 'h \<Rightarrow> 'n::linorder \<Rightarrow> ('h, 'n, 'v) fork_tree
     \<Rightarrow> 'e fork_tree_error + ('h, 'n, 'v) node option" where
  "find_node_where desc P h n t = rbind (find_node_index_where desc P h n t)
     (\<lambda>path. Inr (Option.bind path (\<lambda>p. node_at p (roots t))))"

subsection \<open>Importing\<close>

text \<open>An update of the children of the node at a path, the roots being the children at the empty path.\<close>

fun at_path ::
  "nat list \<Rightarrow> (('h, 'n, 'v) node list \<Rightarrow> ('h, 'n, 'v) node list) \<Rightarrow> ('h, 'n, 'v) node list \<Rightarrow> ('h, 'n, 'v) node list" where
  "at_path [] f ns = f ns"
| "at_path (i # path) f ns = (if i < length ns then ns[i := (case ns ! i of
     Node h n v cs \<Rightarrow> Node h n v (at_path path f cs))] else ns)"

fun children_at :: "nat list \<Rightarrow> ('h, 'n, 'v) node list \<Rightarrow> ('h, 'n, 'v) node list" where
  "children_at [] ns = ns"
| "children_at (i # path) ns = (if i < length ns then children_at path (children (ns ! i)) else [])"

definition reverts :: "'n::linorder \<Rightarrow> ('h, 'n, 'v) fork_tree \<Rightarrow> bool" where
  "reverts n t = (case best_finalized_number t of None \<Rightarrow> False | Some b \<Rightarrow> n \<le> b)"

definition fork_tree_import ::
  "('h, 'e) ancestry \<Rightarrow> 'h \<Rightarrow> 'n::linorder \<Rightarrow> 'v \<Rightarrow> ('h, 'n, 'v) fork_tree
     \<Rightarrow> ('e fork_tree_error + bool) \<times> ('h, 'n, 'v) fork_tree" where
  "fork_tree_import desc h n v t =
     (if reverts n t then (Inl Revert, t)
      else case find_node_index_where desc (\<lambda>_. True) h n t of
        Inl err \<Rightarrow> (Inl err, t)
      | Inr found \<Rightarrow>
          (let path = (case found of None \<Rightarrow> [] | Some p \<Rightarrow> p);
               siblings = children_at path (roots t)
           in if \<exists>elem \<in> set siblings. hash elem = h then (Inl Duplicate, t)
              else (let t' = t\<lparr>roots := at_path path (\<lambda>ns. ns @ [Node h n v []]) (roots t)\<rparr>
                    in (Inr (found = None), if siblings = [] then rebalance t' else t'))))"

subsection \<open>Mapping and filtering\<close>

text \<open>
  Breadth first over a queue of nodes with the index of their parent in the output, which is put
  together again from its end.  \<open>usize::MAX\<close>, the mark of a root, is \<open>None\<close>.
\<close>

type_synonym ('h, 'n, 'v) indexed = "nat option \<times> ('h, 'n, 'v) node"

fun map_level ::
  "('h \<Rightarrow> 'n \<Rightarrow> 'v \<Rightarrow> 'w) \<Rightarrow> ('h, 'n, 'v) indexed list \<Rightarrow> ('h, 'n, 'w) indexed list \<Rightarrow> ('h, 'n, 'v) indexed list
     \<Rightarrow> ('h, 'n, 'w) indexed list \<times> ('h, 'n, 'v) indexed list" where
  "map_level f [] out next_queue = (out, next_queue)"
| "map_level f ((parent, Node h n v cs) # queue) out next_queue =
     map_level f queue (out @ [(parent, Node h n (f h n v) [])])
       (next_queue @ map (Pair (Some (length out))) (rev cs))"

lemma map_level_size:
  "nodes_size (map snd (snd (map_level f queue out next_queue))) + length queue =
     nodes_size (map snd queue) + nodes_size (map snd next_queue)"
  by (induction f queue out next_queue rule: map_level.induct)
    (simp_all add: comp_def)

function map_loop ::
  "('h \<Rightarrow> 'n \<Rightarrow> 'v \<Rightarrow> 'w) \<Rightarrow> ('h, 'n, 'v) indexed list \<Rightarrow> ('h, 'n, 'w) indexed list \<Rightarrow> ('h, 'n, 'w) indexed list" where
  "map_loop f queue out = (if queue = [] then out
     else (let (out, next_queue) = map_level f queue out [] in map_loop f next_queue out))"
  by pat_completeness auto
termination
proof (relation "measure (\<lambda>(f, queue, out). nodes_size (map snd queue))")
  fix f :: "'h \<Rightarrow> 'n \<Rightarrow> 'v \<Rightarrow> 'w" and queue out x out' next_queue
  assume "queue \<noteq> []" "x = map_level f queue out []" "(out', next_queue) = x"
  then show "((f, next_queue, out'), (f, queue, out)) \<in> measure (\<lambda>(f, queue, out). nodes_size (map snd queue))"
    using map_level_size [of f queue out "[]"] by (cases queue) (auto simp: prod_eq_iff)
qed simp

text \<open>Taking the output from its end, each node is pushed to the children of its parent.\<close>

definition push_child :: "('h, 'n, 'v) node \<Rightarrow> ('h, 'n, 'v) node \<Rightarrow> ('h, 'n, 'v) node" where
  "push_child c p = (case p of Node h n v cs \<Rightarrow> Node h n v (cs @ [c]))"

function rebuild_loop :: "('h, 'n, 'v) indexed list \<Rightarrow> ('h, 'n, 'v) node list \<Rightarrow> ('h, 'n, 'v) node list" where
  "rebuild_loop out rs = (if out = [] then rs
     else (case last out of
       (None, node) \<Rightarrow> rebuild_loop (butlast out) (rs @ [node])
     | (Some p, node) \<Rightarrow> rebuild_loop ((butlast out)[p := (case butlast out ! p of (q, par) \<Rightarrow> (q, push_child node par))]) rs))"
  by pat_completeness auto
termination by (relation "measure (\<lambda>(out, rs). length out)") (auto intro!: diff_Suc_less)

definition fork_tree_map ::
  "('h \<Rightarrow> 'n \<Rightarrow> 'v \<Rightarrow> 'w) \<Rightarrow> ('h, 'n, 'v) fork_tree \<Rightarrow> ('h, 'n, 'w) fork_tree" where
  "fork_tree_map f t = \<lparr>roots = rebuild_loop (map_loop f (map (Pair None) (rev (roots t))) []) [],
     best_finalized_number = best_finalized_number t\<rparr>"

fun filter_level ::
  "('h \<Rightarrow> 'n \<Rightarrow> 'v \<Rightarrow> filter_action) \<Rightarrow> ('h, 'n, 'v) indexed list \<Rightarrow> ('h, 'n, 'v) indexed list \<Rightarrow> ('h, 'n, 'v) node list
     \<Rightarrow> ('h, 'n, 'v) indexed list
     \<Rightarrow> ('h, 'n, 'v) indexed list \<times> ('h, 'n, 'v) node list \<times> ('h, 'n, 'v) indexed list" where
  "filter_level f [] retained removed next_queue = (retained, removed, next_queue)"
| "filter_level f ((parent, Node h n v cs) # queue) retained removed next_queue = (case f h n v of
     KeepNode \<Rightarrow> filter_level f queue (retained @ [(parent, Node h n v [])]) removed
       (next_queue @ map (Pair (Some (length retained))) (rev cs))
   | KeepTree \<Rightarrow> filter_level f queue (retained @ [(parent, Node h n v cs)]) removed next_queue
   | Remove \<Rightarrow> filter_level f queue retained (removed @ [Node h n v cs]) next_queue)"

lemma filter_level_size:
  "nodes_size (map snd (snd (snd (filter_level f queue retained removed next_queue)))) + length queue
     \<le> nodes_size (map snd queue) + nodes_size (map snd next_queue)"
  by (induction f queue retained removed next_queue rule: filter_level.induct)
    (auto simp: comp_def split: filter_action.split)

function filter_loop ::
  "('h \<Rightarrow> 'n \<Rightarrow> 'v \<Rightarrow> filter_action) \<Rightarrow> ('h, 'n, 'v) indexed list \<Rightarrow> ('h, 'n, 'v) indexed list \<Rightarrow> ('h, 'n, 'v) node list
     \<Rightarrow> ('h, 'n, 'v) indexed list \<times> ('h, 'n, 'v) node list" where
  "filter_loop f queue retained removed = (if queue = [] then (retained, removed)
     else (let (retained, removed, next_queue) = filter_level f queue retained removed []
           in filter_loop f next_queue retained removed))"
  by pat_completeness auto
termination
proof (relation "measure (\<lambda>(f, queue, retained, removed). nodes_size (map snd queue))")
  fix f :: "'h \<Rightarrow> 'n \<Rightarrow> 'v \<Rightarrow> filter_action" and queue retained removed x retained' y removed' next_queue
  assume "queue \<noteq> []" "x = filter_level f queue retained removed []" "(retained', y) = x" "(removed', next_queue) = y"
  then show "((f, next_queue, retained', removed'), (f, queue, retained, removed))
      \<in> measure (\<lambda>(f, queue, retained, removed). nodes_size (map snd queue))"
    using filter_level_size [of f queue retained removed "[]"] by (cases queue) (auto simp: prod_eq_iff)
qed simp

definition drain_filter ::
  "('h \<Rightarrow> 'n \<Rightarrow> 'v \<Rightarrow> filter_action) \<Rightarrow> ('h, 'n, 'v) fork_tree \<Rightarrow> ('h \<times> 'n \<times> 'v) list \<times> ('h, 'n, 'v) fork_tree" where
  "drain_filter f t =
     (let (retained, removed) = filter_loop f (map (Pair None) (rev (roots t))) [] [];
          t' = t\<lparr>roots := rebuild_loop retained []\<rparr>
      in (removed_iter removed, if removed \<noteq> [] then rebalance t' else t'))"

subsection \<open>Pruning\<close>

text \<open>\<open>Vec::remove\<close> at the end of a path: what is left of the trees, and the node.\<close>

definition remove_at :: "nat \<Rightarrow> 'a list \<Rightarrow> 'a list" where
  "remove_at i xs = take i xs @ drop (Suc i) xs"

text \<open>The first child that is an ancestor of the target.\<close>

fun ancestor_child ::
  "('h, 'e) ancestry \<Rightarrow> 'h \<Rightarrow> 'n::linorder \<Rightarrow> nat \<Rightarrow> ('h, 'n, 'v) node list \<Rightarrow> 'e + nat option" where
  "ancestor_child desc h n i [] = Inr None"
| "ancestor_child desc h n i (c # cs) =
     (if number c < n then rbind (desc (hash c) h) (\<lambda>b. if b then Inr (Some i) else ancestor_child desc h n (Suc i) cs)
      else ancestor_child desc h n (Suc i) cs)"

lemma ancestor_child_less: "ancestor_child desc h n i cs = Inr (Some j) \<Longrightarrow> i \<le> j \<and> j < i + length cs"
  by (induction desc h n i cs rule: ancestor_child.induct) (fastforce simp: rbind_Inr_iff split: if_splits)+

text \<open>
  The children of the last ancestor: the target itself and what descends from it is kept.  A failure
  keeps the children handled so far.
\<close>

fun keep_descendants ::
  "('h, 'e) ancestry \<Rightarrow> 'h \<Rightarrow> 'n::linorder \<Rightarrow> ('h, 'n, 'v) node list \<Rightarrow> ('h, 'n, 'v) node list \<Rightarrow> ('h, 'n, 'v) node list
     \<Rightarrow> ('e + ('h, 'n, 'v) node list) \<times> ('h, 'n, 'v) node list" where
  "keep_descendants desc h n [] kept removed = (Inr removed, kept)"
| "keep_descendants desc h n (c # cs) kept removed =
     (case (if number c = n \<and> hash c = h then Inr True else if n < number c then desc h (hash c) else Inr False) of
        Inl err \<Rightarrow> (Inl err, kept)
      | Inr True \<Rightarrow> keep_descendants desc h n cs (kept @ [c]) removed
      | Inr False \<Rightarrow> keep_descendants desc h n cs kept (removed @ [c]))"

function prune_below ::
  "('h, 'e) ancestry \<Rightarrow> 'h \<Rightarrow> 'n::linorder \<Rightarrow> ('h, 'n, 'v) node \<Rightarrow> ('h, 'n, 'v) node list
     \<Rightarrow> ('e + ('h, 'n, 'v) node list) \<times> ('h, 'n, 'v) node" where
  "prune_below desc h n (Node ch cn cv cs) removed = (case ancestor_child desc h n 0 cs of
     Inl err \<Rightarrow> (Inl err, Node ch cn cv cs)
   | Inr (Some i) \<Rightarrow>
       (let (r, next_node) = prune_below desc h n (cs ! i) (removed @ remove_at i cs) in (r, Node ch cn cv [next_node]))
   | Inr None \<Rightarrow>
       (let (r, kept) = keep_descendants desc h n cs [] removed in (r, Node ch cn cv kept)))"
  by pat_completeness auto
termination
  by (relation "measure (\<lambda>(_, _, _, node, _). node_size node)")
    (auto simp: less_Suc_eq_le dest!: ancestor_child_less intro: node_size_member nth_mem)

definition prune ::
  "('h, 'e) ancestry \<Rightarrow> ('v \<Rightarrow> bool) \<Rightarrow> 'h \<Rightarrow> 'n::linorder \<Rightarrow> ('h, 'n, 'v) fork_tree
     \<Rightarrow> ('e fork_tree_error + ('h \<times> 'n \<times> 'v) list) \<times> ('h, 'n, 'v) fork_tree" where
  "prune desc P h n t = (case find_node_index_where desc P h n t of
     Inl err \<Rightarrow> (Inl err, t)
   | Inr None \<Rightarrow> (Inr [], t)
   | Inr (Some path) \<Rightarrow>
       (case node_at path (roots t) of
          None \<Rightarrow> (Inr [], t)
        | Some root \<Rightarrow>
            (let removed = at_path (butlast path) (remove_at (last path)) (roots t);
                 (r, root) = prune_below desc h n root removed;
                 t' = t\<lparr>roots := [root]\<rparr>
             in case r of Inl err \<Rightarrow> (Inl (Client err), t')
                | Inr removed \<Rightarrow> (Inr (removed_iter removed), rebalance t'))))"

subsection \<open>Finalizing\<close>

definition finalize_root_at :: "nat \<Rightarrow> ('h, 'n, 'v) fork_tree \<Rightarrow> 'v \<times> ('h, 'n, 'v) fork_tree" where
  "finalize_root_at position t = (let node = roots t ! position in
     (data node, t\<lparr>roots := children node, best_finalized_number := Some (number node)\<rparr>))"

fun position_of :: "('a \<Rightarrow> bool) \<Rightarrow> 'a list \<Rightarrow> nat option" where
  "position_of P [] = None"
| "position_of P (x # xs) = (if P x then Some 0 else map_option Suc (position_of P xs))"

definition finalize_root :: "'h \<Rightarrow> ('h, 'n, 'v) fork_tree \<Rightarrow> 'v option \<times> ('h, 'n, 'v) fork_tree" where
  "finalize_root h t = (case position_of (\<lambda>node. hash node = h) (roots t) of
     None \<Rightarrow> (None, t)
   | Some i \<Rightarrow> (let (v, t) = finalize_root_at i t in (Some v, t)))"

text \<open>Is the finalized node a descendent of a root.\<close>

fun below_root :: "('h, 'e) ancestry \<Rightarrow> 'h \<Rightarrow> 'n::linorder \<Rightarrow> ('h, 'n, 'v) node list \<Rightarrow> 'e + bool" where
  "below_root desc h n [] = Inr False"
| "below_root desc h n (root # rs) =
     (if number root < n then rbind (desc (hash root) h) (\<lambda>b. if b then Inr True else below_root desc h n rs)
      else below_root desc h n rs)"

text \<open>A loop that keeps some roots; a failure keeps the ones handled so far.\<close>

fun retain_roots ::
  "(('h, 'n, 'v) node \<Rightarrow> 'e + bool) \<Rightarrow> ('h, 'n, 'v) node list \<Rightarrow> ('h, 'n, 'v) node list \<Rightarrow> bool
     \<Rightarrow> ('e + bool) \<times> ('h, 'n, 'v) node list" where
  "retain_roots retain [] kept changed = (Inr changed, kept)"
| "retain_roots retain (root # rs) kept changed = (case retain root of
     Inl err \<Rightarrow> (Inl err, kept)
   | Inr True \<Rightarrow> retain_roots retain rs (kept @ [root]) changed
   | Inr False \<Rightarrow> retain_roots retain rs kept True)"

definition finalize ::
  "('h, 'e) ancestry \<Rightarrow> 'h \<Rightarrow> 'n::linorder \<Rightarrow> ('h, 'n, 'v) fork_tree
     \<Rightarrow> ('e fork_tree_error + 'v finalization_result) \<times> ('h, 'n, 'v) fork_tree" where
  "finalize desc h n t =
     (if reverts n t then (Inl Revert, t)
      else case finalize_root h t of
        (Some root, t) \<Rightarrow> (Inr (Changed (Some root)), t)
      | (None, t) \<Rightarrow> (case below_root desc h n (roots t) of
          Inl err \<Rightarrow> (Inl (Client err), t)
        | Inr True \<Rightarrow> (Inl UnfinalizedAncestor, t)
        | Inr False \<Rightarrow>
            (let (r, kept) = retain_roots (\<lambda>root. if n < number root then desc h (hash root) else Inr False) (roots t) [] False;
                 t = t\<lparr>roots := kept\<rparr>
             in case r of Inl err \<Rightarrow> (Inl (Client err), t)
                | Inr changed \<Rightarrow> (Inr (if changed then Changed None else Unchanged), t\<lparr>best_finalized_number := Some n\<rparr>))))"

text \<open>\<open>Vec::swap_remove\<close>.\<close>

definition swap_remove :: "nat \<Rightarrow> 'a list \<Rightarrow> 'a list" where
  "swap_remove i xs = (if Suc i = length xs then butlast xs else (butlast xs)[i := last xs])"

lemma length_swap_remove [simp]: "length (swap_remove i xs) = length xs - 1"
  by (simp add: swap_remove_def)

lemma drop_swap_remove_size:
  assumes "i < length xs"
  shows "nodes_size (drop i (swap_remove i xs @ ys)) + node_size (xs ! i) = nodes_size (drop i xs) + nodes_size ys"
proof -
  obtain zs z where xs: "xs = zs @ [z]" using assms by (cases xs rule: rev_cases) auto
  show ?thesis
  proof (cases "i < length zs")
    case True
    then have d: "drop i zs = zs ! i # drop (Suc i) zs" by (simp add: Cons_nth_drop_Suc)
    have "drop i (zs[i := z]) = z # drop (Suc i) zs" using True by (simp add: drop_update_swap d)
    then show ?thesis using True xs d by (simp add: swap_remove_def nth_append)
  next
    case False
    then show ?thesis using assms xs by (simp add: swap_remove_def nth_append)
  qed
qed

lemma ancestors_measure:
  assumes "idx < length rs"
  shows "nodes_size (drop (Suc idx) rs) < nodes_size (drop idx rs)"
    "nodes_size (drop idx (swap_remove idx rs @ children (rs ! idx))) < nodes_size (drop idx rs)"
    "nodes_size (drop idx (swap_remove idx rs)) < nodes_size (drop idx rs)"
proof -
  show "nodes_size (drop (Suc idx) rs) < nodes_size (drop idx rs)"
    using Cons_nth_drop_Suc [OF assms, symmetric] by simp
  show "nodes_size (drop idx (swap_remove idx rs @ children (rs ! idx))) < nodes_size (drop idx rs)"
    using drop_swap_remove_size [OF assms, of "children (rs ! idx)"] children_size_less [of "rs ! idx"] by linarith
  have "nodes_size (drop idx (swap_remove idx rs)) + node_size (rs ! idx) = nodes_size (drop idx rs)"
    using drop_swap_remove_size [OF assms, of "[]"] by simp
  then show "nodes_size (drop idx (swap_remove idx rs)) < nodes_size (drop idx rs)"
    using node_size_pos [of "rs ! idx"] by linarith
qed

text \<open>The loop of \<open>finalize_with_ancestors\<close>: its result is the finalized root's index, or whether anything changed.\<close>

datatype finalize_step = Met nat | Done bool

function ancestors_loop ::
  "('h, 'e) ancestry \<Rightarrow> 'h \<Rightarrow> 'n::linorder \<Rightarrow> nat \<Rightarrow> bool \<Rightarrow> ('h, 'n, 'v) node list
     \<Rightarrow> ('e + finalize_step) \<times> ('h, 'n, 'v) node list" where
  "ancestors_loop desc h n idx changed rs =
     (if idx < length rs then
        (let root = rs ! idx;
             is_finalized = (hash root = h)
         in case (if \<not> is_finalized \<and> n < number root then desc h (hash root) else Inr False) of
              Inl err \<Rightarrow> (Inl err, rs)
            | Inr is_descendant \<Rightarrow>
                (case (if \<not> is_finalized \<and> \<not> is_descendant \<and> number root < n then desc (hash root) h else Inr False) of
                   Inl err \<Rightarrow> (Inl err, rs)
                 | Inr is_ancestor \<Rightarrow>
                     if is_finalized then (Inr (Met idx), rs)
                     else if is_descendant then ancestors_loop desc h n (Suc idx) changed rs
                     else if is_ancestor then ancestors_loop desc h n idx True (swap_remove idx rs @ children root)
                     else ancestors_loop desc h n idx True (swap_remove idx rs)))
      else (Inr (Done changed), rs))"
  by pat_completeness auto
termination
  by (relation "measure (\<lambda>(_, _, _, idx, _, rs). nodes_size (drop idx rs))")
    (simp_all only: wf_measure in_measure case_prod_conv ancestors_measure)

definition finalize_with_ancestors ::
  "('h, 'e) ancestry \<Rightarrow> 'h \<Rightarrow> 'n::linorder \<Rightarrow> ('h, 'n, 'v) fork_tree
     \<Rightarrow> ('e fork_tree_error + 'v finalization_result) \<times> ('h, 'n, 'v) fork_tree" where
  "finalize_with_ancestors desc h n t =
     (if reverts n t then (Inl Revert, t)
      else case finalize_root h t of
        (Some root, t) \<Rightarrow> (Inr (Changed (Some root)), t)
      | (None, t) \<Rightarrow>
          (let (r, rs) = ancestors_loop desc h n 0 False (roots t); t = t\<lparr>roots := rs\<rparr>
           in case r of
                Inl err \<Rightarrow> (Inl (Client err), t)
              | Inr (Met idx) \<Rightarrow> (let (v, t) = finalize_root_at idx t in (Inr (Changed (Some v)), t))
              | Inr (Done changed) \<Rightarrow> (Inr (if changed then Changed None else Unchanged), t\<lparr>best_finalized_number := Some n\<rparr>)))"

text \<open>Equal to the target or an ancestor of it, and whether one of the children is, too.\<close>

definition same_or_ancestor :: "('h, 'e) ancestry \<Rightarrow> 'h \<Rightarrow> ('h, 'n, 'v) node \<Rightarrow> 'e + bool" where
  "same_or_ancestor desc h node = (if hash node = h then Inr True else desc (hash node) h)"

fun past_children :: "('h, 'e) ancestry \<Rightarrow> 'h \<Rightarrow> 'n::linorder \<Rightarrow> ('h, 'n, 'v) node list \<Rightarrow> 'e + bool" where
  "past_children desc h n [] = Inr False"
| "past_children desc h n (c # cs) =
     (if number c \<le> n then rbind (same_or_ancestor desc h c) (\<lambda>b. if b then Inr True else past_children desc h n cs)
      else past_children desc h n cs)"

text \<open>The first candidate that passes the predicate and is the target or an ancestor of it.\<close>

fun first_finalized ::
  "('h, 'e) ancestry \<Rightarrow> ('v \<Rightarrow> bool) \<Rightarrow> 'h \<Rightarrow> 'n::linorder \<Rightarrow> nat \<Rightarrow> ('h, 'n, 'v) node list
     \<Rightarrow> 'e fork_tree_error + nat option" where
  "first_finalized desc P h n i [] = Inr None"
| "first_finalized desc P h n i (node # ns) =
     (if P (data node) then
        (case same_or_ancestor desc h node of
           Inl err \<Rightarrow> Inl (Client err)
         | Inr False \<Rightarrow> first_finalized desc P h n (Suc i) ns
         | Inr True \<Rightarrow> (case past_children desc h n (children node) of
             Inl err \<Rightarrow> Inl (Client err)
           | Inr True \<Rightarrow> Inl UnfinalizedAncestor
           | Inr False \<Rightarrow> Inr (Some i)))
      else first_finalized desc P h n (Suc i) ns)"

definition finalizes_any_with_descendent_if ::
  "('h, 'e) ancestry \<Rightarrow> ('v \<Rightarrow> bool) \<Rightarrow> 'h \<Rightarrow> 'n::linorder \<Rightarrow> ('h, 'n, 'v) fork_tree
     \<Rightarrow> 'e fork_tree_error + bool option" where
  "finalizes_any_with_descendent_if desc P h n t =
     (if reverts n t then Inl Revert
      else rbind (first_finalized desc P h n 0 (node_iter t)) (\<lambda>found. Inr (map_option
        (\<lambda>i. \<exists>root \<in> set (roots t). hash root = hash (node_iter t ! i)) found)))"

definition finalize_with_descendent_if ::
  "('h, 'e) ancestry \<Rightarrow> ('v \<Rightarrow> bool) \<Rightarrow> 'h \<Rightarrow> 'n::linorder \<Rightarrow> ('h, 'n, 'v) fork_tree
     \<Rightarrow> ('e fork_tree_error + 'v finalization_result) \<times> ('h, 'n, 'v) fork_tree" where
  "finalize_with_descendent_if desc P h n t =
     (if reverts n t then (Inl Revert, t)
      else case first_finalized desc P h n 0 (roots t) of
        Inl err \<Rightarrow> (Inl err, t)
      | Inr position \<Rightarrow>
          (let (node_data, t) = (case position of None \<Rightarrow> (None, t)
                 | Some i \<Rightarrow> (let (v, t) = finalize_root_at i t in (Some v, t)));
               (r, kept) = retain_roots (\<lambda>root.
                 rbind (if n < number root then desc h (hash root) else Inr False) (\<lambda>b.
                   if b \<or> number root = n \<and> hash root = h then Inr True else desc (hash root) h)) (roots t) [] False;
               t = t\<lparr>roots := kept\<rparr>
           in case r of Inl err \<Rightarrow> (Inl (Client err), t)
              | Inr changed \<Rightarrow>
                  (Inr (case node_data of Some v \<Rightarrow> Changed (Some v) | None \<Rightarrow> if changed then Changed None else Unchanged),
                   t\<lparr>best_finalized_number := Some n\<rparr>)))"

end
