(* ===== verification/Fork_Tree_Ancestry.thy ===== *)
theory Fork_Tree_Ancestry
  imports Fork_Tree_Shape
begin

text \<open>
  What the fork tree relies on of the function that establishes ancestry, as a locale, and the shape of
  a tree that agrees with it.
\<close>

definition hashes :: "('h, 'n, 'v) node list \<Rightarrow> 'h set" where
  "hashes ns = hash ` set (preorders ns)"

lemma hashes_simps [simp]:
  "hashes [] = {}"
  "hashes (n # ns) = insert (hash n) (hashes (children n)) \<union> hashes ns"
  "hashes (xs @ ys) = hashes xs \<union> hashes ys"
  using preorder_children [of n] by (auto simp: hashes_def)

lemma hashes_eq: "hashes ns = fst ` set_mset (labels ns)"
  by (force simp: hashes_def labels_def label_def)

lemma hashes_Union: "hashes ns = (\<Union>n \<in> set ns. hashes [n])"
  by (auto simp: hashes_def)

lemma hash_in_hashes: "n \<in> set ns \<Longrightarrow> hash n \<in> hashes ns"
  by (subst hashes_Union) auto

lemma hashes_mono: "set xs \<subseteq> set ys \<Longrightarrow> hashes xs \<subseteq> hashes ys"
  by (auto simp: hashes_def)

lemma hashes_set: "set xs = set ys \<Longrightarrow> hashes xs = hashes ys"
  by (simp add: hashes_def)

text \<open>The branches of two nodes have nothing to do with one another.\<close>

definition unrelated :: "('h \<Rightarrow> 'h \<Rightarrow> bool) \<Rightarrow> ('h, 'n, 'v) node \<Rightarrow> ('h, 'n, 'v) node \<Rightarrow> bool" where
  "unrelated anc a b \<longleftrightarrow> (\<forall>x \<in> hashes [a]. \<forall>y \<in> hashes [b]. x \<noteq> y \<and> \<not> anc x y \<and> \<not> anc y x)"

lemma unrelated_sym: "unrelated anc a b \<Longrightarrow> unrelated anc b a"
  unfolding unrelated_def by fast

primrec wf_node :: "('h \<Rightarrow> 'h \<Rightarrow> bool) \<Rightarrow> ('h \<Rightarrow> 'n) \<Rightarrow> 'h set \<Rightarrow> ('h, 'n, 'v) node \<Rightarrow> bool" where
  "wf_node anc num blocks (Node h n v cs) \<longleftrightarrow>
     h \<in> blocks \<and> n = num h \<and> (\<forall>x \<in> hashes cs. anc h x) \<and>
     list_all (wf_node anc num blocks) cs \<and> sorted_wrt (unrelated anc) cs"

text \<open>
  Nodes are known blocks with their numbers, everything below a node descends from it, and siblings
  are on competing branches.
\<close>

definition wf_forest :: "('h \<Rightarrow> 'h \<Rightarrow> bool) \<Rightarrow> ('h \<Rightarrow> 'n) \<Rightarrow> 'h set \<Rightarrow> ('h, 'n, 'v) node list \<Rightarrow> bool" where
  "wf_forest anc num blocks ns \<longleftrightarrow> list_all (wf_node anc num blocks) ns \<and> sorted_wrt (unrelated anc) ns"

lemma wf_node_iff:
  "wf_node anc num blocks n \<longleftrightarrow> hash n \<in> blocks \<and> number n = num (hash n) \<and>
     (\<forall>x \<in> hashes (children n). anc (hash n) x) \<and> wf_forest anc num blocks (children n)"
  by (cases n) (simp add: wf_forest_def)

lemma wf_forest_Nil [simp]: "wf_forest anc num blocks []"
  by (simp add: wf_forest_def)

lemma wf_forest_Cons:
  "wf_forest anc num blocks (n # ns) \<longleftrightarrow>
     wf_node anc num blocks n \<and> wf_forest anc num blocks ns \<and> (\<forall>m \<in> set ns. unrelated anc n m)"
  by (auto simp: wf_forest_def)

lemma wf_forest_append:
  "wf_forest anc num blocks (xs @ ys) \<longleftrightarrow> wf_forest anc num blocks xs \<and> wf_forest anc num blocks ys \<and>
     (\<forall>x \<in> set xs. \<forall>y \<in> set ys. unrelated anc x y)"
  by (auto simp: wf_forest_def sorted_wrt_append)

lemma wf_forest_mset:
  "mset xs = mset ys \<Longrightarrow> wf_forest anc num blocks xs \<Longrightarrow> wf_forest anc num blocks ys"
proof (induction xs arbitrary: ys)
  case (Cons x xs)
  have "x \<in> set ys" using Cons.prems(1) by (metis list.set_intros(1) set_mset_mset)
  then obtain as bs where ys: "ys = as @ x # bs" by (auto simp: in_set_conv_decomp)
  then have m: "mset xs = mset (as @ bs)" using Cons.prems(1) by simp
  then have "wf_forest anc num blocks (as @ bs)" using Cons by (simp add: wf_forest_Cons)
  moreover have "\<forall>m \<in> set (as @ bs). unrelated anc x m"
    using Cons.prems(2) mset_eq_setD [OF m] by (simp add: wf_forest_Cons)
  ultimately show ?case
    using Cons.prems(2) unrelated_sym unfolding ys by (fastforce simp: wf_forest_append wf_forest_Cons)
qed simp

lemma wf_forest_nth:
  assumes "wf_forest anc num blocks ns" "i < length ns"
  shows "wf_node anc num blocks (ns ! i)"
    "j < length ns \<Longrightarrow> i \<noteq> j \<Longrightarrow> unrelated anc (ns ! i) (ns ! j)"
proof -
  show "wf_node anc num blocks (ns ! i)" using assms by (simp add: wf_forest_def list_all_length)
  assume "j < length ns" "i \<noteq> j"
  then have "i < j \<and> j < length ns \<or> j < i \<and> i < length ns" using assms(2) by linarith
  moreover have "unrelated anc (ns ! a) (ns ! b)" if "a < b" "b < length ns" for a b
    using assms(1) that unfolding wf_forest_def by (simp add: sorted_wrt_nth_less)
  ultimately show "unrelated anc (ns ! i) (ns ! j)" using unrelated_sym by blast
qed

lemma wf_forest_update:
  assumes "wf_forest anc num blocks ns" "i < length ns" "wf_node anc num blocks n"
    "\<And>j. j < length ns \<Longrightarrow> j \<noteq> i \<Longrightarrow> unrelated anc n (ns ! j)"
  shows "wf_forest anc num blocks (ns[i := n])"
proof -
  have "sorted_wrt (unrelated anc) (ns[i := n])"
    unfolding sorted_wrt_iff_nth_less
  proof (intro allI impI)
    fix a b assume ab: "a < b" "b < length (ns[i := n])"
    then show "unrelated anc (ns[i := n] ! a) (ns[i := n] ! b)"
      using wf_forest_nth(2) [OF assms(1), of a b] assms(4) [of a] assms(4) [of b] unrelated_sym
      by (cases "a = i"; cases "b = i"; simp)
  qed
  moreover have "list_all (wf_node anc num blocks) (ns[i := n])"
    using assms(1,3) set_update_subset_insert [of ns i n] by (auto simp: wf_forest_def list_all_iff)
  ultimately show ?thesis by (simp add: wf_forest_def)
qed

text \<open>Rebalancing keeps the shape.\<close>

lemma hashes_rebalance_node [simp]: "hashes (children (rebalance_node n)) = hashes (children n)"
  by (simp add: hashes_eq labels_rebalance_node)

lemma hash_rebalance_node [simp]: "hash (rebalance_node n) = hash n" "number (rebalance_node n) = number n"
  by (cases n; simp)+

lemma unrelated_rebalance [simp]: "unrelated anc (rebalance_node a) (rebalance_node b) = unrelated anc a b"
  by (simp add: unrelated_def)

lemma wf_node_rebalance: "wf_node anc num blocks n \<Longrightarrow> wf_node anc num blocks (rebalance_node n)"
proof (induction n rule: rebalance_node.induct)
  case (1 h n v cs)
  have "wf_forest anc num blocks cs" using 1(2) by (simp add: wf_forest_def)
  then have w: "wf_forest anc num blocks (sort_by_depth cs)" by (rule wf_forest_mset [rotated]) simp
  have "wf_node anc num blocks (rebalance_node c)" if "c \<in> set (sort_by_depth cs)" for c
    using 1(1) [OF that] w that by (simp add: wf_forest_def list_all_iff)
  then have "wf_forest anc num blocks (map rebalance_node (sort_by_depth cs))"
    using w by (simp add: wf_forest_def sorted_wrt_map list_all_iff)
  moreover have "hashes (map rebalance_node (sort_by_depth cs)) = hashes cs"
    using hashes_rebalance_node [of "Node h n v cs"] by simp
  ultimately show ?case using 1(2) by (simp add: wf_forest_def)
qed

lemma wf_forest_rebalance:
  assumes "wf_forest anc num blocks (roots t)"
  shows "wf_forest anc num blocks (roots (rebalance t))"
proof -
  have "wf_forest anc num blocks (sort_by_depth (roots t))"
    using assms by (rule wf_forest_mset [rotated]) simp
  then show ?thesis
    by (simp add: rebalance_def wf_forest_def sorted_wrt_map list_all_iff wf_node_rebalance)
qed

subsection \<open>The contract of the ancestry function\<close>

locale ancestry =
  fixes desc :: "('h, 'e) ancestry" and anc :: "'h \<Rightarrow> 'h \<Rightarrow> bool" and num :: "'h \<Rightarrow> 'n::linorder" and blocks :: "'h set"
  assumes answers: "a \<in> blocks \<Longrightarrow> b \<in> blocks \<Longrightarrow> desc a b = Inr (anc a b)"
    and anc_trans: "a \<in> blocks \<Longrightarrow> b \<in> blocks \<Longrightarrow> c \<in> blocks \<Longrightarrow> anc a b \<Longrightarrow> anc b c \<Longrightarrow> anc a c"
    and anc_linear: "a \<in> blocks \<Longrightarrow> b \<in> blocks \<Longrightarrow> c \<in> blocks \<Longrightarrow> anc a c \<Longrightarrow> anc b c \<Longrightarrow> a = b \<or> anc a b \<or> anc b a"
    and anc_less: "a \<in> blocks \<Longrightarrow> b \<in> blocks \<Longrightarrow> anc a b \<Longrightarrow> num a < num b"
begin

abbreviation wfn :: "('h, 'n, 'v) node \<Rightarrow> bool" where
  "wfn \<equiv> wf_node anc num blocks"

abbreviation wff :: "('h, 'n, 'v) node list \<Rightarrow> bool" where
  "wff \<equiv> wf_forest anc num blocks"

lemma wf_hashes: "wff ns \<Longrightarrow> hashes ns \<subseteq> blocks"
proof -
  have "wfn n \<Longrightarrow> hashes [n] \<subseteq> blocks" for n :: "('h, 'n, 'v) node"
  proof (induction n)
    case (Node h n v cs)
    then show ?case by (subst hashes_simps, subst hashes_Union) (auto simp: list_all_iff simp del: hashes_simps(2))
  qed
  then show "wff ns \<Longrightarrow> hashes ns \<subseteq> blocks"
    by (subst hashes_Union) (auto simp: wf_forest_def list_all_iff simp del: hashes_simps(2))
qed

lemma wf_forest_inside: "wff ns \<Longrightarrow> m \<in> set (preorders ns) \<Longrightarrow> wfn m"
proof -
  have "wfn n \<Longrightarrow> m \<in> set (preorder n) \<Longrightarrow> wfn m" for n
    by (induction n) (fastforce simp: list_all_iff)
  then show "wff ns \<Longrightarrow> m \<in> set (preorders ns) \<Longrightarrow> wfn m"
    by (auto simp: wf_forest_def list_all_iff)
qed

lemma anc_irrefl: "a \<in> blocks \<Longrightarrow> \<not> anc a a"
  using anc_less by blast

lemma anc_asym: "a \<in> blocks \<Longrightarrow> b \<in> blocks \<Longrightarrow> anc a b \<Longrightarrow> \<not> anc b a"
  using anc_less by (meson less_asym)

text \<open>Only one of several competing branches holds the target or an ancestor of it.\<close>

lemma one_branch:
  assumes "wff ns" "i < length ns" "j < length ns" "x \<in> hashes [ns ! i]" "y \<in> hashes [ns ! j]"
    "h \<in> blocks" "anc x h \<or> x = h" "anc y h \<or> y = h"
  shows "i = j"
proof (rule ccontr)
  assume "i \<noteq> j"
  then have "x \<noteq> y" "\<not> anc x y" "\<not> anc y x"
    using wf_forest_nth(2) [OF assms(1-3)] assms(4,5) unfolding unrelated_def by blast+
  moreover have "x \<in> blocks" "y \<in> blocks"
    using wf_hashes [OF assms(1)] hashes_mono [of "[ns ! i]" ns] hashes_mono [of "[ns ! j]" ns] assms(2-5) by auto
  ultimately show False using anc_linear [of x y h] assms(6-8) by blast
qed

end

end
