(* ===== verification/Fork_Tree_Search.thy ===== *)
theory Fork_Tree_Search
  imports Fork_Tree_Ancestry
begin

text \<open>
  The search of the fork tree: its loop over a stack of nodes with the index of the next child equals a
  recursive post-order search, and in a tree that agrees with the ancestry it finds the deepest ancestor
  that passes the predicate.
\<close>

subsection \<open>The loop against recursion\<close>

text \<open>
  What a subtree holds: no ancestor; ancestors, but none that passes the predicate; or the path to the
  node that was found.
\<close>

datatype outcome = Unmet | Rejected | Found "nat list"

fun search_node ::
    "('h, 'e) ancestry \<Rightarrow> ('v \<Rightarrow> bool) \<Rightarrow> 'h \<Rightarrow> 'n::linorder \<Rightarrow> ('h, 'n, 'v) node \<Rightarrow> 'e fork_tree_error + outcome"
  and search_children ::
    "('h, 'e) ancestry \<Rightarrow> ('v \<Rightarrow> bool) \<Rightarrow> 'h \<Rightarrow> 'n::linorder \<Rightarrow> nat \<Rightarrow> ('h, 'n, 'v) node list \<Rightarrow> 'e fork_tree_error + outcome" where
  "search_node desc P h n (Node ch cn cv cs) = rbind (search_children desc P h n 0 cs) (\<lambda>r. case r of
     Found p \<Rightarrow> Inr (Found p)
   | Rejected \<Rightarrow> Inr (if P cv then Found [] else Rejected)
   | Unmet \<Rightarrow> (case desc ch h of
       Inl err \<Rightarrow> Inl (Client err)
     | Inr b \<Rightarrow> Inr (if b then if P cv then Found [] else Rejected else Unmet)))"
| "search_children desc P h n i [] = Inr Unmet"
| "search_children desc P h n i (c # cs) = (if number c < n then
     rbind (search_node desc P h n c) (\<lambda>r. case r of
       Unmet \<Rightarrow> search_children desc P h n (Suc i) cs
     | Rejected \<Rightarrow> Inr Rejected
     | Found p \<Rightarrow> Inr (Found (i # p)))
   else search_children desc P h n (Suc i) cs)"

text \<open>The frames between a node and one below it that was found.\<close>

fun frames :: "('h, 'n, 'v) node \<Rightarrow> nat list \<Rightarrow> (('h, 'n, 'v) node \<times> nat) list" where
  "frames node [] = []"
| "frames node (j # p) = frames (children node ! j) p @ [(node, Suc j)]"

lemma frames_path: "rev (map (\<lambda>(_, i). i - 1) (frames node p)) = p"
  by (induction node p rule: frames.induct) simp_all

text \<open>How the loop goes on, with the answer for the node on top of the stack.\<close>

definition resume where
  "resume desc P h n node stack r = (case r of
     Unmet \<Rightarrow> find_loop desc P h n False stack
   | Rejected \<Rightarrow> find_loop desc P h n True stack
   | Found p \<Rightarrow> Inr (True, True, frames node p @ stack))"

definition own_answer where
  "own_answer desc P h node = (case desc (hash node) h of
       Inl err \<Rightarrow> Inl (Client err)
     | Inr b \<Rightarrow> Inr (if b then if P (data node) then Found [] else Rejected else Unmet))"

declare find_loop.simps(2) [simp del]

lemma find_loop_last:
  assumes "length (children node) \<le> i"
  shows "find_loop desc P h n False ((node, i) # stack) =
    rbind (own_answer desc P h node) (resume desc P h n node stack)"
  using assms by (subst find_loop.simps) (auto simp: own_answer_def resume_def split: sum.split bool.split)

lemma find_loop_rejected:
  "find_loop desc P h n True ((node, i) # stack) =
     (if P (data node) then Inr (True, True, stack) else find_loop desc P h n True stack)"
  by (subst find_loop.simps) simp

lemma search_loop:
  fixes node :: "('h, 'n::linorder, 'v) node"
  shows "find_loop desc P h n False ((node, 0) # stack) = rbind (search_node desc P h n node) (resume desc P h n node stack)"
    and "drop i (children parent) = cs \<Longrightarrow> i \<le> length (children parent) \<Longrightarrow>
      find_loop desc P h n False ((parent, i) # stack) = rbind (search_children desc P h n i cs) (\<lambda>r. case r of
        Unmet \<Rightarrow> rbind (own_answer desc P h parent) (resume desc P h n parent stack)
      | Rejected \<Rightarrow> resume desc P h n parent stack (if P (data parent) then Found [] else Rejected)
      | Found p \<Rightarrow> Inr (True, True, frames parent p @ stack))"
proof (induction desc P h n node and desc P h n i cs arbitrary: stack and parent stack
    rule: search_node_search_children.induct)
  case (1 desc P h n ch cn cv cs)
  show ?case
    using 1 [of "Node ch cn cv cs" stack]
    by (cases "search_children desc P h n 0 cs") (auto simp: own_answer_def resume_def split: sum.split outcome.split)
next
  case (2 desc P h n i)
  then show ?case by (simp add: find_loop_last)
next
  case (3 desc P h n i c cs)
  then have i: "i < length (children parent)" "children parent ! i = c" "drop (Suc i) (children parent) = cs"
    by (metis drop_eq_Nil list.distinct(1) not_le, metis Cons_nth_drop_Suc drop_eq_Nil list.distinct(1) list.inject not_le,
        metis Cons_nth_drop_Suc drop_eq_Nil list.distinct(1) list.inject not_le)
  show ?case
  proof (cases "number c < n")
    case True
    have "find_loop desc P h n False ((parent, i) # stack) =
        rbind (search_node desc P h n c) (resume desc P h n c ((parent, Suc i) # stack))"
      using 3(1) [OF True] True i by (subst find_loop.simps) simp
    then show ?thesis
      using 3(2) [OF True i(3), of stack] True i
      by (cases "search_node desc P h n c") (auto simp: resume_def find_loop_rejected split: outcome.split)
  next
    case False
    then show ?thesis using 3(3) [OF False i(3), of stack] i by (subst find_loop.simps) simp
  qed
qed

lemma find_roots_search:
  "find_roots desc P h n i rs = rbind (search_children desc P h n i rs) (\<lambda>r. case r of
     Found p \<Rightarrow> Inr (Some p) | _ \<Rightarrow> Inr None)"
proof (induction desc P h n i rs rule: find_roots.induct)
  case (2 desc P h n i root rs)
  show ?case
  proof (cases "number root < n")
    case True
    then show ?thesis
      using 2 by (cases "search_node desc P h n root")
        (auto simp: search_loop(1) resume_def frames_path [simplified] split: outcome.split)
  next
    case False
    then show ?thesis using 2 by auto
  qed
qed simp

subsection \<open>The deepest ancestor\<close>

text \<open>The node at the end of a path below a node.\<close>

fun node_below :: "nat list \<Rightarrow> ('h, 'n, 'v) node \<Rightarrow> ('h, 'n, 'v) node option" where
  "node_below [] node = Some node"
| "node_below (i # p) node = (if i < length (children node) then node_below p (children node ! i) else None)"

lemma node_at_below: "node_at (i # p) ns = (if i < length ns then node_below p (ns ! i) else None)"
  by (induction p arbitrary: i ns) simp_all

lemma node_below_preorder: "node_below p node = Some m \<Longrightarrow> m \<in> set (preorder node)"
proof (induction p arbitrary: node)
  case (Cons i p)
  then have "i < length (children node)" "m \<in> set (preorder (children node ! i))" by (simp_all split: if_splits)
  then show ?case using preorder_children [of node] nth_mem by auto
qed simp

text \<open>
  What an answer means for some trees: no ancestor there; ancestors that all fail the predicate; or the
  node found is an ancestor that passes, and every other one is above it.
\<close>

definition deepest where
  "deepest anc P h ns m \<longleftrightarrow> m \<in> set (preorders ns) \<and> anc (hash m) h \<and> P (data m) \<and>
     (\<forall>m' \<in> set (preorders ns). anc (hash m') h \<and> P (data m') \<longrightarrow> m \<in> set (preorder m'))"

definition no_ancestor where
  "no_ancestor anc P h ns \<longleftrightarrow> (\<forall>m \<in> set (preorders ns). anc (hash m) h \<longrightarrow> \<not> P (data m))"

definition answer_ok where
  "answer_ok anc P h ns at r \<longleftrightarrow> (case r of
     Unmet \<Rightarrow> no_ancestor anc (\<lambda>_. True) h ns
   | Rejected \<Rightarrow> no_ancestor anc P h ns \<and> \<not> no_ancestor anc (\<lambda>_. True) h ns
   | Found p \<Rightarrow> \<exists>m. at p = Some m \<and> deepest anc P h ns m)"

lemma no_ancestor_mono: "no_ancestor anc (\<lambda>_. True) h ns \<Longrightarrow> no_ancestor anc P h ns"
  by (simp add: no_ancestor_def)

lemma no_ancestor_Cons:
  "no_ancestor anc P h (n # ns) \<longleftrightarrow> no_ancestor anc P h [n] \<and> no_ancestor anc P h ns"
  by (auto simp: no_ancestor_def)

context ancestry
begin

text \<open>Above a node that is not an ancestor of the target, and whose children are not, there is nothing to find.\<close>

lemma none_below_higher:
  assumes "wfn c" "h \<in> blocks" "\<not> number c < num h"
  shows "no_ancestor anc (\<lambda>_. True) h [c]"
proof -
  have "\<not> anc (hash m) h" if m: "m \<in> set (preorder c)" for m
  proof
    assume a: "anc (hash m) h"
    have "wff [c]" using assms(1) by (simp add: wf_forest_def)
    then have w: "wfn m" using m by (intro wf_forest_inside [of "[c]"]) simp_all
    then have "num (hash m) < num h" using anc_less a assms(2) by (simp add: wf_node_iff)
    moreover have "m = c \<or> anc (hash c) (hash m)"
      using assms(1) m preorder_children [of c] by (auto simp: wf_node_iff hashes_def)
    then have "num (hash c) \<le> num (hash m)"
      using anc_less assms(1) w by (auto simp: wf_node_iff less_imp_le)
    ultimately show False using assms(1,3) by (auto simp: wf_node_iff)
  qed
  then show ?thesis by (simp add: no_ancestor_def)
qed

text \<open>An ancestor in one branch rules out the others.\<close>

lemma other_branches_empty:
  assumes "wff (c # cs)" "h \<in> blocks" "m \<in> set (preorder c)" "anc (hash m) h"
  shows "no_ancestor anc (\<lambda>_. True) h cs"
proof -
  have False if "m' \<in> set (preorders cs)" "anc (hash m') h" for m'
  proof -
    from that(1) obtain c' where "c' \<in> set cs" "m' \<in> set (preorder c')" by auto
    then obtain j where j: "j < length cs" "m' \<in> set (preorder (cs ! j))" by (metis in_set_conv_nth)
    have "0 = Suc j"
      using assms that(2) j by (intro one_branch [OF assms(1), of 0 "Suc j" "hash m" "hash m'" h])
        (simp_all add: hashes_def del: hashes_simps)
    then show False by simp
  qed
  then show ?thesis by (auto simp: no_ancestor_def)
qed

lemma deepest_branch:
  assumes "wff (c # cs)" "h \<in> blocks" "deepest anc P h [c] m"
  shows "deepest anc P h (c # cs) m"
proof -
  have "no_ancestor anc (\<lambda>_. True) h cs"
    using assms by (intro other_branches_empty [of c cs h m]) (simp_all add: deepest_def)
  then show ?thesis using assms(3) by (auto simp: deepest_def no_ancestor_def)
qed

lemma deepest_skip:
  assumes "no_ancestor anc (\<lambda>_. True) h [c]" "deepest anc P h cs m"
  shows "deepest anc P h (c # cs) m"
  using assms by (auto simp: deepest_def no_ancestor_def)

lemma deepest_own:
  assumes "wfn node" "h \<in> blocks" "no_ancestor anc P h (children node)" "anc (hash node) h" "P (data node)"
  shows "deepest anc P h [node] node"
  using assms preorder_children [of node] by (auto simp: deepest_def no_ancestor_def)

lemma deepest_child:
  assumes "wfn node" "h \<in> blocks" "deepest anc P h (children node) m"
  shows "deepest anc P h [node] m"
proof -
  have "m \<in> set (preorder node)" using assms(3) preorder_children [of node] by (auto simp: deepest_def)
  then show ?thesis using assms(3) preorder_children [of node] by (auto simp: deepest_def)
qed

text \<open>A descendant of the node that is an ancestor of the target makes the node one.\<close>

lemma ancestor_above:
  assumes "wfn node" "h \<in> blocks" "\<not> no_ancestor anc (\<lambda>_. True) h (children node)"
  shows "anc (hash node) h"
proof -
  obtain m where m: "m \<in> set (preorders (children node))" "anc (hash m) h" using assms(3) by (auto simp: no_ancestor_def)
  have "wfn m" using assms(1) m by (intro wf_forest_inside [of "children node"]) (simp_all add: wf_node_iff)
  moreover have "anc (hash node) (hash m)" using assms(1) m by (auto simp: wf_node_iff hashes_def)
  ultimately show ?thesis using anc_trans assms(1,2) m(2) by (meson wf_node_iff)
qed

lemma no_ancestor_node:
  "no_ancestor anc P h [node] \<longleftrightarrow> no_ancestor anc P h (children node) \<and> (anc (hash node) h \<longrightarrow> \<not> P (data node))"
  using preorder_children [of node] by (auto simp: no_ancestor_def)

text \<open>The answer for a list of siblings, whose paths start at an index.\<close>

definition children_at_index where
  "children_at_index i cs p = (case p of [] \<Rightarrow> None | j # p \<Rightarrow> if i \<le> j then node_at ((j - i) # p) cs else None)"

lemma children_at_index_simps:
  "children_at_index i (c # cs) (i # p) = node_below p c"
  "children_at_index (Suc i) cs p = Some m \<Longrightarrow> children_at_index i (c # cs) p = Some m"
  by (auto simp: children_at_index_def node_at_below Suc_diff_le split: list.splits if_splits)

lemma search_children_ok:
  assumes "h \<in> blocks" "wff cs"
    "\<And>c. c \<in> set cs \<Longrightarrow> \<exists>r. search_node desc P h (num h) c = Inr r \<and> answer_ok anc P h [c] (\<lambda>p. node_below p c) r"
  shows "\<exists>r. search_children desc P h (num h) i cs = Inr r \<and> answer_ok anc P h cs (children_at_index i cs) r"
  using assms(2,3)
proof (induction cs arbitrary: i)
  case Nil
  then show ?case by (simp add: answer_ok_def no_ancestor_def)
next
  case (Cons c cs)
  have w: "wfn c" "wff cs" using Cons.prems(1) by (simp_all add: wf_forest_Cons)
  obtain r where r: "search_children desc P h (num h) (Suc i) cs = Inr r"
      "answer_ok anc P h cs (children_at_index (Suc i) cs) r"
    using Cons.IH [OF w(2)] Cons.prems(2) by force
  have skip: "answer_ok anc P h (c # cs) (children_at_index i (c # cs)) r" if "no_ancestor anc (\<lambda>_. True) h [c]"
    using r(2) that no_ancestor_mono [OF that]
    by (auto simp: answer_ok_def no_ancestor_Cons [of anc _ h c cs] split: outcome.splits
        intro: children_at_index_simps(2) deepest_skip)
  obtain q where q: "search_node desc P h (num h) c = Inr q" "answer_ok anc P h [c] (\<lambda>p. node_below p c) q"
    using Cons.prems(2) by force
  show ?case
  proof (cases "number c < num h")
    case False
    then show ?thesis using r skip [OF none_below_higher [OF w(1) assms(1) False]] by simp
  next
    case True
    show ?thesis
    proof (cases q)
      case Unmet
      then show ?thesis using True r q skip by (simp add: answer_ok_def)
    next
      case Rejected
      then obtain m where "m \<in> set (preorder c)" "anc (hash m) h" and np: "no_ancestor anc P h [c]"
        using q(2) by (auto simp: answer_ok_def no_ancestor_def)
      then have "no_ancestor anc (\<lambda>_. True) h cs" using other_branches_empty [OF Cons.prems(1) assms(1)] by blast
      then have "no_ancestor anc P h (c # cs)" using np no_ancestor_mono by (simp add: no_ancestor_Cons [of anc _ h c cs])
      then show ?thesis
        using True q Rejected by (auto simp: answer_ok_def no_ancestor_Cons [of anc _ h c cs])
    next
      case (Found p)
      then show ?thesis
        using True q deepest_branch [OF Cons.prems(1) assms(1)] by (auto simp: answer_ok_def children_at_index_simps(1))
    qed
  qed
qed

lemma search_node_ok:
  assumes "h \<in> blocks" "wfn node"
  shows "\<exists>r. search_node desc P h (num h) node = Inr r \<and> answer_ok anc P h [node] (\<lambda>p. node_below p node) r"
  using assms(2)
proof (induction node)
  case (Node ch cn cv cs)
  let ?n = "Node ch cn cv cs"
  have w: "wff cs" "ch \<in> blocks" using Node.prems by (simp_all add: wf_forest_def)
  then obtain r where r: "search_children desc P h (num h) 0 cs = Inr r" "answer_ok anc P h cs (children_at_index 0 cs) r"
    using search_children_ok [OF assms(1) w(1), of P 0] Node.IH Node.prems by (auto simp: list_all_iff)
  show ?case
  proof (cases r)
    case Unmet
    then show ?thesis
      using r deepest_own [OF Node.prems assms(1)] answers [OF w(2) assms(1)] no_ancestor_mono [of anc h cs]
      by (auto simp: answer_ok_def no_ancestor_node [of _ h ?n])
  next
    case Rejected
    then have "anc ch h" using ancestor_above [OF Node.prems assms(1)] r(2) by (simp add: answer_ok_def)
    then show ?thesis
      using r Rejected deepest_own [OF Node.prems assms(1)] by (auto simp: answer_ok_def no_ancestor_node [of _ h ?n])
  next
    case (Found p)
    then obtain m where m: "children_at_index 0 cs p = Some m" "deepest anc P h cs m" using r(2) by (auto simp: answer_ok_def)
    then have "node_below p ?n = Some m"
      by (cases p) (auto simp: children_at_index_def node_at_below split: if_splits)
    then show ?thesis using r Found deepest_child [OF Node.prems assms(1)] m(2) by (auto simp: answer_ok_def)
  qed
qed

lemma find_deepest:
  assumes "h \<in> blocks" "wff (roots t)"
  shows "\<exists>r. find_node_index_where desc P h (num h) t = Inr r \<and> (case r of
      None \<Rightarrow> no_ancestor anc P h (roots t)
    | Some p \<Rightarrow> \<exists>m. node_at p (roots t) = Some m \<and> deepest anc P h (roots t) m)"
proof -
  have "wfn c" if "c \<in> set (roots t)" for c using assms(2) that by (simp add: wf_forest_def list_all_iff)
  then obtain r where r: "search_children desc P h (num h) 0 (roots t) = Inr r"
      "answer_ok anc P h (roots t) (children_at_index 0 (roots t)) r"
    using search_children_ok [OF assms, of P 0] search_node_ok [OF assms(1)] by blast
  have at: "children_at_index 0 ns p = Some m \<Longrightarrow> node_at p ns = Some m" for ns p m
    by (cases p) (simp_all add: children_at_index_def)
  show ?thesis
    using r at no_ancestor_mono [of anc h "roots t" P]
    by (auto simp: find_node_index_where_def find_roots_search answer_ok_def split: outcome.splits)
qed

end

end
