(* ===== verification/Fork_Tree_Import.thy ===== *)
theory Fork_Tree_Import
  imports Fork_Tree_Search
begin

text \<open>Importing keeps the tree in agreement with the ancestry, adds exactly one node, and keeps the deepest branches first.\<close>

subsection \<open>An update below a path\<close>

definition node_with :: "('h, 'n, 'v) node list \<Rightarrow> ('h, 'n, 'v) node \<Rightarrow> ('h, 'n, 'v) node" where
  "node_with cs n = Node (hash n) (number n) (data n) cs"

lemma node_with_simps [simp]:
  "hash (node_with cs n) = hash n" "number (node_with cs n) = number n" "children (node_with cs n) = cs"
  "label (node_with cs n) = label n"
  by (simp_all add: node_with_def label_def)

lemma at_path_Cons:
  "i < length ns \<Longrightarrow> at_path (i # p) f ns = ns[i := node_with (at_path p f (children (ns ! i))) (ns ! i)]"
  by (simp add: node_with_def split: node.split)

lemma node_at_children: "node_at p ns = Some m \<Longrightarrow> children_at p ns = children m"
  by (induction p ns rule: node_at.induct) (auto split: if_splits)

lemma node_at_preorder: "node_at p ns = Some m \<Longrightarrow> m \<in> set (preorders ns)"
  by (cases p) (auto simp: node_at_below split: if_splits dest!: node_below_preorder intro: nth_mem)

lemma labels_update:
  assumes "i < length ns"
  shows "labels (ns[i := n]) + labels [ns ! i] = labels ns + labels [n]"
proof -
  have "ns = take i ns @ ns ! i # drop (Suc i) ns" using assms by (rule id_take_nth_drop)
  then have "labels ns = labels (take i ns) + labels [ns ! i] + labels (drop (Suc i) ns)"
    by (metis (no_types, opaque_lifting) append.assoc append_Cons append_Nil labels_simps(3))
  moreover have "labels (ns[i := n]) = labels (take i ns) + labels [n] + labels (drop (Suc i) ns)"
    using assms by (simp add: upd_conv_take_nth_drop)
  ultimately show ?thesis by simp
qed

lemma at_path_labels:
  "node_at p ns = Some m \<or> p = [] \<Longrightarrow> labels (at_path p (\<lambda>ns. ns @ [x]) ns) = labels ns + labels [x]"
proof (induction p arbitrary: ns)
  case (Cons i p)
  then have i: "i < length ns" "node_at p (children (ns ! i)) = Some m \<or> p = []"
    by (cases p; simp split: if_splits)+
  let ?n = "node_with (at_path p (\<lambda>ns. ns @ [x]) (children (ns ! i))) (ns ! i)"
  have "labels [?n] = labels [ns ! i] + labels [x]" using Cons.IH [OF i(2)] by simp
  then have "labels (ns[i := ?n]) + labels [ns ! i] = labels ns + labels [x] + labels [ns ! i]"
    using labels_update [OF i(1), of ?n] by (simp add: ac_simps)
  then show ?case using i(1) by (simp only: at_path_Cons add_right_cancel)
qed simp

lemma at_path_hashes:
  "node_at p ns = Some m \<or> p = [] \<Longrightarrow> hashes (at_path p (\<lambda>ns. ns @ [x]) ns) = hashes ns \<union> hashes [x]"
  by (simp only: hashes_eq at_path_labels) auto

text \<open>A leaf put beside others changes no depth above.\<close>

lemma depths_update:
  "i < length ns \<Longrightarrow> depth n = depth (ns ! i) \<Longrightarrow> map depth (ns[i := n]) = map depth ns"
  by (simp add: map_update list_update_same_conv)

lemma at_path_sorted:
  assumes "children_at p ns \<noteq> []" "level_sorted ns"
  shows "level_sorted (at_path p (\<lambda>ns. ns @ [Node h n v []]) ns) \<and>
    depths (at_path p (\<lambda>ns. ns @ [Node h n v []]) ns) = depths ns"
  using assms
proof (induction p arbitrary: ns)
  case Nil
  then have "0 < depths ns" by (cases ns) simp_all
  then show ?case using Nil by (auto simp: level_sorted_def sorted_wrt_append depths_append)
next
  case (Cons i p)
  then have i: "i < length ns" "children_at p (children (ns ! i)) \<noteq> []" by (simp_all split: if_splits)
  let ?cs = "at_path p (\<lambda>ns. ns @ [Node h n v []]) (children (ns ! i))"
  let ?n = "node_with ?cs (ns ! i)"
  have "deepest_first (ns ! i)" using Cons.prems(2) i(1) by (simp add: level_sorted_def list_all_length)
  then have cs: "level_sorted ?cs" "depths ?cs = depths (children (ns ! i))"
    using Cons.IH [OF i(2)] by (simp_all add: deepest_first_children)
  then have n: "deepest_first ?n" "depth ?n = depth (ns ! i)" by (simp_all add: deepest_first_children depth_children)
  have "map depth (ns[i := ?n]) = map depth ns" using i(1) n(2) by (rule depths_update)
  moreover have "list_all deepest_first (ns[i := ?n])"
    using Cons.prems(2) n(1) set_update_subset_insert [of ns i ?n] by (auto simp: level_sorted_def list_all_iff)
  ultimately have "level_sorted (ns[i := ?n])" "depths (ns[i := ?n]) = depths ns"
    using Cons.prems(2) unfolding level_sorted_def depths_def by (simp_all flip: map_map [of Suc depth, unfolded comp_def])
  then show ?case using i(1) by (simp only: at_path_Cons)
qed

subsection \<open>Agreement with the ancestry\<close>

lemma hashes_inside:
  assumes "m \<in> set (preorders ns)"
  shows "hashes (children m) \<subseteq> hashes ns"
proof -
  from assms obtain c where c: "c \<in> set ns" "m \<in> set (preorder c)" by auto
  have "set (preorders (children m)) \<subseteq> set (preorder m)" using preorder_children [of m] by auto
  also have "\<dots> \<subseteq> set (preorder c)" using preorder_trans [OF c(2)] by auto
  finally show ?thesis using c(1) unfolding hashes_def by auto
qed

context ancestry
begin

lemma deepest_hash:
  assumes "wff ns" "h \<in> blocks" "deepest anc (\<lambda>_. True) h ns m" "x \<in> hashes ns" "anc x h"
  shows "x = hash m \<or> anc x (hash m)"
proof -
  obtain m' where m': "m' \<in> set (preorders ns)" "x = hash m'" using assms(4) by (auto simp: hashes_def)
  then have "m \<in> set (preorder m')" using assms(3,5) by (auto simp: deepest_def)
  then show ?thesis
    using wf_forest_inside [OF assms(1) m'(1)] preorder_children [of m'] m'(2) by (auto simp: wf_node_iff hashes_def)
qed

lemma node_at_hash: "node_at p ns = Some m \<Longrightarrow> wff ns \<Longrightarrow> hash m \<in> hashes ns \<and> hash m \<in> blocks"
  using node_at_preorder [of p ns m] wf_hashes [of ns] by (auto simp: hashes_def)

lemma hashes_nth: "i < length ns \<Longrightarrow> hashes [ns ! i] \<subseteq> hashes ns" "i < length ns \<Longrightarrow> hashes (children (ns ! i)) \<subseteq> hashes ns"
proof -
  show a: "i < length ns \<Longrightarrow> hashes [ns ! i] \<subseteq> hashes ns" by (rule hashes_mono) simp
  show "i < length ns \<Longrightarrow> hashes (children (ns ! i)) \<subseteq> hashes ns" using a by auto
qed

lemma hashes_branch:
  assumes "x \<in> hashes ns"
  obtains i where "i < length ns" "x \<in> hashes [ns ! i]"
proof -
  obtain c where c: "c \<in> set ns" "x \<in> hashes [c]" using assms by (subst (asm) hashes_Union) blast
  from c(1) obtain i where "i < length ns" "ns ! i = c" by (metis in_set_conv_nth)
  then show thesis using that c(2) by blast
qed

lemma wf_leaf: "h \<in> blocks \<Longrightarrow> wfn (Node h (num h) v [])"
  by (simp add: wf_node_iff)

lemma at_path_wf:
  assumes "h \<in> blocks"
  shows "wff ns \<Longrightarrow> node_at p ns = Some m \<Longrightarrow> anc (hash m) h \<Longrightarrow> (\<forall>x \<in> hashes ns. x \<noteq> h \<and> \<not> anc h x) \<Longrightarrow>
    (\<forall>x \<in> hashes ns. anc x h \<longrightarrow> x = hash m \<or> anc x (hash m)) \<Longrightarrow>
    wff (at_path p (\<lambda>ns. ns @ [Node h (num h) v []]) ns)"
proof (induction p arbitrary: ns)
  case (Cons i p)
  note IH = Cons.IH and prems = Cons.prems
  let ?add = "\<lambda>ns. ns @ [Node h (num h) v []]"
  have i: "i < length ns" "node_below p (ns ! i) = Some m"
    using prems(2) by (simp_all add: node_at_below split: if_splits)
  let ?cs = "children (ns ! i)"
  have w: "wfn (ns ! i)" "wff ?cs" using wf_forest_nth(1) [OF prems(1) i(1)] by (simp_all add: wf_node_iff)
  have m: "hash m \<in> hashes [ns ! i]" "hash m \<in> blocks"
    using node_below_preorder [OF i(2)] node_at_hash [OF prems(2,1)] by (simp_all add: hashes_def)
  have sub: "hashes ?cs \<subseteq> hashes ns" using hashes_nth(2) [OF i(1)] .
  have below: "wff (at_path p ?add ?cs) \<and> hashes (at_path p ?add ?cs) = insert h (hashes ?cs) \<and> anc (hash (ns ! i)) h"
  proof (cases p)
    case Nil
    then have mi: "m = ns ! i" using i(2) by simp
    have "\<not> anc x h" if "x \<in> hashes ?cs" for x
    proof
      assume "anc x h"
      moreover have "anc (hash m) x" "x \<in> blocks" using w wf_hashes [OF w(2)] that mi by (auto simp: wf_node_iff)
      ultimately show False
        using prems(5) [rule_format, OF subsetD [OF sub that]] anc_asym [OF m(2), of x] anc_irrefl [OF m(2)] by auto
    qed
    then have "unrelated anc c (Node h (num h) v [])" if "c \<in> set ?cs" for c
      using hashes_mono [of "[c]" ?cs] that prems(4) sub unfolding unrelated_def by (auto simp del: hashes_simps(2)) auto
    then show ?thesis
      using Nil mi prems(3) w(2) wf_leaf [OF assms] by (simp add: wf_forest_append wf_forest_Cons)
  next
    case (Cons j q)
    then have at: "node_at p ?cs = Some m" using i(2) by (simp add: node_at_below)
    have "anc (hash (ns ! i)) (hash m)" using node_at_hash [OF at w(2)] w(1) by (simp add: wf_node_iff)
    then have "anc (hash (ns ! i)) h" using anc_trans prems(3) w(1) m(2) assms by (meson wf_node_iff)
    moreover have "wff (at_path p ?add ?cs)"
      using prems(3-5) sub by (intro IH [OF w(2) at]) blast+
    ultimately show ?thesis using at_path_hashes [of p ?cs m "Node h (num h) v []"] at by simp
  qed
  let ?n = "node_with (at_path p ?add ?cs) (ns ! i)"
  have "wfn ?n" using below w(1) by (simp add: wf_node_iff)
  moreover have "unrelated anc ?n (ns ! j)" if j: "j < length ns" "j \<noteq> i" for j
  proof -
    have "\<not> anc y h" if "y \<in> hashes [ns ! j]" for y
      using one_branch [OF prems(1) i(1) j(1) m(1) that assms] prems(3) j(2) by blast
    moreover have "hashes [?n] = insert h (hashes [ns ! i])" using below by auto
    moreover have "unrelated anc (ns ! i) (ns ! j)" using wf_forest_nth(2) [OF prems(1) i(1) j(1)] j(2) by simp
    ultimately show ?thesis
      using prems(4) hashes_nth(1) [OF j(1)] unfolding unrelated_def by (auto simp del: hashes_simps(2))
  qed
  ultimately have "wff (ns[i := ?n])" by (rule wf_forest_update [OF prems(1) i(1)])
  then show ?case using i(1) by (simp only: at_path_Cons)
qed simp

text \<open>A node of the tree with the hash of the target is a child of the deepest ancestor.\<close>

lemma duplicate_child:
  assumes "h \<in> blocks"
  shows "wff ns \<Longrightarrow> node_at p ns = Some m \<Longrightarrow> anc (hash m) h \<Longrightarrow> h \<in> hashes ns \<Longrightarrow>
    (\<forall>x \<in> hashes ns. anc x h \<longrightarrow> x = hash m \<or> anc x (hash m)) \<Longrightarrow> h \<in> hash ` set (children m)"
proof (induction p arbitrary: ns)
  case (Cons i p)
  note IH = Cons.IH and prems = Cons.prems
  have i: "i < length ns" "node_below p (ns ! i) = Some m"
    using prems(2) by (simp_all add: node_at_below split: if_splits)
  let ?cs = "children (ns ! i)"
  have w: "wfn (ns ! i)" "wff ?cs" using wf_forest_nth(1) [OF prems(1) i(1)] by (simp_all add: wf_node_iff)
  have m: "hash m \<in> hashes [ns ! i]" "hash m \<in> blocks"
    using node_below_preorder [OF i(2)] node_at_hash [OF prems(2,1)] by (simp_all add: hashes_def)
  obtain j where j: "j < length ns" "h \<in> hashes [ns ! j]"
    using prems(4) by (rule hashes_branch)
  have "i = j" using one_branch [OF prems(1) i(1) j(1) m(1) j(2) assms] prems(3) by blast
  moreover have "hash (ns ! i) \<noteq> h"
  proof
    assume eq: "hash (ns ! i) = h"
    then have "hash m = h \<or> anc h (hash m)" using m(1) w(1) by (auto simp: wf_node_iff)
    then show False using prems(3) anc_irrefl [OF assms] anc_asym [OF assms m(2)] by auto
  qed
  ultimately have h: "h \<in> hashes ?cs" using j(2) by simp
  show ?case
  proof (cases p)
    case Nil
    then have mi: "m = ns ! i" using i(2) by simp
    obtain c where c: "c \<in> set ?cs" "h \<in> hashes [c]" using h by (subst (asm) hashes_Union) blast
    have c': "hash c \<in> hashes ?cs" "wfn c"
      using c(1) w(2) by (auto simp: hash_in_hashes wf_forest_def list_all_iff)
    have mc: "anc (hash m) (hash c)" "hash c \<in> blocks" using w(1) c' mi by (simp_all add: wf_node_iff)
    have "hash c \<in> hashes ns" using hashes_nth(2) [OF i(1)] c'(1) by (rule subsetD)
    then have "\<not> anc (hash c) h"
      using prems(5) mc(1) anc_asym [OF m(2) mc(2) mc(1)] anc_irrefl [OF m(2)] by auto
    then have "hash c = h" using c(2) c'(2) by (auto simp: wf_node_iff)
    then show ?thesis using c(1) mi by auto
  next
    case (Cons j q)
    then have "node_at p ?cs = Some m" using i(2) by (simp add: node_at_below)
    then show ?thesis using IH [OF w(2) _ prems(3) h] prems(5) hashes_nth(2) [OF i(1)] by blast
  qed
qed simp

lemma root_duplicate:
  assumes "h \<in> blocks" "wff ns" "no_ancestor anc (\<lambda>_. True) h ns" "h \<in> hashes ns"
  shows "h \<in> hash ` set ns"
proof -
  obtain c where c: "c \<in> set ns" "h \<in> hashes [c]" using assms(4) by (subst (asm) hashes_Union) blast
  then have "wfn c" using assms(2) by (simp add: wf_forest_def list_all_iff)
  moreover have "\<not> anc (hash c) h" using assms(3) c(1) node_in_preorder [of c] by (auto simp: no_ancestor_def simp del: node_in_preorder)
  ultimately show ?thesis using c by (auto simp: wf_node_iff)
qed

lemma root_leaf_wf:
  assumes "h \<in> blocks" "wff ns" "no_ancestor anc (\<lambda>_. True) h ns" "\<forall>x \<in> hashes ns. x \<noteq> h \<and> \<not> anc h x"
  shows "wff (ns @ [Node h (num h) v []])"
proof -
  have "\<not> anc x h" if "x \<in> hashes ns" for x using assms(3) that by (auto simp: no_ancestor_def hashes_def)
  then have "unrelated anc c (Node h (num h) v [])" if "c \<in> set ns" for c
    using hashes_mono [of "[c]" ns] that assms(4) unfolding unrelated_def by (auto simp del: hashes_simps(2)) auto
  then show ?thesis using assms(2) wf_leaf [OF assms(1)] by (simp add: wf_forest_append wf_forest_Cons)
qed

text \<open>The place the search gives, when it finds an ancestor and when it does not.\<close>

definition place_ok where
  "place_ok h v t r p \<longleftrightarrow>
     ((\<exists>elem \<in> set (children_at p (roots t)). hash elem = h) \<longleftrightarrow> h \<in> hashes (roots t)) \<and>
     (h \<notin> hashes (roots t) \<longrightarrow> wff (at_path p (\<lambda>ns. ns @ [Node h (num h) v []]) (roots t))) \<and>
     labels (at_path p (\<lambda>ns. ns @ [Node h (num h) v []]) (roots t)) = add_mset (h, num h, v) (labels (roots t)) \<and>
     (r = None \<longleftrightarrow> (\<forall>x \<in> hashes (roots t). \<not> anc x h))"

lemma place_root:
  assumes "h \<in> blocks" "wff (roots t)" "\<forall>x \<in> hashes (roots t). \<not> anc h x"
    "no_ancestor anc (\<lambda>_. True) h (roots t)"
  shows "place_ok h v t None []"
proof -
  have "h \<in> hash ` set (roots t) \<longleftrightarrow> h \<in> hashes (roots t)"
    using root_duplicate [OF assms(1,2,4)] hash_in_hashes by blast
  moreover have "\<forall>x \<in> hashes (roots t). \<not> anc x h" using assms(4) by (auto simp: no_ancestor_def hashes_def)
  moreover have "wff (roots t @ [Node h (num h) v []])" if "h \<notin> hashes (roots t)"
    using root_leaf_wf [OF assms(1,2,4)] assms(3) that by blast
  ultimately show ?thesis by (auto simp: place_ok_def label_def image_iff)
qed

lemma place_below:
  assumes "h \<in> blocks" "wff (roots t)" "\<forall>x \<in> hashes (roots t). \<not> anc h x"
    "node_at p (roots t) = Some m" "deepest anc (\<lambda>_. True) h (roots t) m"
  shows "place_ok h v t (Some p) p"
proof -
  have m: "anc (hash m) h" "hash m \<in> hashes (roots t)"
    using assms(5) node_at_hash [OF assms(4,2)] by (simp_all add: deepest_def)
  have above: "\<forall>x \<in> hashes (roots t). anc x h \<longrightarrow> x = hash m \<or> anc x (hash m)"
    using deepest_hash [OF assms(2,1,5)] by blast
  have "h \<in> hash ` set (children m) \<longleftrightarrow> h \<in> hashes (roots t)"
  proof
    assume "h \<in> hash ` set (children m)"
    then have "h \<in> hashes (children m)" using hash_in_hashes by fast
    then show "h \<in> hashes (roots t)" using hashes_inside [OF node_at_preorder [OF assms(4)]] by (rule rev_subsetD)
  qed (rule duplicate_child [OF assms(1,2,4) m(1) _ above])
  moreover have "wff (at_path p (\<lambda>ns. ns @ [Node h (num h) v []]) (roots t))" if "h \<notin> hashes (roots t)"
    using at_path_wf [OF assms(1,2,4) m(1) _ above] assms(3) that by blast
  ultimately show ?thesis
    using m at_path_labels [of p "roots t" m "Node h (num h) v []"] node_at_children [OF assms(4)] assms(4)
    by (auto simp: place_ok_def label_def image_iff)
qed

lemma find_place:
  assumes "h \<in> blocks" "wff (roots t)" "\<forall>x \<in> hashes (roots t). \<not> anc h x"
  shows "\<exists>r. find_node_index_where desc (\<lambda>_. True) h (num h) t = Inr r \<and>
    place_ok h v t r (case r of None \<Rightarrow> [] | Some p \<Rightarrow> p)"
proof -
  obtain r where r: "find_node_index_where desc (\<lambda>_. True) h (num h) t = Inr r" "case r of
      None \<Rightarrow> no_ancestor anc (\<lambda>_. True) h (roots t)
    | Some p \<Rightarrow> \<exists>m. node_at p (roots t) = Some m \<and> deepest anc (\<lambda>_. True) h (roots t) m"
    using find_deepest [OF assms(1,2), of "\<lambda>_. True"] by blast
  then show ?thesis
    using place_root [OF assms] place_below [OF assms] by (auto split: option.splits)
qed

text \<open>
  A block imported in order is refused exactly when the tree holds it; otherwise it is the one node
  added, as a root exactly when the tree holds no ancestor of it.
\<close>

lemma import_ok:
  assumes "h \<in> blocks" "wff (roots t)" "\<not> reverts (num h) t" "\<forall>x \<in> hashes (roots t). \<not> anc h x"
  shows "if h \<in> hashes (roots t) then fork_tree_import desc h (num h) v t = (Inl Duplicate, t)
    else \<exists>t'. fork_tree_import desc h (num h) v t = (Inr (\<forall>x \<in> hashes (roots t). \<not> anc x h), t') \<and>
      wff (roots t') \<and> labels (roots t') = add_mset (h, num h, v) (labels (roots t)) \<and>
      best_finalized_number t' = best_finalized_number t \<and> (level_sorted (roots t) \<longrightarrow> level_sorted (roots t'))"
proof -
  obtain r where r: "find_node_index_where desc (\<lambda>_. True) h (num h) t = Inr r"
      "place_ok h v t r (case r of None \<Rightarrow> [] | Some p \<Rightarrow> p)"
    using find_place [OF assms(1,2,4)] by blast
  define p where "p = (case r of None \<Rightarrow> [] | Some p \<Rightarrow> p)"
  define t1 where "t1 = t\<lparr>roots := at_path p (\<lambda>ns. ns @ [Node h (num h) v []]) (roots t)\<rparr>"
  note ok = r(2) [folded p_def, unfolded place_ok_def]
  have import_eq: "fork_tree_import desc h (num h) v t =
      (if h \<in> hashes (roots t) then (Inl Duplicate, t)
       else (Inr (r = None), if children_at p (roots t) = [] then rebalance t1 else t1))"
    using assms(3) ok by (simp add: fork_tree_import_def r(1) Let_def flip: p_def t1_def)
  show ?thesis
  proof (cases "h \<in> hashes (roots t)")
    case False
    define t' where "t' = (if children_at p (roots t) = [] then rebalance t1 else t1)"
    have "wff (roots t1)" "labels (roots t1) = add_mset (h, num h, v) (labels (roots t))"
      using ok False by (simp_all add: t1_def)
    then have "wff (roots t')" "labels (roots t') = add_mset (h, num h, v) (labels (roots t))"
      by (simp_all add: t'_def wf_forest_rebalance)
    moreover have "level_sorted (roots t) \<longrightarrow> level_sorted (roots t')"
      using at_path_sorted [of p "roots t"] by (auto simp: t'_def t1_def rebalance_level_sorted)
    moreover have "best_finalized_number t' = best_finalized_number t" by (simp add: t'_def t1_def rebalance_def)
    ultimately show ?thesis using False import_eq ok by (auto simp: t'_def)
  qed (simp add: import_eq)
qed

end

end
