(* ===== verification/Fork_Tree_Finalize.thy ===== *)
theory Fork_Tree_Finalize
  imports Fork_Tree_Import
begin

text \<open>
  Finalizing and pruning against the ancestry: what is left after finalizing a block is exactly what
  descends from it, and what is left after pruning is the branch of the new root that is in line with the target.
\<close>

subsection \<open>The loops over siblings\<close>

lemma retain_roots_filter:
  assumes "\<And>r. r \<in> set rs \<Longrightarrow> retain r = Inr (Q r)"
  shows "retain_roots retain rs kept changed = (Inr (changed \<or> (\<exists>r \<in> set rs. \<not> Q r)), kept @ filter Q rs)"
  using assms by (induction rs arbitrary: kept changed) auto

lemma keep_descendants_filter:
  assumes "\<And>c. c \<in> set cs \<Longrightarrow>
    (if number c = n \<and> hash c = h then Inr True else if n < number c then desc h (hash c) else Inr False) = Inr (Q c)"
  shows "keep_descendants desc h n cs kept removed = (Inr (removed @ filter (\<lambda>c. \<not> Q c) cs), kept @ filter Q cs)"
  using assms by (induction cs arbitrary: kept removed) auto

lemma below_root_ex:
  assumes "\<And>r. r \<in> set rs \<Longrightarrow> (if number r < n then desc (hash r) h else Inr False) = Inr (Q r)"
  shows "below_root desc h n rs = Inr (\<exists>r \<in> set rs. Q r)"
  using assms
proof (induction rs)
  case (Cons r rs)
  have "below_root desc h n rs = Inr (\<exists>r \<in> set rs. Q r)" by (rule Cons.IH) (simp add: Cons.prems)
  then show ?case using Cons.prems [of r] by (auto split: if_splits)
qed simp

lemma ancestor_child_first:
  assumes "\<And>c. c \<in> set cs \<Longrightarrow> (if number c < n then desc (hash c) h else Inr False) = Inr (Q c)"
  shows "ancestor_child desc h n i cs = Inr (map_option ((+) i) (position_of Q cs))"
  using assms
proof (induction cs arbitrary: i)
  case (Cons c cs)
  have "ancestor_child desc h n (Suc i) cs = Inr (map_option ((+) (Suc i)) (position_of Q cs))"
    by (rule Cons.IH) (simp add: Cons.prems)
  then show ?case using Cons.prems [of c] by (cases "position_of Q cs") (auto split: if_splits)
qed simp

lemma position_of_Some: "position_of P xs = Some i \<Longrightarrow> i < length xs \<and> P (xs ! i)"
  by (induction P xs arbitrary: i rule: position_of.induct) (auto split: if_splits)

lemma position_of_None: "position_of P xs = None \<longleftrightarrow> (\<forall>x \<in> set xs. \<not> P x)"
  by (induction P xs rule: position_of.induct) auto

lemma labels_filter: "labels (filter Q ns) + labels (filter (\<lambda>n. \<not> Q n) ns) = labels ns"
  by (induction ns) (auto simp: ac_simps)

lemma labels_remove_at: "i < length ns \<Longrightarrow> labels (remove_at i ns) + labels [ns ! i] = labels ns"
proof -
  assume "i < length ns"
  then have "ns = take i ns @ ns ! i # drop (Suc i) ns" by (rule id_take_nth_drop)
  then have "labels ns = labels (take i ns) + (labels [ns ! i] + labels (drop (Suc i) ns))"
    by (metis (no_types, opaque_lifting) append_Cons append_Nil labels_simps(3))
  then show ?thesis by (simp add: remove_at_def ac_simps)
qed

lemma mset_swap_remove: "i < length xs \<Longrightarrow> mset xs = add_mset (xs ! i) (mset (swap_remove i xs))"
proof -
  assume i: "i < length xs"
  then obtain zs z where xs: "xs = zs @ [z]" by (cases xs rule: rev_cases) auto
  show ?thesis
  proof (cases "i < length zs")
    case True
    then have "zs = take i zs @ zs ! i # drop (Suc i) zs" by (rule id_take_nth_drop)
    then have "mset zs = add_mset (zs ! i) (mset (take i zs) + mset (drop (Suc i) zs))"
      by (metis mset.simps(2) mset_append union_mset_add_mset_right)
    then show ?thesis using True by (simp add: xs swap_remove_def nth_append upd_conv_take_nth_drop)
  next
    case False
    then show ?thesis using i by (simp add: xs swap_remove_def nth_append)
  qed
qed

lemma take_swap_remove: "i < length xs \<Longrightarrow> take i (swap_remove i xs) = take i xs"
  by (cases xs rule: rev_cases) (auto simp: swap_remove_def)

subsection \<open>Pruning loses no node\<close>

lemma keep_descendants_labels:
  "keep_descendants desc h n cs kept removed = (Inr removed', kept') \<Longrightarrow>
     labels removed' + labels kept' = labels removed + labels kept + labels cs"
  by (induction desc h n cs kept removed rule: keep_descendants.induct)
    (auto simp: ac_simps split: sum.splits bool.splits)

lemma prune_below_labels:
  "prune_below desc h n node removed = (Inr removed', node') \<Longrightarrow>
     labels removed' + labels [node'] = labels removed + labels [node]"
proof (induction desc h n node removed arbitrary: removed' node' rule: prune_below.induct)
  case (1 desc h n ch cn cv cs removed)
  show ?case
  proof (cases "ancestor_child desc h n 0 cs")
    case (Inr found)
    show ?thesis
    proof (cases found)
      case None
      then show ?thesis
        using "1.prems" Inr keep_descendants_labels [of desc h n cs "[]" removed]
        by (auto simp: label_def split: prod.splits)
    next
      case (Some i)
      obtain next_node where below: "prune_below desc h n (cs ! i) (removed @ remove_at i cs) = (Inr removed', next_node)"
          "node' = Node ch cn cv [next_node]"
        using "1.prems" Inr Some by (auto split: prod.splits)
      have "i < length cs" using ancestor_child_less [of desc h n 0 cs i] Inr Some by simp
      then have "labels removed' + labels [next_node] = labels removed + labels cs"
        using "1.IH" [OF Inr Some below(1)] labels_remove_at [of i cs] by (simp add: add.assoc)
      then show ?thesis using below(2) by (simp add: label_def)
    qed
  qed (use "1.prems" in simp)
qed

lemma detach_labels:
  "node_at p ns = Some m \<Longrightarrow> labels (at_path (butlast p) (remove_at (last p)) ns) + labels [m] = labels ns"
proof (induction p ns rule: node_at.induct)
  case (2 i ns)
  then show ?case using labels_remove_at [of i ns] by (simp split: if_splits)
next
  case (3 i j path ns)
  then have i: "i < length ns" and at: "node_at (j # path) (children (ns ! i)) = Some m" by (simp_all split: if_splits)
  let ?cs = "at_path (butlast (j # path)) (remove_at (last (j # path))) (children (ns ! i))"
  have IH: "labels ?cs + labels [m] = labels (children (ns ! i))" using 3(1) [OF i at] .
  have eq: "at_path (butlast (i # j # path)) (remove_at (last (i # j # path))) ns = ns[i := node_with ?cs (ns ! i)]"
    using i at_path_Cons [OF i, of "butlast (j # path)" "remove_at (last (j # path))"] by simp
  have "labels (ns[i := node_with ?cs (ns ! i)]) + labels [m] + labels [ns ! i] =
      labels (ns[i := node_with ?cs (ns ! i)]) + labels [ns ! i] + labels [m]" by simp
  also have "\<dots> = labels ns + labels [node_with ?cs (ns ! i)] + labels [m]" by (simp only: labels_update [OF i])
  also have "\<dots> = labels ns + labels [ns ! i]" using IH by (simp add: add.assoc)
  finally show ?case unfolding eq by simp
qed simp

lemma prune_labels:
  assumes "prune desc P h n t = (Inr removed, t')"
  shows "mset removed + labels (roots t') = labels (roots t)"
proof (cases "find_node_index_where desc P h n t")
  case (Inr found)
  show ?thesis
  proof (cases "\<exists>p m. found = Some p \<and> node_at p (roots t) = Some m")
    case True
    then obtain p m where p: "found = Some p" "node_at p (roots t) = Some m" by blast
    let ?removed = "at_path (butlast p) (remove_at (last p)) (roots t)"
    obtain rem node where below: "prune_below desc h n m ?removed = (Inr rem, node)"
        and "removed = removed_iter rem" and t': "t' = rebalance (t\<lparr>roots := [node]\<rparr>)"
      using assms Inr p by (auto simp: prune_def Let_def split: prod.splits sum.splits)
    then have "mset removed + labels (roots t') = labels rem + labels [node]"
      by (simp only: removed_iter_labels labels_rebalance) simp
    then show ?thesis using prune_below_labels [OF below] detach_labels [OF p(2)] by simp
  next
    case False
    then have "removed = []" "t' = t" using assms Inr by (auto simp: prune_def split: option.splits)
    then show ?thesis by simp
  qed
qed (use assms in \<open>simp add: prune_def\<close>)

subsection \<open>What descends from the finalized block\<close>

abbreviation descendants :: "('h \<Rightarrow> 'h \<Rightarrow> bool) \<Rightarrow> 'h \<Rightarrow> ('h, 'n, 'v) node list \<Rightarrow> ('h \<times> 'n \<times> 'v) multiset" where
  "descendants anc h ns \<equiv> filter_mset (\<lambda>l. anc h (fst l)) (labels ns)"

lemma label_hash: "l \<in># labels ns \<Longrightarrow> fst l \<in> hashes ns"
  by (simp add: hashes_eq)

lemma filter_labels_all: "(\<And>x. x \<in> hashes ns \<Longrightarrow> P x) \<Longrightarrow> filter_mset (\<lambda>l. P (fst l)) (labels ns) = labels ns"
  by (simp add: filter_mset_eq_conv label_hash)

lemma filter_labels_none: "(\<And>x. x \<in> hashes ns \<Longrightarrow> \<not> P x) \<Longrightarrow> filter_mset (\<lambda>l. P (fst l)) (labels ns) = {#}"
  by (auto simp: multiset_eq_iff count_eq_zero_iff dest: label_hash)

lemma fst_label [simp]: "fst (label n) = hash n"
  by (simp add: label_def)

lemma unrelated_sub: "unrelated anc a b \<Longrightarrow> hashes [c] \<subseteq> hashes [a] \<Longrightarrow> unrelated anc c b"
  unfolding unrelated_def by blast

lemma label_root: "c \<in> set ns \<Longrightarrow> label c \<in># labels ns"
  by (induction ns) auto

context ancestry
begin

lemma branch_hashes:
  assumes "wfn c" "x \<in> hashes [c]"
  shows "x = hash c \<or> anc (hash c) x" "x \<in> blocks"
proof -
  show "x = hash c \<or> anc (hash c) x" using assms by (auto simp: wf_node_iff)
  have "wff [c]" using assms(1) by (simp add: wf_forest_def)
  then show "x \<in> blocks" using wf_hashes assms(2) by blast
qed

text \<open>The four ways a root can lie to the finalized block.\<close>

lemma descendants_below:
  assumes "h \<in> blocks" "wfn c" "anc h (hash c)"
  shows "descendants anc h [c] = labels [c]"
proof (rule filter_labels_all)
  fix x assume x: "x \<in> hashes [c]"
  have "hash c \<in> blocks" using assms(2) by (simp add: wf_node_iff)
  then show "anc h x" using branch_hashes [OF assms(2) x] assms(1,3) anc_trans by blast
qed

lemma descendants_self:
  assumes "h \<in> blocks" "wfn c" "hash c = h"
  shows "descendants anc h [c] = labels (children c)"
proof -
  have "descendants anc h (children c) = labels (children c)"
    by (rule filter_labels_all) (use assms in \<open>auto simp: wf_node_iff\<close>)
  then show ?thesis using assms(3) anc_irrefl [OF assms(1)] by simp
qed

lemma descendants_above:
  assumes "h \<in> blocks" "wfn c" "anc (hash c) h"
  shows "descendants anc h [c] = descendants anc h (children c)"
proof -
  have "hash c \<in> blocks" using assms(2) by (simp add: wf_node_iff)
  then show ?thesis using anc_asym assms(1,3) by simp
qed

lemma descendants_apart:
  assumes "h \<in> blocks" "wfn c" "hash c \<noteq> h" "\<not> anc (hash c) h" "\<not> anc h (hash c)"
  shows "descendants anc h [c] = {#}"
proof (rule filter_labels_none)
  fix x assume x: "x \<in> hashes [c]"
  have "hash c \<in> blocks" using assms(2) by (simp add: wf_node_iff)
  then show "\<not> anc h x" using branch_hashes [OF assms(2) x] anc_linear assms by metis
qed

lemma descendants_split:
  "descendants anc h ns = (\<Sum>c \<in># mset ns. descendants anc h [c])"
  by (induction ns) simp_all

lemma siblings_apart:
  assumes "wff ns" "i < length ns" "hash (ns ! i) = h" "h \<in> blocks" "j < length ns" "j \<noteq> i"
  shows "descendants anc h [ns ! j] = {#}"
proof -
  have "unrelated anc (ns ! i) (ns ! j)" using wf_forest_nth(2) [OF assms(1,2,5)] assms(6) by simp
  then have "hash (ns ! j) \<noteq> h \<and> \<not> anc (hash (ns ! j)) h \<and> \<not> anc h (hash (ns ! j))"
    using assms(3) by (auto simp: unrelated_def)
  then show ?thesis using wf_forest_nth(1) [OF assms(1,5)] assms(4) by (simp add: descendants_apart del: labels_simps)
qed

lemma root_opened:
  assumes "wff ns" "i < length ns" "hash (ns ! i) = h" "h \<in> blocks"
  shows "labels (children (ns ! i)) = descendants anc h ns"
proof -
  have ns: "ns = take i ns @ ns ! i # drop (Suc i) ns" using assms(2) by (rule id_take_nth_drop)
  have "descendants anc h [c] = {#}" if c: "c \<in> set (take i ns)" for c
  proof -
    obtain j where "j < i" "c = ns ! j" using c assms(2) by (auto simp: in_set_conv_nth)
    then show ?thesis using siblings_apart [OF assms, of j] assms(2) by simp
  qed
  moreover have "descendants anc h [c] = {#}" if c: "c \<in> set (drop (Suc i) ns)" for c
  proof -
    obtain j where "j < length ns - Suc i" "c = ns ! (Suc i + j)" using c by (auto simp: in_set_conv_nth)
    then show ?thesis using siblings_apart [OF assms, of "Suc i + j"] by simp
  qed
  ultimately have none: "descendants anc h (take i ns) = {#}" "descendants anc h (drop (Suc i) ns) = {#}"
    by (subst descendants_split, simp del: labels_simps)+
  have "descendants anc h ns = descendants anc h (take i ns) + descendants anc h [ns ! i] + descendants anc h (drop (Suc i) ns)"
    by (subst ns) (simp only: labels_simps(3) filter_union_mset append_Cons append_Nil labels_simps(2) labels_simps(1) add_0_right add.assoc)
  then show ?thesis using none descendants_self [OF assms(4) wf_forest_nth(1) [OF assms(1,2)] assms(3)] by simp
qed

lemma ask_above:
  assumes "h \<in> blocks" "wfn c"
  shows "(if number c < num h then desc (hash c) h else Inr False) = Inr (anc (hash c) h)"
  using assms answers anc_less by (auto simp: wf_node_iff)

lemma ask_below:
  assumes "h \<in> blocks" "wfn c"
  shows "(if num h < number c then desc h (hash c) else Inr False) = Inr (anc h (hash c))"
  using assms answers anc_less by (auto simp: wf_node_iff)

lemma wff_member: "wff ns \<Longrightarrow> c \<in> set ns \<Longrightarrow> wfn c"
  by (simp add: wf_forest_def list_all_iff)

lemma wff_filter: "wff ns \<Longrightarrow> wff (filter Q ns)"
  by (auto simp: wf_forest_def list_all_iff sorted_wrt_filter)

lemma wff_children: "wfn c \<Longrightarrow> wff (children c)"
  by (simp add: wf_node_iff)

lemma kept_descendants:
  assumes "h \<in> blocks" "\<And>c. c \<in> set ns \<Longrightarrow> wfn c \<and> hash c \<noteq> h \<and> \<not> anc (hash c) h"
  shows "labels (filter (\<lambda>c. anc h (hash c)) ns) = descendants anc h ns"
  using assms(2)
proof (induction ns)
  case (Cons c ns)
  have "descendants anc h (c # ns) = descendants anc h [c] + descendants anc h ns" by simp
  moreover have "descendants anc h [c] = (if anc h (hash c) then labels [c] else {#})"
    using Cons.prems [of c] assms(1) by (simp add: descendants_below descendants_apart del: labels_simps)
  ultimately show ?case using Cons by simp
qed simp

lemma finalize_ok:
  assumes "h \<in> blocks" "wff (roots t)" "\<not> reverts (num h) t"
  shows "if \<exists>c \<in> set (roots t). anc (hash c) h then finalize desc h (num h) t = (Inl UnfinalizedAncestor, t)
    else \<exists>r t'. finalize desc h (num h) t = (Inr r, t') \<and> wff (roots t') \<and>
      labels (roots t') = descendants anc h (roots t) \<and> best_finalized_number t' = Some (num h) \<and>
      (case r of Changed (Some v) \<Rightarrow> (h, num h, v) \<in># labels (roots t) | Changed None \<Rightarrow> roots t' \<noteq> roots t | Unchanged \<Rightarrow> roots t' = roots t)"
proof (cases "position_of (\<lambda>node. hash node = h) (roots t)")
  case (Some i)
  then have i: "i < length (roots t)" "hash (roots t ! i) = h" using position_of_Some by fastforce+
  let ?c = "roots t ! i"
  have w: "wfn ?c" using wf_forest_nth(1) [OF assms(2) i(1)] .
  have "\<not> anc (hash c) h" if c: "c \<in> set (roots t)" for c
  proof
    assume a: "anc (hash c) h"
    obtain j where j: "j < length (roots t)" "c = roots t ! j" using c by (metis in_set_conv_nth)
    have "i = j" using one_branch [OF assms(2) i(1) j(1), of h "hash c" h] i j a assms(1) by simp
    then show False using a i(2) j(2) anc_irrefl [OF assms(1)] by simp
  qed
  moreover have "label ?c \<in># labels (roots t)" using i(1) by (intro label_root nth_mem)
  moreover have "number ?c = num h" using w i(2) by (simp add: wf_node_iff)
  ultimately show ?thesis
    using assms(3) Some i w root_opened [OF assms(2) i assms(1)] wff_children [OF w]
    by (auto simp: finalize_def finalize_root_def finalize_root_at_def Let_def label_def)
next
  case None
  then have no: "hash c \<noteq> h" if "c \<in> set (roots t)" for c using that by (auto simp: position_of_None)
  have below: "below_root desc h (num h) (roots t) = Inr (\<exists>c \<in> set (roots t). anc (hash c) h)"
    by (rule below_root_ex) (rule ask_above [OF assms(1) wff_member [OF assms(2)]])
  let ?Q = "\<lambda>c. anc h (hash c)"
  have retain: "retain_roots (\<lambda>root. if num h < number root then desc h (hash root) else Inr False) (roots t) [] False =
      (Inr (\<exists>c \<in> set (roots t). \<not> ?Q c), filter ?Q (roots t))"
    using retain_roots_filter [of "roots t" "\<lambda>root. if num h < number root then desc h (hash root) else Inr False" ?Q "[]" False]
      ask_below [OF assms(1) wff_member [OF assms(2)]] by simp
  have eq: "filter ?Q (roots t) = roots t \<longleftrightarrow> \<not> (\<exists>c \<in> set (roots t). \<not> ?Q c)" by (auto simp: filter_id_conv)
  show ?thesis
    using assms(3) None below kept_descendants [OF assms(1), of "roots t"] no wff_member [OF assms(2)] wff_filter [OF assms(2)] eq
    by (auto simp: finalize_def finalize_root_def retain Let_def)
qed

subsection \<open>Finalizing with ancestors\<close>

lemma wff_swap_remove:
  assumes "wff ns" "i < length ns"
  shows "wff (swap_remove i ns)" "wff (swap_remove i ns @ children (ns ! i))"
    "descendants anc h (swap_remove i ns) + descendants anc h [ns ! i] = descendants anc h ns"
proof -
  have m: "mset ns = mset (ns ! i # swap_remove i ns)" using mset_swap_remove [OF assms(2)] by simp
  then have w: "wff (ns ! i # swap_remove i ns)" using assms(1) by (rule wf_forest_mset)
  then show "wff (swap_remove i ns)" by (simp add: wf_forest_Cons)
  have "unrelated anc a c" if ac: "a \<in> set (swap_remove i ns)" "c \<in> set (children (ns ! i))" for a c
  proof -
    have "unrelated anc (ns ! i) a" using w ac(1) by (simp add: wf_forest_Cons)
    moreover have "hashes [c] \<subseteq> hashes [ns ! i]" using hashes_mono [of "[c]" "children (ns ! i)"] ac(2) by auto
    ultimately show ?thesis by (rule unrelated_sym [OF unrelated_sub])
  qed
  then show "wff (swap_remove i ns @ children (ns ! i))"
    using w by (simp add: wf_forest_append wf_forest_Cons wff_children)
  have "labels ns = labels [ns ! i] + labels (swap_remove i ns)" using labels_mset [OF m] by simp
  then show "descendants anc h (swap_remove i ns) + descendants anc h [ns ! i] = descendants anc h ns"
    by (simp del: labels_simps add: add.commute)
qed

definition loop_result where
  "loop_result h D out \<longleftrightarrow> (case out of
     (Inr (Met j), rs') \<Rightarrow> wff rs' \<and> j < length rs' \<and> hash (rs' ! j) = h \<and> descendants anc h rs' = D
   | (Inr (Done c), rs') \<Rightarrow> wff rs' \<and> (\<forall>r \<in> set rs'. anc h (hash r)) \<and> descendants anc h rs' = D
   | _ \<Rightarrow> False)"

declare ancestors_loop.simps [simp del]

lemma ancestors_loop_ok:
  assumes "h \<in> blocks"
  shows "wff rs \<Longrightarrow> idx \<le> length rs \<Longrightarrow> (\<forall>r \<in> set (take idx rs). anc h (hash r)) \<Longrightarrow>
    loop_result h (descendants anc h rs) (ancestors_loop desc h (num h) idx changed rs)"
proof (induction "nodes_size (drop idx rs)" arbitrary: idx changed rs rule: less_induct)
  case less
  show ?case
  proof (cases "idx < length rs")
    case False
    then show ?thesis using less.prems by (subst ancestors_loop.simps) (simp add: loop_result_def)
  next
    case True
    let ?c = "rs ! idx"
    have w: "wfn ?c" using wf_forest_nth(1) [OF less.prems(1) True] .
    consider (self) "hash ?c = h" | (desc) "hash ?c \<noteq> h" "anc h (hash ?c)"
      | (anc) "hash ?c \<noteq> h" "\<not> anc h (hash ?c)" "anc (hash ?c) h"
      | (apart) "hash ?c \<noteq> h" "\<not> anc h (hash ?c)" "\<not> anc (hash ?c) h" by blast
    then show ?thesis
    proof cases
      case self
      then show ?thesis using True less.prems by (subst ancestors_loop.simps) (simp add: loop_result_def)
    next
      case desc
      have "ancestors_loop desc h (num h) idx changed rs = ancestors_loop desc h (num h) (Suc idx) changed rs"
        using True desc ask_below [OF assms w] by (subst ancestors_loop.simps) simp
      moreover have "loop_result h (descendants anc h rs) (ancestors_loop desc h (num h) (Suc idx) changed rs)"
        using True desc less.prems by (intro less.hyps ancestors_measure) (auto simp: take_Suc_conv_app_nth)
      ultimately show ?thesis by simp
    next
      case anc
      let ?rs = "swap_remove idx rs @ children ?c"
      have "ancestors_loop desc h (num h) idx changed rs = ancestors_loop desc h (num h) idx True ?rs"
        using True anc ask_below [OF assms w] ask_above [OF assms w] by (subst ancestors_loop.simps) simp
      moreover have "loop_result h (descendants anc h ?rs) (ancestors_loop desc h (num h) idx True ?rs)"
        using True wff_swap_remove(2) [OF less.prems(1) True] less.prems(3) take_swap_remove [OF True]
        by (intro less.hyps ancestors_measure) auto
      moreover have "descendants anc h ?rs = descendants anc h rs"
        using wff_swap_remove(3) [OF less.prems(1) True, of h] descendants_above [OF assms w anc(3)] by simp
      ultimately show ?thesis by (simp only:)
    next
      case apart
      let ?rs = "swap_remove idx rs"
      have "ancestors_loop desc h (num h) idx changed rs = ancestors_loop desc h (num h) idx True ?rs"
        using True apart ask_below [OF assms w] ask_above [OF assms w] by (subst ancestors_loop.simps) simp
      moreover have "loop_result h (descendants anc h ?rs) (ancestors_loop desc h (num h) idx True ?rs)"
        using True wff_swap_remove(1) [OF less.prems(1) True] less.prems(3) take_swap_remove [OF True]
        by (intro less.hyps ancestors_measure) auto
      moreover have "descendants anc h ?rs = descendants anc h rs"
        using wff_swap_remove(3) [OF less.prems(1) True, of h] descendants_apart [OF assms w apart(1,3,2)] by simp
      ultimately show ?thesis by (simp only:)
    qed
  qed
qed

lemma finalize_with_ancestors_ok:
  assumes "h \<in> blocks" "wff (roots t)" "\<not> reverts (num h) t"
  shows "\<exists>r t'. finalize_with_ancestors desc h (num h) t = (Inr r, t') \<and> wff (roots t') \<and>
      labels (roots t') = descendants anc h (roots t) \<and> best_finalized_number t' = Some (num h)"
proof (cases "position_of (\<lambda>node. hash node = h) (roots t)")
  case (Some i)
  then have i: "i < length (roots t)" "hash (roots t ! i) = h" using position_of_Some by fastforce+
  have w: "wfn (roots t ! i)" using wf_forest_nth(1) [OF assms(2) i(1)] .
  then have "number (roots t ! i) = num h" using i(2) by (simp add: wf_node_iff)
  then show ?thesis
    using assms(3) Some root_opened [OF assms(2) i assms(1)] wff_children [OF w]
    by (simp add: finalize_with_ancestors_def finalize_root_def finalize_root_at_def Let_def)
next
  case None
  obtain r rs where loop: "ancestors_loop desc h (num h) 0 False (roots t) = (r, rs)" by fastforce
  have ok: "loop_result h (descendants anc h (roots t)) (r, rs)"
    using ancestors_loop_ok [OF assms(1,2), of 0 False] by (simp add: loop)
  then obtain step where step: "r = Inr step" by (auto simp: loop_result_def split: sum.splits)
  show ?thesis
  proof (cases step)
    case (Met j)
    then have j: "wff rs" "j < length rs" "hash (rs ! j) = h" "descendants anc h rs = descendants anc h (roots t)"
      using ok step by (simp_all add: loop_result_def)
    have w: "wfn (rs ! j)" using wf_forest_nth(1) [OF j(1,2)] .
    then have "number (rs ! j) = num h" using j(3) by (simp add: wf_node_iff)
    then show ?thesis
      using assms(3) None Met step loop root_opened [OF j(1-3) assms(1)] wff_children [OF w] j(4)
      by (simp add: finalize_with_ancestors_def finalize_root_def finalize_root_at_def Let_def)
  next
    case (Done c)
    then have d: "wff rs" "\<forall>r \<in> set rs. anc h (hash r)" "descendants anc h rs = descendants anc h (roots t)"
      using ok step by (simp_all add: loop_result_def)
    have "descendants anc h rs = labels rs"
    proof (rule filter_labels_all)
      fix x assume "x \<in> hashes rs"
      then obtain i where i: "i < length rs" "x \<in> hashes [rs ! i]" by (rule hashes_branch)
      have w: "wfn (rs ! i)" using wf_forest_nth(1) [OF d(1) i(1)] .
      then have "hash (rs ! i) \<in> blocks" by (simp add: wf_node_iff)
      then show "anc h x" using branch_hashes [OF w i(2)] d(2) nth_mem [OF i(1)] anc_trans assms(1) by blast
    qed
    then show ?thesis using assms(3) None Done step loop d by (simp add: finalize_with_ancestors_def finalize_root_def Let_def)
  qed
qed

end

end
