(* ===== verification/Fork_Tree_Prune.thy ===== *)
theory Fork_Tree_Prune
  imports Fork_Tree_Finalize
begin

text \<open>
  What pruning keeps: below the deepest ancestor that passes the predicate, the nodes that are
  ancestors of the target, the target, and its descendants.
\<close>

definition in_line :: "('h \<Rightarrow> 'h \<Rightarrow> bool) \<Rightarrow> 'h \<Rightarrow> 'h \<Rightarrow> bool" where
  "in_line anc h x \<longleftrightarrow> anc x h \<or> x = h \<or> anc h x"

abbreviation lineage :: "('h \<Rightarrow> 'h \<Rightarrow> bool) \<Rightarrow> 'h \<Rightarrow> ('h, 'n, 'v) node list \<Rightarrow> ('h \<times> 'n \<times> 'v) multiset" where
  "lineage anc h ns \<equiv> filter_mset (\<lambda>l. in_line anc h (fst l)) (labels ns)"

context ancestry
begin

lemma lineage_below:
  assumes "h \<in> blocks" "wfn c" "hash c = h \<or> anc h (hash c)"
  shows "lineage anc h [c] = labels [c]"
proof (rule filter_labels_all)
  fix x assume x: "x \<in> hashes [c]"
  have "hash c \<in> blocks" using assms(2) by (simp add: wf_node_iff)
  then show "in_line anc h x"
    using branch_hashes [OF assms(2) x] assms(1,3) anc_trans [of h "hash c" x] unfolding in_line_def by blast
qed

lemma lineage_apart:
  assumes "h \<in> blocks" "wfn c" "\<not> in_line anc h (hash c)"
  shows "lineage anc h [c] = {#}"
proof (rule filter_labels_none)
  fix x assume x: "x \<in> hashes [c]"
  have c: "hash c \<in> blocks" using assms(2) by (simp add: wf_node_iff)
  show "\<not> in_line anc h x"
    using branch_hashes [OF assms(2) x] c assms anc_trans [of "hash c" x h] anc_linear [of "hash c" h x]
    unfolding in_line_def by blast
qed

lemma lineage_siblings:
  assumes "wff cs" "i < length cs" "anc (hash (cs ! i)) h" "h \<in> blocks"
  shows "lineage anc h cs = lineage anc h [cs ! i]"
proof -
  let ?c = "cs ! i"
  have w: "wfn ?c" "hash ?c \<in> blocks" using wf_forest_nth(1) [OF assms(1,2)] by (simp_all add: wf_node_iff)
  have "lineage anc h (remove_at i cs) = {#}"
  proof (rule filter_labels_none)
    fix x assume "x \<in> hashes (remove_at i cs)"
    then obtain d where d: "d \<in> set (remove_at i cs)" "x \<in> hashes [d]" by (subst (asm) hashes_Union) blast
    then consider (before) "d \<in> set (take i cs)" | (after) "d \<in> set (drop (Suc i) cs)" by (auto simp: remove_at_def)
    then obtain j where j: "j < length cs" "j \<noteq> i" "d = cs ! j"
    proof cases
      case before
      then obtain j where "j < i" "d = cs ! j" using assms(2) by (auto simp: in_set_conv_nth)
      then show thesis using assms(2) by (intro that) simp_all
    next
      case after
      then obtain j where "j < length cs - Suc i" "d = cs ! (Suc i + j)" by (auto simp: in_set_conv_nth)
      then show thesis by (intro that) simp_all
    qed
    have x: "x \<in> blocks" using branch_hashes(2) wf_forest_nth(1) [OF assms(1) j(1)] d(2) j(3) by blast
    have "unrelated anc ?c d" using wf_forest_nth(2) [OF assms(1,2) j(1)] j by simp
    then have "\<not> anc (hash ?c) x" "\<not> anc x (hash ?c)" "x \<noteq> hash ?c"
      using d(2) by (auto simp: unrelated_def)
    then show "\<not> in_line anc h x"
      using anc_trans [OF w(2) assms(4) x assms(3)] anc_linear [OF w(2) x assms(4,3)] assms(3)
      unfolding in_line_def by blast
  qed
  moreover have "labels cs = labels (remove_at i cs) + labels [?c]" using labels_remove_at [OF assms(2)] by simp
  ultimately show ?thesis by (simp del: labels_simps)
qed

lemma prune_below_ok:
  assumes "h \<in> blocks"
  shows "wfn node \<Longrightarrow> anc (hash node) h \<Longrightarrow>
    \<exists>removed' node'. prune_below desc h (num h) node removed = (Inr removed', node') \<and> hash node' = hash node \<and>
      wfn node' \<and> labels [node'] = lineage anc h [node]"
proof (induction "node_size node" arbitrary: node removed rule: less_induct)
  case less
  obtain ch cn cv cs where node: "node = Node ch cn cv cs" by (cases node)
  have w: "wff cs" "ch \<in> blocks" "cn = num ch" "\<forall>x \<in> hashes cs. anc ch x"
    using less.prems(1) by (simp_all add: node wf_node_iff)
  have wc: "wfn c" if "c \<in> set cs" for c using wff_member [OF w(1) that] .
  have found: "ancestor_child desc h (num h) 0 cs = Inr (position_of (\<lambda>c. anc (hash c) h) cs)"
    using ancestor_child_first [of cs "num h" desc h "\<lambda>c. anc (hash c) h" 0] ask_above [OF assms wc]
    by (simp add: option.map_ident cong: map_option_cong)
  show ?case
  proof (cases "position_of (\<lambda>c. anc (hash c) h) cs")
    case (Some i)
    then have i: "i < length cs" "anc (hash (cs ! i)) h" using position_of_Some by fastforce+
    have "node_size (cs ! i) < node_size node"
      using node_size_member [OF nth_mem [OF i(1)]] by (simp add: node)
    then obtain rem c where c: "prune_below desc h (num h) (cs ! i) (removed @ remove_at i cs) = (Inr rem, c)"
        "hash c = hash (cs ! i)" "wfn c" "labels [c] = lineage anc h [cs ! i]"
      using less.hyps [OF _ wf_forest_nth(1) [OF w(1) i(1)] i(2), of "removed @ remove_at i cs"] by blast
    have eq: "labels [c] = lineage anc h cs" using c(4) lineage_siblings [OF w(1) i assms] by simp
    have "hashes [c] \<subseteq> hashes cs"
      unfolding hashes_eq eq by auto
    then have "wfn (Node ch cn cv [c])" using w c(3) by (auto simp: wf_node_iff wf_forest_Cons simp del: hashes_simps(2))
    then show ?thesis
      using c(1) found Some less.prems(2) eq by (simp add: node in_line_def label_def)
  next
    case None
    then have no: "\<not> anc (hash c) h" if "c \<in> set cs" for c using that by (auto simp: position_of_None)
    let ?Q = "\<lambda>c. hash c = h \<or> anc h (hash c)"
    have keep: "keep_descendants desc h (num h) cs [] removed = (Inr (removed @ filter (\<lambda>c. \<not> ?Q c) cs), filter ?Q cs)"
    proof -
      have "(if number c = num h \<and> hash c = h then Inr True else if num h < number c then desc h (hash c) else Inr False) = Inr (?Q c)"
        if "c \<in> set cs" for c
        using ask_below [OF assms wc [OF that]] wc [OF that] by (auto simp: wf_node_iff)
      then show ?thesis using keep_descendants_filter [of cs "num h" h desc ?Q "[]" removed] by simp
    qed
    have "labels (filter ?Q ds) = lineage anc h ds" if "set ds \<subseteq> set cs" for ds
      using that
    proof (induction ds)
      case (Cons d ds)
      have d: "wfn d" "\<not> anc (hash d) h" using Cons.prems wc no by simp_all
      have "lineage anc h [d] = (if ?Q d then labels [d] else {#})"
      proof (cases "?Q d")
        case True
        then show ?thesis using lineage_below [OF assms d(1) True] by simp
      next
        case False
        then have "\<not> in_line anc h (hash d)" using d(2) by (simp add: in_line_def)
        then show ?thesis using lineage_apart [OF assms d(1)] False by simp
      qed
      moreover have "lineage anc h (d # ds) = lineage anc h [d] + lineage anc h ds" by simp
      ultimately show ?case using Cons by simp
    qed simp
    then have lab: "labels (filter ?Q cs) = lineage anc h cs" by blast
    have "hashes (filter ?Q cs) \<subseteq> hashes cs" by (rule hashes_mono) auto
    then have "wfn (Node ch cn cv (filter ?Q cs))" using w wff_filter [OF w(1)] by (auto simp: wf_node_iff)
    then show ?thesis
      using keep found None less.prems(2) lab by (simp add: node in_line_def label_def)
  qed
qed

lemma prune_ok:
  assumes "h \<in> blocks" "wff (roots t)"
  shows "if no_ancestor anc P h (roots t) then prune desc P h (num h) t = (Inr [], t)
    else \<exists>m removed t'. prune desc P h (num h) t = (Inr removed, t') \<and> deepest anc P h (roots t) m \<and> wff (roots t') \<and>
      labels (roots t') = lineage anc h [m] \<and> mset removed + labels (roots t') = labels (roots t) \<and> level_sorted (roots t')"
proof -
  obtain r where r: "find_node_index_where desc P h (num h) t = Inr r" "case r of
      None \<Rightarrow> no_ancestor anc P h (roots t)
    | Some p \<Rightarrow> \<exists>m. node_at p (roots t) = Some m \<and> deepest anc P h (roots t) m"
    using find_deepest [OF assms, of P] by blast
  show ?thesis
  proof (cases r)
    case None
    then show ?thesis using r by (simp add: prune_def)
  next
    case (Some p)
    then obtain m where m: "node_at p (roots t) = Some m" "deepest anc P h (roots t) m" using r(2) by auto
    then have "\<not> no_ancestor anc P h (roots t)" by (auto simp: no_ancestor_def deepest_def)
    moreover have "wfn m" "anc (hash m) h"
      using m wf_forest_inside [OF assms(2) node_at_preorder [OF m(1)]] by (simp_all add: deepest_def)
    then obtain rem node where p: "prune_below desc h (num h) m (at_path (butlast p) (remove_at (last p)) (roots t)) = (Inr rem, node)"
        "wfn node" "labels [node] = lineage anc h [m]"
      using prune_below_ok [OF assms(1)] by blast
    have prune: "prune desc P h (num h) t = (Inr (removed_iter rem), rebalance (t\<lparr>roots := [node]\<rparr>))"
      using r(1) Some m(1) p(1) by (simp add: prune_def Let_def)
    moreover have "wff (roots (rebalance (t\<lparr>roots := [node]\<rparr>)))"
      by (rule wf_forest_rebalance) (simp add: wf_forest_Cons p(2))
    moreover have "labels (roots (rebalance (t\<lparr>roots := [node]\<rparr>))) = lineage anc h [m]"
      using p(3) by (simp only: labels_rebalance) simp
    ultimately show ?thesis using m(2) prune_labels [OF prune] rebalance_level_sorted by (auto simp del: labels_simps)
  qed
qed

end

end
