(* ===== verification/Fork_Tree_Rebuild.thy ===== *)
theory Fork_Tree_Rebuild
  imports Fork_Tree_Shape
begin

text \<open>
  Mapping and filtering walk the tree level by level, write an array of nodes that know the index of
  their parent, and put the tree together from the end of the array.  Here both are shown equal to
  the recursive definitions, with siblings in their order.
\<close>

subsection \<open>Putting the tree together\<close>

lemmas loop_equations = rebuild_loop.simps map_loop.simps filter_loop.simps

declare loop_equations [simp del]

lemma rebuild_nil [simp]: "rebuild_loop [] rs = rs"
  by (simp add: rebuild_loop.simps)

lemma rebuild_root: "rebuild_loop (out @ [(None, n)]) rs = rebuild_loop out (rs @ [n])"
  by (subst rebuild_loop.simps) simp

definition adopt :: "('h, 'n, 'v) node list \<Rightarrow> ('h, 'n, 'v) indexed \<Rightarrow> ('h, 'n, 'v) indexed" where
  "adopt cs e = (case e of (p, Node h n v ds) \<Rightarrow> (p, Node h n v (ds @ cs)))"

lemma adopt_nil [simp]: "adopt [] e = e"
  by (simp add: adopt_def split: prod.split node.split)

lemma adopt_adopt: "adopt cs (adopt ds e) = adopt (ds @ cs) e"
  by (simp add: adopt_def split: prod.split node.split)

lemma rebuild_child:
  "p < length out \<Longrightarrow> rebuild_loop (out @ [(Some p, n)]) rs = rebuild_loop (out[p := adopt [n] (out ! p)]) rs"
  by (subst rebuild_loop.simps) (simp add: adopt_def push_child_def split: prod.split node.split)

lemma rebuild_children:
  "p < length out \<Longrightarrow>
     rebuild_loop (out @ map (Pair (Some p)) (rev cs)) rs = rebuild_loop (out[p := adopt cs (out ! p)]) rs"
proof (induction cs arbitrary: out)
  case (Cons c cs)
  have "rebuild_loop (out @ map (Pair (Some p)) (rev (c # cs))) rs =
      rebuild_loop ((out[p := adopt [c] (out ! p)]) @ map (Pair (Some p)) (rev cs)) rs"
    using Cons.prems rebuild_child [of p "out @ map (Pair (Some p)) (rev cs)" c rs]
    by (simp add: nth_append list_update_append)
  then show ?case using Cons by (simp add: adopt_adopt)
qed simp

lemma rebuild_roots: "rebuild_loop (map (Pair None) (rev ns)) rs = rs @ ns"
  by (induction ns arbitrary: rs) (simp_all add: rebuild_root)

text \<open>The entries for the children of a level that starts at an index of the output.\<close>

fun attach :: "nat \<Rightarrow> 'a list list \<Rightarrow> (nat option \<times> 'a) list" where
  "attach k [] = []"
| "attach k (cs # css) = map (Pair (Some k)) (rev cs) @ attach (Suc k) css"

lemma attach_snoc: "attach k (css @ [cs]) = attach k css @ map (Pair (Some (k + length css))) (rev cs)"
  by (induction css arbitrary: k) simp_all

lemma rebuild_attach:
  "rebuild_loop (out @ map fst L @ Z @ attach (length out) (map snd L)) rs =
     rebuild_loop (out @ map (\<lambda>(e, cs). adopt cs e) L @ Z) rs"
proof (induction L arbitrary: Z rule: rev_induct)
  case (snoc x L)
  obtain e cs where x: "x = (e, cs)" by (cases x)
  let ?out = "out @ map fst L @ [e] @ Z @ attach (length out) (map snd L)"
  have nth: "?out ! (length out + length L) = e" by (simp add: nth_append)
  have upd: "?out[length out + length L := y] = out @ map fst L @ [y] @ Z @ attach (length out) (map snd L)" for y
    by (simp add: list_update_append)
  have "rebuild_loop (?out @ map (Pair (Some (length out + length L))) (rev cs)) rs =
      rebuild_loop (?out[length out + length L := adopt cs e]) rs"
    using rebuild_children [of "length out + length L" ?out cs rs] unfolding nth by simp
  then show ?case using snoc.IH [of "adopt cs e # Z"] unfolding upd x by (simp add: attach_snoc)
qed simp

subsection \<open>Mapping\<close>

primrec mapped_node :: "('h \<Rightarrow> 'n \<Rightarrow> 'v \<Rightarrow> 'w) \<Rightarrow> ('h, 'n, 'v) node \<Rightarrow> ('h, 'n, 'w) node" where
  "mapped_node f (Node h n v cs) = Node h n (f h n v) (map (mapped_node f) cs)"

definition strip :: "('h \<Rightarrow> 'n \<Rightarrow> 'v \<Rightarrow> 'w) \<Rightarrow> ('h, 'n, 'v) node \<Rightarrow> ('h, 'n, 'w) node" where
  "strip f n = Node (hash n) (number n) (f (hash n) (number n) (data n)) []"

lemma map_level_eq:
  "map_level f queue out next_queue =
     (out @ map (apsnd (strip f)) queue, next_queue @ attach (length out) (map (children \<circ> snd) queue))"
  by (induction f queue out next_queue rule: map_level.induct) (simp_all add: strip_def)

lemma adopt_strip: "adopt (map (mapped_node f) (children n)) (p, strip f n) = (p, mapped_node f n)"
  by (cases n) (simp add: adopt_def strip_def)

lemma map_attach: "map (apsnd g) (attach k css) = attach k (map (map g) css)"
  by (induction css arbitrary: k) (simp_all add: rev_map)

lemma rebuild_map_loop:
  "rebuild_loop (map_loop f queue out) rs = rebuild_loop (out @ map (apsnd (mapped_node f)) queue) rs"
proof (induction f queue out rule: map_loop.induct)
  case (1 f queue out)
  show ?case
  proof (cases "queue = []")
    case False
    let ?L = "map (\<lambda>(p, n). ((p, strip f n), map (mapped_node f) (children n))) queue"
    have L: "map fst ?L = map (apsnd (strip f)) queue"
      "map snd ?L = map (map (mapped_node f)) (map (children \<circ> snd) queue)"
      "map (\<lambda>(e, cs). adopt cs e) ?L = map (apsnd (mapped_node f)) queue"
      by (auto simp: adopt_strip)
    show ?thesis
      using 1 [OF False refl] rebuild_attach [of out ?L "[]" rs] False
      unfolding L by (subst map_loop.simps) (simp add: map_level_eq map_attach)
  qed (simp add: map_loop.simps)
qed

lemma fork_tree_map_eq: "fork_tree_map f t = \<lparr>roots = map (mapped_node f) (roots t),
    best_finalized_number = best_finalized_number t\<rparr>"
proof -
  have "map (apsnd (mapped_node f)) (map (Pair (None :: nat option)) (rev (roots t))) =
      map (Pair None) (rev (map (mapped_node f) (roots t)))"
    by (simp add: rev_map)
  then show ?thesis
    unfolding fork_tree_map_def rebuild_map_loop by (simp only: append_Nil rebuild_roots)
qed

subsection \<open>Filtering\<close>

primrec kept_nodes :: "('h \<Rightarrow> 'n \<Rightarrow> 'v \<Rightarrow> filter_action) \<Rightarrow> ('h, 'n, 'v) node \<Rightarrow> ('h, 'n, 'v) node list" where
  "kept_nodes f (Node h n v cs) = (case f h n v of
     Remove \<Rightarrow> []
   | KeepNode \<Rightarrow> [Node h n v (concat (map (kept_nodes f) cs))]
   | KeepTree \<Rightarrow> [Node h n v cs])"

primrec cut_nodes :: "('h \<Rightarrow> 'n \<Rightarrow> 'v \<Rightarrow> filter_action) \<Rightarrow> ('h, 'n, 'v) node \<Rightarrow> ('h, 'n, 'v) node list" where
  "cut_nodes f (Node h n v cs) = (case f h n v of
     Remove \<Rightarrow> [Node h n v cs]
   | KeepNode \<Rightarrow> concat (map (cut_nodes f) cs)
   | KeepTree \<Rightarrow> [])"

lemma labels_split:
  assumes "\<And>n. n \<in> set ns \<Longrightarrow> labels (k n) + labels (c n) = labels [n]"
  shows "labels (concat (map k ns)) + labels (concat (map c ns)) = labels ns"
  using assms
proof (induction ns)
  case (Cons n ns)
  have "labels (concat (map k (n # ns))) + labels (concat (map c (n # ns))) =
      (labels (k n) + labels (c n)) + (labels (concat (map k ns)) + labels (concat (map c ns)))"
    by simp
  also have "\<dots> = labels [n] + labels ns" using Cons by simp
  finally show ?case by simp
qed simp

lemma labels_kept_cut: "labels (kept_nodes f n) + labels (cut_nodes f n) = labels [n]"
proof (induction n)
  case (Node h n v cs)
  from labels_split [of cs "kept_nodes f" "cut_nodes f", OF Node]
  show ?case by (auto simp: label_def split: filter_action.split)
qed

lemma labels_kept_cuts: "labels (concat (map (kept_nodes f) ns)) + labels (concat (map (cut_nodes f) ns)) = labels ns"
  by (rule labels_split) (rule labels_kept_cut)

lemma cut_nothing: "cut_nodes f n = [] \<Longrightarrow> kept_nodes f n = [n]"
proof (induction n)
  case (Node h n v cs)
  have "concat (map (kept_nodes f) xs) = xs" if "set xs \<subseteq> set cs" "concat (map (cut_nodes f) xs) = []" for xs
    using that Node.IH by (induction xs) auto
  then show ?case using Node.prems by (auto split: filter_action.splits)
qed

lemma rev_kept_nodes [simp]: "rev (kept_nodes f n) = kept_nodes f n"
  by (cases n) (simp split: filter_action.split)

text \<open>What a level keeps, each with the children to look at, and what it removes.\<close>

definition level_kept where
  "level_kept f e = (case e of (p, Node h n v cs) \<Rightarrow> (case f h n v of
     Remove \<Rightarrow> []
   | KeepNode \<Rightarrow> [((p, Node h n v []), cs)]
   | KeepTree \<Rightarrow> [((p, Node h n v cs), [])]))"

definition level_cut where
  "level_cut f e = (case e of (p, Node h n v cs) \<Rightarrow> (if f h n v = Remove then [Node h n v cs] else []))"

lemma filter_level_eq:
  "filter_level f queue retained removed next_queue =
     (let L = concat (map (level_kept f) queue) in
      (retained @ map fst L, removed @ concat (map (level_cut f) queue), next_queue @ attach (length retained) (map snd L)))"
  by (induction f queue retained removed next_queue rule: filter_level.induct)
    (auto simp: level_kept_def level_cut_def Let_def split: filter_action.split)

definition kept_entries where
  "kept_entries f e = map (Pair (fst e)) (kept_nodes f (snd e))"

lemma kept_entries_attach:
  "concat (map (kept_entries f) (attach k css)) = attach k (map (\<lambda>cs. concat (map (kept_nodes f) cs)) css)"
proof (induction css arbitrary: k)
  case (Cons cs css)
  have "concat (map (kept_entries f) (map (Pair (Some k)) (rev ds))) =
      map (Pair (Some k)) (rev (concat (map (kept_nodes f) ds)))" for ds
    by (induction ds) (simp_all add: kept_entries_def)
  then show ?case using Cons by simp
qed simp

lemma level_kept_adopt:
  "map (\<lambda>(e, cs). adopt (concat (map (kept_nodes f) cs)) e) (level_kept f e) = kept_entries f e"
  by (auto simp: level_kept_def kept_entries_def adopt_def split: prod.split node.split filter_action.split)

lemma rebuild_filter_loop:
  "rebuild_loop (fst (filter_loop f queue retained removed)) rs =
     rebuild_loop (retained @ concat (map (kept_entries f) queue)) rs"
proof (induction f queue retained removed rule: filter_loop.induct)
  case (1 f queue retained removed)
  show ?case
  proof (cases "queue = []")
    case False
    let ?L = "concat (map (level_kept f) queue)"
    let ?M = "map (\<lambda>(e, cs). (e, concat (map (kept_nodes f) cs))) ?L"
    have M: "map fst ?M = map fst ?L" "map snd ?M = map (\<lambda>cs. concat (map (kept_nodes f) cs)) (map snd ?L)"
      by auto
    have "map (\<lambda>(e, cs). adopt cs e) ?M = concat (map (map (\<lambda>(e, cs). adopt (concat (map (kept_nodes f) cs)) e)) (map (level_kept f) queue))"
      by (simp add: map_concat comp_def case_prod_unfold)
    then have adopted: "map (\<lambda>(e, cs). adopt cs e) ?M = concat (map (kept_entries f) queue)"
      by (simp add: comp_def level_kept_adopt)
    show ?thesis
      using 1 [OF False filter_level_eq [symmetric, unfolded Let_def] refl refl] rebuild_attach [of retained ?M "[]" rs] False
      unfolding M adopted by (subst filter_loop.simps) (simp add: filter_level_eq Let_def kept_entries_attach)
  qed (simp add: filter_loop.simps)
qed

lemma level_cut_rest:
  "mset (cut_nodes f (snd e)) = mset (level_cut f e) + mset (concat (map (cut_nodes f) (concat (map snd (level_kept f e)))))"
  by (auto simp: level_kept_def level_cut_def split: prod.split node.split filter_action.split)

lemma cut_attach: "mset (concat (map (\<lambda>e. cut_nodes f (snd e)) (attach k css))) = mset (concat (map (cut_nodes f) (concat css)))"
proof (induction css arbitrary: k)
  case (Cons cs css)
  have "mset (concat (map (\<lambda>e. cut_nodes f (snd e)) (map (Pair (Some k)) (rev ds)))) = mset (concat (map (cut_nodes f) ds))" for ds
    by (induction ds) simp_all
  then show ?case using Cons by (simp add: comp_def)
qed simp

lemma level_cuts:
  "mset (concat (map (\<lambda>e. cut_nodes f (snd e)) queue)) = mset (concat (map (level_cut f) queue)) +
     mset (concat (map (cut_nodes f) (concat (map snd (concat (map (level_kept f) queue))))))"
  by (induction queue) (simp_all add: level_cut_rest ac_simps)

lemma filter_loop_removed:
  "mset (snd (filter_loop f queue retained removed)) = mset removed + mset (concat (map (\<lambda>e. cut_nodes f (snd e)) queue))"
proof (induction f queue retained removed rule: filter_loop.induct)
  case (1 f queue retained removed)
  show ?case
  proof (cases "queue = []")
    case False
    then show ?thesis
      using 1 [OF False filter_level_eq [symmetric, unfolded Let_def] refl refl] level_cuts [of f queue]
      by (subst filter_loop.simps) (simp add: filter_level_eq Let_def cut_attach)
  qed (simp add: filter_loop.simps)
qed

definition filtered :: "('h \<Rightarrow> 'n \<Rightarrow> 'v \<Rightarrow> filter_action) \<Rightarrow> ('h, 'n, 'v) fork_tree \<Rightarrow> ('h, 'n, 'v) fork_tree" where
  "filtered f t = (if concat (map (cut_nodes f) (roots t)) = [] then t
     else rebalance (t\<lparr>roots := concat (map (kept_nodes f) (roots t))\<rparr>))"

lemma drain_filter_eq:
  assumes "drain_filter f t = (removed, t')"
  shows "t' = filtered f t" "mset removed = labels (concat (map (cut_nodes f) (roots t)))"
proof -
  let ?queue = "map (Pair (None :: nat option)) (rev (roots t))"
  obtain ret rem where loop: "filter_loop f ?queue [] [] = (ret, rem)" by (cases "filter_loop f ?queue [] []")
  have "concat (map (kept_entries f) ?queue) = map (Pair None) (rev (concat (map (kept_nodes f) (roots t))))"
    by (induction "roots t" rule: rev_induct) (simp_all add: rev_concat rev_map kept_entries_def map_concat comp_def)
  then have kept: "rebuild_loop ret [] = concat (map (kept_nodes f) (roots t))"
    using rebuild_filter_loop [of f ?queue "[]" "[]" "[]"] by (simp add: loop rebuild_roots del: map_map)
  have "mset (concat (map (\<lambda>e. cut_nodes f (snd e)) (map (Pair (None :: nat option)) (rev ns)))) = mset (concat (map (cut_nodes f) ns))" for ns
    by (induction ns) simp_all
  then have rem: "mset rem = mset (concat (map (cut_nodes f) (roots t)))"
    using filter_loop_removed [of f ?queue "[]" "[]"] by (simp add: loop)
  have same: "t\<lparr>roots := concat (map (kept_nodes f) (roots t))\<rparr> = t" if "concat (map (cut_nodes f) (roots t)) = []"
  proof -
    have "concat (map (kept_nodes f) ns) = ns" if "concat (map (cut_nodes f) ns) = []" for ns
      using that by (induction ns) (auto simp: cut_nothing)
    then show ?thesis using that by (cases t) simp
  qed
  have "removed = removed_iter rem" and t': "t' = (let u = t\<lparr>roots := rebuild_loop ret []\<rparr> in if rem \<noteq> [] then rebalance u else u)"
    using assms by (auto simp: drain_filter_def loop Let_def)
  then show "mset removed = labels (concat (map (cut_nodes f) (roots t)))"
    using labels_mset [OF rem] by (simp add: removed_iter_labels)
  have "rem = [] \<longleftrightarrow> concat (map (cut_nodes f) (roots t)) = []"
    using rem by (metis mset_zero_iff)
  then show "t' = filtered f t"
    using same unfolding t' kept filtered_def Let_def by (simp split: if_split)
qed

end
