(* ===== verification/Fork_Tree_Props.thy ===== *)
theory Fork_Tree_Props
  imports Fork_Tree_Prune Fork_Tree_Rebuild "HOL-Library.Sublist"
begin

text \<open>
  The properties of the fork tree.  Those that depend on the function that establishes ancestry hold for every
  function with the contract \<^const>\<open>ancestry\<close>; here it is instantiated for blocks that are named by their
  path from a first block, and in \<open>Block_Ancestry\<close> for the ancestry test over stored headers.
\<close>

definition path_ancestry :: "('h list, 'e) ancestry" where
  "path_ancestry a b = Inr (strict_prefix a b)"

interpretation paths: ancestry "path_ancestry :: ('h list, 'e) ancestry" strict_prefix length UNIV
proof
  fix a b c :: "'h list"
  show "strict_prefix a c" if "strict_prefix a b" "strict_prefix b c" using that by (rule prefix_order.less_trans)
  show "a = b \<or> strict_prefix a b \<or> strict_prefix b a" if "strict_prefix a c" "strict_prefix b c"
    using prefix_same_cases [of a c b] that by (auto simp: strict_prefix_def)
  show "length a < length b" if "strict_prefix a b" using that by (rule prefix_length_less)
qed (simp add: path_ancestry_def)

text \<open>Two competing blocks, one of which has two children.\<close>

definition sample_roots :: "(nat list, nat, nat) node list" where
  "sample_roots = [Node [1] 1 10 [Node [1, 1] 2 11 [], Node [1, 2] 2 12 []], Node [2] 1 20 []]"

definition sample_tree :: "(nat list, nat, nat) fork_tree" where
  "sample_tree = \<lparr>roots = sample_roots, best_finalized_number = Some 0\<rparr>"

lemma sample_ok:
  "wf_forest strict_prefix length UNIV (roots sample_tree)"
  "hashes (roots sample_tree) = {[1], [1, 1], [1, 2], [2]}"
  "0 < n \<Longrightarrow> \<not> reverts n sample_tree"
  by (auto simp: sample_tree_def sample_roots_def wf_forest_Cons wf_node_iff unrelated_def reverts_def)

subsection \<open>Importing\<close>

text \<open>C7: Importing a block in order, into a tree in which every node is above what descends from it and siblings
  are on competing branches, is refused with \<open>Duplicate\<close> exactly when the tree holds the block; otherwise the tree
  has exactly the one node more, is in agreement with the ancestry again, keeps its deepest branches first, and the
  result says whether the tree held no ancestor of the block.\<close>

theorem fork_tree_import_exact:
  assumes "ancestry desc anc num blocks" "h \<in> blocks" "wf_forest anc num blocks (roots t)" "\<not> reverts (num h) t"
    "\<forall>x \<in> hashes (roots t). \<not> anc h x"
  shows "if h \<in> hashes (roots t) then fork_tree_import desc h (num h) v t = (Inl Duplicate, t)
    else \<exists>t'. fork_tree_import desc h (num h) v t = (Inr (\<forall>x \<in> hashes (roots t). \<not> anc x h), t') \<and>
      wf_forest anc num blocks (roots t') \<and> mset (fork_tree_iter t') = add_mset (h, num h, v) (mset (fork_tree_iter t)) \<and>
      best_finalized_number t' = best_finalized_number t \<and> (level_sorted (roots t) \<longrightarrow> level_sorted (roots t'))"
  using ancestry.import_ok [OF assms] by (simp only: fork_tree_iter_labels)

theorem fork_tree_import_exact_witness:
  "(\<exists>t'. fork_tree_import path_ancestry [2, 1] 2 21 sample_tree = (Inr False, t') \<and>
      wf_forest strict_prefix length UNIV (roots t') \<and>
      mset (fork_tree_iter t') = add_mset ([2, 1], 2, 21) (mset (fork_tree_iter sample_tree))) \<and>
    fork_tree_import path_ancestry [1, 2] 2 21 sample_tree = (Inl Duplicate, sample_tree)"
  using fork_tree_import_exact [OF paths.ancestry_axioms UNIV_I sample_ok(1), of "[2, 1]" 21]
    fork_tree_import_exact [OF paths.ancestry_axioms UNIV_I sample_ok(1), of "[1, 2]" 21]
  by (auto simp: sample_ok numeral_2_eq_2)

subsection \<open>Searching\<close>

text \<open>C16: The search returns without an error the deepest ancestor of the block that passes the predicate: every
  other node of the tree that is an ancestor and passes has the found one in its subtree; and it finds nothing exactly
  when no ancestor passes.\<close>

theorem find_node_where_deepest:
  assumes "ancestry desc anc num blocks" "h \<in> blocks" "wf_forest anc num blocks (roots t)"
  shows "\<exists>r. find_node_where desc P h (num h) t = Inr r \<and> (case r of
      None \<Rightarrow> \<forall>m \<in> set (node_iter t). anc (hash m) h \<longrightarrow> \<not> P (data m)
    | Some m \<Rightarrow> m \<in> set (node_iter t) \<and> anc (hash m) h \<and> P (data m) \<and>
        (\<forall>m' \<in> set (node_iter t). anc (hash m') h \<and> P (data m') \<longrightarrow> m \<in> set (preorder m')))"
proof -
  obtain r where r: "find_node_index_where desc P h (num h) t = Inr r" "case r of
      None \<Rightarrow> no_ancestor anc P h (roots t)
    | Some p \<Rightarrow> \<exists>m. node_at p (roots t) = Some m \<and> deepest anc P h (roots t) m"
    using ancestry.find_deepest [OF assms, of P] by blast
  then show ?thesis
    by (cases r) (auto simp: find_node_where_def node_iter_def iter_loop_preorder no_ancestor_def deepest_def)
qed

theorem find_node_where_deepest_witness:
  "\<exists>r. find_node_where path_ancestry (\<lambda>v. v \<noteq> 11) [1, 1, 5] 3 sample_tree = Inr r \<and> (case r of
      None \<Rightarrow> \<forall>m \<in> set (node_iter sample_tree). strict_prefix (hash m) [1, 1, 5] \<longrightarrow> data m = 11
    | Some m \<Rightarrow> strict_prefix (hash m) [1, 1, 5] \<and> data m \<noteq> 11)"
  using find_node_where_deepest [OF paths.ancestry_axioms UNIV_I sample_ok(1), of "\<lambda>v. v \<noteq> 11" "[1, 1, 5]"]
  by (auto simp: numeral_3_eq_3 split: option.splits)

subsection \<open>Finalizing\<close>

text \<open>C24: Finalizing a block that has no ancestor among the roots leaves exactly the nodes that descend from it,
  in agreement with the ancestry, and records its number; the result carries the data of the finalized root, or says
  whether roots were dropped.  With an ancestor among the roots it is refused and the tree is unchanged.\<close>

theorem finalize_exact:
  assumes "ancestry desc anc num blocks" "h \<in> blocks" "wf_forest anc num blocks (roots t)" "\<not> reverts (num h) t"
  shows "if \<exists>c \<in> set (roots t). anc (hash c) h then finalize desc h (num h) t = (Inl UnfinalizedAncestor, t)
    else \<exists>r t'. finalize desc h (num h) t = (Inr r, t') \<and> wf_forest anc num blocks (roots t') \<and>
      mset (fork_tree_iter t') = filter_mset (\<lambda>(x, _). anc h x) (mset (fork_tree_iter t)) \<and>
      best_finalized_number t' = Some (num h) \<and>
      (case r of Changed (Some v) \<Rightarrow> (h, num h, v) \<in> set (fork_tree_iter t)
       | Changed None \<Rightarrow> roots t' \<noteq> roots t | Unchanged \<Rightarrow> roots t' = roots t)"
  using ancestry.finalize_ok [OF assms(1-3,4)] unfolding case_prod_unfold fork_tree_iter_labels
    set_mset_mset [of "fork_tree_iter t", symmetric] .

theorem finalize_exact_witness:
  "(\<exists>r t'. finalize path_ancestry [1] 1 sample_tree = (Inr r, t') \<and>
      mset (fork_tree_iter t') = {#([1, 1], 2, 11), ([1, 2], 2, 12)#} \<and> best_finalized_number t' = Some 1) \<and>
    finalize path_ancestry [1, 1] 2 sample_tree = (Inl UnfinalizedAncestor, sample_tree)"
proof -
  have "mset (fork_tree_iter sample_tree) = {#([1], 1, 10), ([1, 1], 2, 11), ([1, 2], 2, 12), ([2], 1, 20)#}"
    by (simp add: sample_tree_def sample_roots_def fork_tree_iter_def node_iter_def)
  then show ?thesis
    using finalize_exact [OF paths.ancestry_axioms UNIV_I sample_ok(1) sample_ok(3), of "[1]"]
      finalize_exact [OF paths.ancestry_axioms UNIV_I sample_ok(1) sample_ok(3), of "[1, 1]"]
    by (auto simp: sample_tree_def sample_roots_def numeral_2_eq_2)
qed

text \<open>C11: Finalizing with ancestors always succeeds and leaves exactly the nodes that descend from the block,
  however deep in the tree or far outside of it the block is.\<close>

theorem finalize_with_ancestors_exact:
  assumes "ancestry desc anc num blocks" "h \<in> blocks" "wf_forest anc num blocks (roots t)" "\<not> reverts (num h) t"
  shows "\<exists>r t'. finalize_with_ancestors desc h (num h) t = (Inr r, t') \<and> wf_forest anc num blocks (roots t') \<and>
      mset (fork_tree_iter t') = filter_mset (\<lambda>(x, _). anc h x) (mset (fork_tree_iter t)) \<and>
      best_finalized_number t' = Some (num h)"
  using ancestry.finalize_with_ancestors_ok [OF assms] unfolding case_prod_unfold fork_tree_iter_labels .

theorem finalize_with_ancestors_exact_witness:
  "\<exists>r t'. finalize_with_ancestors path_ancestry [1, 1] 2 sample_tree = (Inr r, t') \<and>
      mset (fork_tree_iter t') = {#} \<and> best_finalized_number t' = Some 2"
proof -
  have "mset (fork_tree_iter sample_tree) = {#([1], 1, 10), ([1, 1], 2, 11), ([1, 2], 2, 12), ([2], 1, 20)#}"
    by (simp add: sample_tree_def sample_roots_def fork_tree_iter_def node_iter_def)
  then show ?thesis
    using finalize_with_ancestors_exact [OF paths.ancestry_axioms UNIV_I sample_ok(1) sample_ok(3), of "[1, 1]"] by (auto simp: numeral_2_eq_2)
qed

subsection \<open>Pruning\<close>

text \<open>C14: Pruning to a block with an ancestor in the tree that passes the predicate keeps of the subtree of the deepest
  such ancestor exactly the ancestors of the block, the block itself and its descendants, returns all other nodes,
  each once, and sorts every level by depth; without such an ancestor nothing changes.\<close>

theorem prune_exact:
  assumes "ancestry desc anc num blocks" "h \<in> blocks" "wf_forest anc num blocks (roots t)"
  shows "if no_ancestor anc P h (roots t) then prune desc P h (num h) t = (Inr [], t)
    else \<exists>m removed t'. prune desc P h (num h) t = (Inr removed, t') \<and> deepest anc P h (roots t) m \<and>
      wf_forest anc num blocks (roots t') \<and> level_sorted (roots t') \<and>
      mset (fork_tree_iter t') = filter_mset (\<lambda>(x, _). in_line anc h x) (labels [m]) \<and>
      mset removed + mset (fork_tree_iter t') = mset (fork_tree_iter t)"
  using ancestry.prune_ok [OF assms] unfolding case_prod_unfold fork_tree_iter_labels by metis

theorem prune_exact_witness:
  "\<exists>m removed t'. prune path_ancestry (\<lambda>_. True) [1, 1] 2 sample_tree = (Inr removed, t') \<and>
      deepest strict_prefix (\<lambda>_. True) [1, 1] (roots sample_tree) m \<and>
      mset (fork_tree_iter t') = filter_mset (\<lambda>(x, _). in_line strict_prefix [1, 1] x) (labels [m]) \<and>
      mset removed + mset (fork_tree_iter t') = mset (fork_tree_iter sample_tree)"
proof -
  have n: "\<not> no_ancestor strict_prefix (\<lambda>_. True) [1, 1] (roots sample_tree)"
    by (simp add: no_ancestor_def sample_tree_def sample_roots_def)
  have "length ([1, 1] :: nat list) = 2" by simp
  then show ?thesis
    using prune_exact [OF paths.ancestry_axioms UNIV_I sample_ok(1), of "\<lambda>_. True" "[1, 1]", unfolded if_not_P [OF n]]
    by metis
qed

subsection \<open>Mapping and filtering\<close>

text \<open>C25: Mapping and filtering, which run level by level over an array that is put together again from its end,
  equal the recursive map and filter with siblings in order; filtering removes nothing more than the cut
  subtrees, returns every node of them once, and rebalances exactly when something was removed.\<close>

theorem map_filter_recursive:
  "fork_tree_map f t = \<lparr>roots = map (mapped_node f) (roots t), best_finalized_number = best_finalized_number t\<rparr> \<and>
   snd (drain_filter g t) = filtered g t \<and>
   mset (fst (drain_filter g t)) = labels (concat (map (cut_nodes g) (roots t))) \<and>
   mset (fst (drain_filter g t)) + mset (fork_tree_iter (snd (drain_filter g t))) = mset (fork_tree_iter t)"
proof -
  have d: "snd (drain_filter g t) = filtered g t"
      "mset (fst (drain_filter g t)) = labels (concat (map (cut_nodes g) (roots t)))"
    by (rule drain_filter_eq [OF prod.collapse [symmetric]])+
  have "labels (roots (filtered g t)) = labels (concat (map (kept_nodes g) (roots t)))"
  proof (cases "concat (map (cut_nodes g) (roots t)) = []")
    case True
    then show ?thesis
      using labels_kept_cuts [of g "roots t"] unfolding filtered_def if_P [OF True] by (simp only: True labels_simps add_0_right)
  next
    case False
    then show ?thesis unfolding filtered_def if_not_P [OF False] by (simp only: labels_rebalance) simp
  qed
  then show ?thesis
    using d labels_kept_cuts [of g "roots t"] by (simp only: fork_tree_map_eq fork_tree_iter_labels add.commute [of "labels (concat (map (cut_nodes g) (roots t)))"])
qed

end
