(* ===== verification/Block_Ancestry.thy ===== *)
theory Block_Ancestry
  imports Blockchain_Db In_Mem_Chain Fork_Tree_Props
begin

text \<open>
  The ancestry test over stored headers keeps to the contract the fork tree relies on, for the stored blocks and,
  with the block that is being imported, for one more.  With it the properties of the store and of the fork
  tree are composed.
\<close>

text \<open>The function handed to the fork tree: the answer, the store being shared.\<close>

definition ancestry_of ::
  "('s, 'e, 'h) header_metadata_ops \<Rightarrow> ('h \<times> 'h) option \<Rightarrow> 's \<Rightarrow> ('h, 'e) ancestry" where
  "ancestry_of ops current s base h = fst (the (is_descendent_of ops current base h s))"

text \<open>Ancestry with one more block below a known parent.\<close>

definition with_current :: "('h \<Rightarrow> 'h \<Rightarrow> bool) \<Rightarrow> 'h \<Rightarrow> 'h \<Rightarrow> 'h \<Rightarrow> 'h \<Rightarrow> bool" where
  "with_current anc c cp a b \<longleftrightarrow> a \<noteq> c \<and> (if b = c then a = cp \<or> anc a cp else anc a b)"

locale store_state = header_store blocks num par genesis ops inv
  for blocks :: "'h set" and num :: "'h \<Rightarrow> nat" and par :: "'h \<Rightarrow> 'h" and genesis :: 'h
    and ops :: "('s, 'e, 'h) header_metadata_ops" and inv :: "'s \<Rightarrow> bool" +
  fixes s0 :: 's
  assumes state_ok: "inv s0"
begin

lemma current_ancestry:
  assumes "c \<notin> blocks" "cp \<in> blocks"
  shows "ancestry (ancestry_of ops (Some (c, cp)) s0) (with_current anc c cp) (num(c := Suc (num cp))) (insert c blocks)"
proof
  fix a b x
  assume a: "a \<in> insert c blocks" and b: "b \<in> insert c blocks"
  show "ancestry_of ops (Some (c, cp)) s0 a b = Inr (with_current anc c cp a b)"
    using is_descendent_current_ok [OF state_ok assms(2,1) a b] a assms(1)
    by (auto simp: ancestry_of_def with_current_def)
  show "(num(c := Suc (num cp))) a < (num(c := Suc (num cp))) b" if "with_current anc c cp a b"
    using that anc_less by (auto simp: with_current_def less_Suc_eq split: if_splits)
  assume x: "x \<in> insert c blocks"
  show "with_current anc c cp a x" if "with_current anc c cp a b" "with_current anc c cp b x"
    using that anc_trans [of x a b] anc_trans [of cp a b] x assms(2) by (auto simp: with_current_def split: if_splits)
  show "a = b \<or> with_current anc c cp a b \<or> with_current anc c cp b a" if "with_current anc c cp a x" "with_current anc c cp b x"
    using that anc_linear [of x a b] anc_linear [of cp a b] x assms(2) by (auto simp: with_current_def split: if_splits)
qed

end

sublocale store_state \<subseteq> stored: ancestry "ancestry_of ops None s0" anc num blocks
proof
  fix a b c
  assume "a \<in> blocks" "b \<in> blocks"
  then show "ancestry_of ops None s0 a b = Inr (anc a b)"
    using is_descendent_ok [OF state_ok, of a b] by (auto simp: ancestry_of_def)
  show "num a < num b" if "anc a b" using that by (rule anc_less)
  assume "c \<in> blocks"
  show "anc a c" if "anc a b" "anc b c" using \<open>c \<in> blocks\<close> that by (rule anc_trans)
  show "a = b \<or> anc a b \<or> anc b a" if "anc a c" "anc b c" using \<open>c \<in> blocks\<close> that by (rule anc_linear)
qed

text \<open>A database that has just been opened, its caches empty.\<close>

definition opened_db :: "'h db_meta \<Rightarrow> 'h leaf_set \<Rightarrow> ('h, ('h \<times> 'a) list, ('h \<times> 'b) list) blockchain_db" where
  "opened_db meta leaves = \<lparr>db_header_cache = [], db_header_metadata_cache = [], db_meta = meta, db_leaves = leaves\<rparr>"

lemma opened_db_inv: "db_inv (list_env header_hash read) map_of map_of g (opened_db meta leaves)"
  by (simp add: db_inv_def opened_db_def)

interpretation opened: store_state "db_blocks (list_env header_hash read) g" "stored_num (db_stored (list_env header_hash read))"
    "stored_par (db_stored (list_env header_hash read))" g "db_ops (list_env header_hash read)"
    "db_inv (list_env header_hash read) map_of map_of g" "opened_db meta leaves"
  for header_hash :: "'h header \<Rightarrow> 'h" and read :: "'h block_id \<Rightarrow> 'e + 'h header option" and g :: 'h
    and meta :: "'h db_meta" and leaves :: "'h leaf_set"
  by unfold_locales (rule opened_db_inv)

interpretation in_mem_state: store_state "in_mem_blocks header_hash s0 g" "in_mem_num s0" "stored_par (headers_of s0)" g
    "in_mem_ops header_hash" "\<lambda>s. s = s0" s0
  for header_hash :: "'h header \<Rightarrow> 'h" and s0 :: "('h, 'x) blockchain_storage" and g :: 'h
  by unfold_locales simp

end
