(* ===== verification/Chain_Props.thy ===== *)
theory Chain_Props
  imports Block_Ancestry
begin

text \<open>The properties of the block store, its ancestry test, the leaf set and the in-memory backend.\<close>

subsection \<open>A sample database\<close>

text \<open>Four blocks: a chain of two above the first, and a competitor of the lower of them.\<close>

definition sample_header :: "nat \<Rightarrow> nat \<Rightarrow> nat \<Rightarrow> nat header" where
  "sample_header h n p = \<lparr>hdr_number = n, hdr_parent_hash = p, hdr_state_root = h\<rparr>"

definition sample_blocks :: "(nat \<times> nat header) list" where
  "sample_blocks = [(0, sample_header 0 0 99), (1, sample_header 1 1 0), (2, sample_header 2 2 1), (3, sample_header 3 1 0)]"

definition sample_read :: "nat block_id \<Rightarrow> unit + nat header option" where
  "sample_read i = Inr (case i of By_Hash h \<Rightarrow> map_of sample_blocks h | By_Number _ \<Rightarrow> None)"

abbreviation sample_env where
  "sample_env \<equiv> list_env hdr_state_root sample_read"

definition sample_db where
  "sample_db = opened_db \<lparr>meta_best_hash = 2, meta_best_number = 2, meta_finalized_hash = 0, meta_finalized_number = 0,
     meta_genesis_hash = 0, meta_finalized_state = None, meta_block_gap = None\<rparr> (leaf_set_new :: nat leaf_set)"

lemma sample_stored: "db_stored sample_env = map_of sample_blocks"
  by (simp add: db_stored_def list_env_def sample_read_def fun_eq_iff)

lemma sample_caches: "db_caches sample_env map_of map_of" "db_inv sample_env map_of map_of g sample_db"
  by (rule list_db.db_caches_axioms) (simp add: sample_db_def opened_db_inv)

lemma sample_known: "db_blocks sample_env 0 = {0, 1, 2, 3}"
proof -
  let ?H = "map_of sample_blocks"
  have zero: "0 \<in> linked hdr_state_root ?H 0"
    by (rule linked.genesis [of _ _ "sample_header 0 0 99"]) (simp_all add: sample_blocks_def sample_header_def)
  have one: "1 \<in> linked hdr_state_root ?H 0"
    by (rule linked.child [of _ _ "sample_header 1 1 0"])
      (use zero in \<open>simp_all add: sample_blocks_def sample_header_def stored_num_def\<close>)
  have "2 \<in> linked hdr_state_root ?H 0"
    by (rule linked.child [of _ _ "sample_header 2 2 1"])
      (use one in \<open>simp_all add: sample_blocks_def sample_header_def stored_num_def\<close>)
  moreover have "3 \<in> linked hdr_state_root ?H 0"
    by (rule linked.child [of _ _ "sample_header 3 1 0"])
      (use zero in \<open>simp_all add: sample_blocks_def sample_header_def stored_num_def\<close>)
  moreover have "h \<in> {0, 1, 2, 3}" if "h \<in> linked hdr_state_root ?H 0" for h
    using linked_subset [OF that] by (auto simp: sample_blocks_def split: if_splits)
  ultimately have "linked hdr_state_root ?H 0 = {0, 1, 2, 3}" using zero one by blast
  moreover have "stored_par ?H 0 = 99" by (simp add: stored_par_def sample_blocks_def sample_header_def)
  moreover have "env_header_hash sample_env = hdr_state_root" by (simp add: list_env_def)
  ultimately show ?thesis by (simp add: known_blocks_def sample_stored)
qed

lemma sample_tables:
  "stored_num (db_stored sample_env) = (\<lambda>h. if h = 1 \<or> h = 3 then 1 else if h = 2 then 2 else 0)"
  "h < 4 \<Longrightarrow> stored_par (db_stored sample_env) h = (if h = 0 then 99 else if h = 2 then 1 else 0)"
  unfolding sample_stored
  by (auto simp: stored_num_def stored_par_def sample_blocks_def sample_header_def fun_eq_iff)

subsection \<open>Lowest common ancestor and routes\<close>

text \<open>C5: On the database store, with caches that hold no more than what was put in, the search for the lowest common
  ancestor of two known blocks ends and returns the highest block that is on both chains, whatever ancestor links
  earlier searches have left in the cache, and the links it leaves are right again.\<close>

theorem lowest_common_ancestor_exact:
  assumes "db_caches env hcontent mcontent" "db_inv env hcontent mcontent g s" "a \<in> db_blocks env g" "b \<in> db_blocks env g"
  shows "\<exists>k s'. fork_height (stored_num (db_stored env)) (stored_par (db_stored env)) a b k \<and>
    lowest_common_ancestor (db_ops env) a b s =
      Some (Inr \<lparr>hn_number = k, hn_hash = at_height (stored_num (db_stored env)) (stored_par (db_stored env)) a k\<rparr>, s') \<and>
    db_inv env hcontent mcontent g s'"
  using header_store.lca_ok [OF db_caches.is_store [OF assms(1)] assms(2-4)] stored.fork_height_ex [OF assms(3,4)] by metis

theorem lowest_common_ancestor_exact_witness:
  "\<exists>k s'. fork_height (stored_num (db_stored sample_env)) (stored_par (db_stored sample_env)) 2 3 k \<and>
    lowest_common_ancestor (db_ops sample_env) 2 3 sample_db =
      Some (Inr \<lparr>hn_number = k, hn_hash = at_height (stored_num (db_stored sample_env)) (stored_par (db_stored sample_env)) 2 k\<rparr>, s')"
  using lowest_common_ancestor_exact [OF sample_caches, of 2 0 3] by (auto simp: sample_known)

text \<open>C9: The route between two known blocks of the database consists of the blocks of the first chain above the fork from
  the top down, the block they fork at, and the blocks of the second chain from the fork up, each with its number; the
  search for it ends.\<close>

theorem tree_route_exact:
  assumes "db_caches env hcontent mcontent" "db_inv env hcontent mcontent g s" "a \<in> db_blocks env g" "b \<in> db_blocks env g"
  shows "\<exists>k r s'. fork_height (stored_num (db_stored env)) (stored_par (db_stored env)) a b k \<and>
    tree_route (db_ops env) a b s = Some (Inr r, s') \<and> db_inv env hcontent mcontent g s' \<and>
    retracted r = map (entry_at (stored_num (db_stored env)) (stored_par (db_stored env)) a) (rev [Suc k..<Suc (stored_num (db_stored env) a)]) \<and>
    common_block r = Some (entry_at (stored_num (db_stored env)) (stored_par (db_stored env)) a k) \<and>
    enacted r = map (entry_at (stored_num (db_stored env)) (stored_par (db_stored env)) b) [Suc k..<Suc (stored_num (db_stored env) b)]"
proof -
  let ?num = "stored_num (db_stored env)" and ?par = "stored_par (db_stored env)"
  obtain k where k: "fork_height ?num ?par a b k" using stored.fork_height_ex [OF assms(3,4)] by blast
  let ?re = "map (entry_at ?num ?par a) (rev [Suc k..<Suc (?num a)])"
  let ?r = "\<lparr>tr_route = ?re @ [entry_at ?num ?par a k] @ map (entry_at ?num ?par b) [Suc k..<Suc (?num b)], tr_pivot = ?num a - k\<rparr>"
  have pivot: "tr_pivot ?r = length ?re" by (simp del: upt_Suc)
  have "retracted ?r = ?re" "common_block ?r = Some (entry_at ?num ?par a k)" "enacted ?r = map (entry_at ?num ?par b) [Suc k..<Suc (?num b)]"
    unfolding retracted_def common_block_def enacted_def pivot by (simp_all add: nth_append del: upt_Suc)
  then show ?thesis
    using header_store.tree_route_ok [OF db_caches.is_store [OF assms(1)] assms(2-4) k] k by blast
qed

theorem tree_route_exact_witness:
  "\<exists>k r s'. fork_height (stored_num (db_stored sample_env)) (stored_par (db_stored sample_env)) 2 3 k \<and>
    tree_route (db_ops sample_env) 2 3 sample_db = Some (Inr r, s') \<and>
    common_block r = Some (entry_at (stored_num (db_stored sample_env)) (stored_par (db_stored sample_env)) 2 k)"
  using tree_route_exact [OF sample_caches, of 2 0 3] by (auto simp: sample_known)

text \<open>C13: The ancestry test says of two known blocks whether the first is on the chain of the second below it, and with a
  block that is being imported, and is not in the database yet, it answers as if that block hung below its parent.\<close>

theorem is_descendent_of_exact:
  assumes "db_caches env hcontent mcontent" "db_inv env hcontent mcontent g s" "cp \<in> db_blocks env g" "c \<notin> db_blocks env g"
    "a \<in> db_blocks env g" "b \<in> db_blocks env g"
  shows "(\<exists>s'. is_descendent_of (db_ops env) None a b s =
        Some (Inr (ancestor_of (stored_num (db_stored env)) (stored_par (db_stored env)) a b), s') \<and> db_inv env hcontent mcontent g s') \<and>
    (\<exists>s'. is_descendent_of (db_ops env) (Some (c, cp)) a c s =
        Some (Inr (a = cp \<or> ancestor_of (stored_num (db_stored env)) (stored_par (db_stored env)) a cp), s') \<and> db_inv env hcontent mcontent g s')"
  using header_store.is_descendent_ok [OF db_caches.is_store [OF assms(1)] assms(2,5,6)]
    header_store.is_descendent_current_ok [OF db_caches.is_store [OF assms(1)] assms(2-4), of a c] assms(5) by simp

theorem is_descendent_of_exact_witness:
  "(\<exists>s'. is_descendent_of (db_ops sample_env) None 1 2 sample_db = Some (Inr True, s')) \<and>
    (\<exists>s'. is_descendent_of (db_ops sample_env) (Some (7, 2)) 1 7 sample_db = Some (Inr True, s'))"
proof -
  have "ancestor_of (stored_num (db_stored sample_env)) (stored_par (db_stored sample_env)) 1 2"
    by (simp add: ancestor_of_def at_height_def sample_tables)
  then show ?thesis using is_descendent_of_exact [OF sample_caches, of 2 0 7 1 2] by (auto simp: sample_known)
qed

text \<open>C17: Importing a block below a known parent into a fork tree, with the ancestry test over the database, needs no
  assumption on the test: the block is a duplicate exactly when the tree holds it, and is otherwise added, as a root
  exactly when neither its parent nor an ancestor of its parent is in the tree.\<close>

theorem import_with_database:
  assumes "db_caches env hcontent mcontent" "db_inv env hcontent mcontent g s" "p \<in> db_blocks env g" "h \<notin> db_blocks env g"
    "wf_forest (with_current (ancestor_of (stored_num (db_stored env)) (stored_par (db_stored env))) h p)
       ((stored_num (db_stored env))(h := Suc (stored_num (db_stored env) p))) (insert h (db_blocks env g)) (roots t)"
    "\<not> reverts (Suc (stored_num (db_stored env) p)) t"
  shows "if h \<in> hashes (roots t)
    then fork_tree_import (ancestry_of (db_ops env) (Some (h, p)) s) h (Suc (stored_num (db_stored env) p)) v t = (Inl Duplicate, t)
    else \<exists>t'. fork_tree_import (ancestry_of (db_ops env) (Some (h, p)) s) h (Suc (stored_num (db_stored env) p)) v t =
        (Inr (\<forall>x \<in> hashes (roots t). x \<noteq> p \<and> \<not> ancestor_of (stored_num (db_stored env)) (stored_par (db_stored env)) x p), t') \<and>
      mset (fork_tree_iter t') = add_mset (h, Suc (stored_num (db_stored env) p), v) (mset (fork_tree_iter t))"
proof -
  let ?num = "stored_num (db_stored env)" and ?par = "stored_par (db_stored env)"
  let ?anc = "with_current (ancestor_of ?num ?par) h p" and ?num' = "?num(h := Suc (?num p))"
  have st: "store_state (db_blocks env g) ?num ?par g (db_ops env) (db_inv env hcontent mcontent g) s"
    using db_caches.is_store [OF assms(1)] assms(2) by (simp add: store_state_def store_state_axioms_def)
  note a = store_state.current_ancestry [OF st assms(4,3)]
  have "\<forall>x \<in> hashes (roots t). \<not> ?anc h x" by (simp add: with_current_def)
  note i = ancestry.import_ok [OF a insertI1 assms(5) _ this, of v]
  have root: "(\<forall>x \<in> hashes (roots t). \<not> ?anc x h) \<longleftrightarrow> (\<forall>x \<in> hashes (roots t). x \<noteq> p \<and> \<not> ancestor_of ?num ?par x p)" if "h \<notin> hashes (roots t)"
    using that by (auto simp: with_current_def)
  show ?thesis
    using i assms(6) by (auto simp: root fork_tree_iter_labels split: if_splits)
qed

theorem import_with_database_witness:
  "\<exists>t'. fork_tree_import (ancestry_of (db_ops sample_env) (Some (7, 2)) sample_db) 7 (3 :: nat) ()
     \<lparr>roots = [Node 1 1 () [Node 2 2 () []]], best_finalized_number = None\<rparr> = (Inr False, t')"
proof -
  let ?t = "\<lparr>roots = [Node 1 1 () [Node 2 2 () []]], best_finalized_number = None\<rparr> :: (nat, nat, unit) fork_tree"
  let ?anc = "ancestor_of (stored_num (db_stored sample_env)) (stored_par (db_stored sample_env))"
  have anc: "?anc 1 2" by (simp add: ancestor_of_def at_height_def sample_tables)
  have "wf_forest (with_current ?anc 7 2) ((stored_num (db_stored sample_env))(7 := Suc (stored_num (db_stored sample_env) 2)))
      (insert 7 (db_blocks sample_env 0)) (roots ?t)"
    using anc by (simp add: wf_forest_Cons wf_node_iff with_current_def sample_known sample_tables)
  then show ?thesis
    using import_with_database [OF sample_caches, of 2 0 7 ?t "()"]
    by (auto simp: sample_known sample_tables reverts_def numeral_3_eq_3)
qed

subsection \<open>The in-memory backend\<close>

definition sample_storage :: "(nat, unit) blockchain_storage" where
  "sample_storage = (blockchain_new 99)\<lparr>bs_blocks := map (\<lambda>(h, header). (h, stored_new header None None)) sample_blocks,
     bs_hashes := [(0, 0), (1, 1), (2, 2)], bs_best_hash := 2, bs_best_number := 2, bs_genesis_hash := 0,
     bs_leaves := [(Reverse 2, [2]), (Reverse 1, [3])]\<rparr>"

definition sample_backend :: "(nat, unit, nat) in_mem_backend" where
  "sample_backend = \<lparr>be_states = [], be_blockchain = sample_storage, be_pinned_blocks = []\<rparr>"

definition sample_states :: "(nat, nat, nat) state_ops" where
  "sample_states = \<lparr>st_default = 0, st_full_storage_root = (\<lambda>_ _ s. (s, s)), st_update_backend = (\<lambda>_ tx _. tx)\<rparr>"

definition sample_operation :: "(nat, unit, nat, nat) import_operation" where
  "sample_operation = \<lparr>op_pending_block = None, op_old_state = 0, op_new_state = Some 5, op_aux = [],
     op_finalized_blocks = [], op_set_head = None\<rparr>"

lemma sample_headers: "headers_of sample_storage = db_stored sample_env"
  unfolding sample_stored
  by (auto simp: sample_storage_def in_mem_header_def blockchain_new_def sample_blocks_def fun_eq_iff)

lemma sample_in_mem_blocks: "in_mem_blocks hdr_state_root sample_storage 0 = {0, 1, 2, 3}"
  using sample_known by (simp add: sample_headers list_env_def)

lemma sample_index: "index_ok hdr_state_root 0 sample_storage"
proof -
  have "in_mem_at sample_storage 2 n = n" if "n \<le> 2" for n
    using that sample_tables(2) [of 1] sample_tables(2) [of 2]
    by (auto simp: sample_headers sample_tables(1) at_height_def le_Suc_eq numeral_2_eq_2)
  then show ?thesis
    by (auto simp: index_ok_def sample_in_mem_blocks)
      (auto simp: sample_storage_def in_mem_hash_def blockchain_id_def blockchain_new_def sample_headers [unfolded sample_storage_def blockchain_new_def, simplified] sample_tables)
qed

lemma sample_in_mem_ok: "in_mem_ok hdr_state_root 0 sample_storage"
proof -
  have hd: "in_mem_header h sample_storage = map_of sample_blocks h" for h
    using fun_cong [OF sample_headers, of h] by (simp add: sample_stored)
  have kids: "(\<forall>c header. map_of sample_blocks c = Some header \<and> hdr_number header \<noteq> 0 \<longrightarrow> hdr_parent_hash header \<noteq> h) \<longleftrightarrow>
      h \<noteq> 0 \<and> h \<noteq> 1" (is "?l \<longleftrightarrow> ?r") for h
  proof
    have "map_of sample_blocks 1 = Some (sample_header 1 1 0)" "map_of sample_blocks 2 = Some (sample_header 2 2 1)"
      by (simp_all add: sample_blocks_def)
    then show ?r if ?l using that [rule_format, of 1 "sample_header 1 1 0"] that [rule_format, of 2 "sample_header 2 2 1"]
      by (auto simp: sample_header_def)
    show ?l if ?r using that by (auto simp: sample_blocks_def sample_header_def split: if_splits)
  qed
  have "leaves_ok hdr_state_root sample_storage"
    unfolding leaves_ok_def hd kids
    by (auto simp: sample_storage_def leaf_wf_def bt_wf_Cons leaf_contains_def sample_blocks_def sample_header_def split: if_splits)
  moreover have "{h. in_mem_header h sample_storage \<noteq> None} = {0, 1, 2, 3}"
    by (auto simp: hd sample_blocks_def split: if_splits)
  ultimately show ?thesis using sample_index by (simp add: in_mem_ok_def sample_in_mem_blocks)
qed

lemma sample_extends: "extends hdr_state_root (headers_of sample_storage) 0 7 (sample_header 7 3 2)"
proof -
  have "hdr_parent_hash hd \<noteq> 7" if "map_of sample_blocks y = Some hd" for y hd
    using that by (auto simp: sample_blocks_def sample_header_def split: if_splits)
  moreover have "map_of sample_blocks 7 = None" by (simp add: sample_blocks_def)
  ultimately show ?thesis
    using sample_in_mem_blocks sample_tables(1) by (simp add: extends_def sample_headers) (simp add: sample_stored sample_header_def)
qed

text \<open>C19: A backend whose index of the best chain and whose leaves are those of the tree of its blocks keeps them so when
  an operation is committed that adds one new block below a known parent, registers it as a leaf, and neither finalizes
  blocks nor sets a head: the block and its state can be read, it becomes the best block when it is to, the index follows
  its chain and the leaves are again the blocks without children.  The parent of a new best block is at least as high as
  the best block, or on its chain.\<close>

theorem commit_operation_keeps_chain:
  assumes "in_mem_ok header_hash g (be_blockchain b)" "extends header_hash (headers_of (be_blockchain b)) g h header"
    "is_best st \<Longrightarrow> bs_best_number (be_blockchain b) \<le> in_mem_num (be_blockchain b) (hdr_parent_hash header) \<or>
      in_mem_at (be_blockchain b) (bs_best_hash (be_blockchain b)) (in_mem_num (be_blockchain b) (hdr_parent_hash header)) = hdr_parent_hash header"
    "op_finalized_blocks operation = []" "op_set_head operation = None"
    "set_block_data header body js st True operation = Some operation'"
  shows "\<exists>b'. commit_operation so header_hash operation' b = Some (Inr (), b') \<and> in_mem_ok header_hash g (be_blockchain b') \<and>
    bs_best_hash (be_blockchain b') = (if is_best st then h else bs_best_hash (be_blockchain b)) \<and>
    in_mem_header h (be_blockchain b') = Some header \<and>
    (h \<noteq> d \<longrightarrow> state_at so d h b' = Inr (case op_new_state operation of None \<Rightarrow> op_old_state operation
      | Some tx \<Rightarrow> st_update_backend so (hdr_state_root header) tx (op_old_state operation)))"
  by (rule commit_operation_ok [OF assms])

theorem commit_operation_keeps_chain_witness:
  "\<exists>b'. commit_operation sample_states hdr_state_root (the (set_block_data (sample_header 7 3 2) None None Best True sample_operation)) sample_backend
      = Some (Inr (), b') \<and> bs_best_hash (be_blockchain b') = 7 \<and> state_at sample_states 99 7 b' = Inr 5"
proof -
  have "set_block_data (sample_header 7 3 2) None None Best True sample_operation =
      Some (the (set_block_data (sample_header 7 3 2) None None Best True sample_operation))"
    by (simp add: set_block_data_def sample_operation_def)
  moreover have "be_blockchain sample_backend = sample_storage" by (simp add: sample_backend_def)
  moreover have "bs_best_number sample_storage \<le> in_mem_num sample_storage (hdr_parent_hash (sample_header 7 3 2))"
    unfolding sample_headers sample_tables(1) by (simp add: sample_storage_def sample_header_def)
  moreover have "op_finalized_blocks sample_operation = []" "op_set_head sample_operation = None" "op_new_state sample_operation = Some 5"
    by (simp_all add: sample_operation_def)
  ultimately show ?thesis
    using commit_operation_keeps_chain [of hdr_state_root 0 sample_backend 7 "sample_header 7 3 2" Best sample_operation
        None None "the (set_block_data (sample_header 7 3 2) None None Best True sample_operation)" sample_states 99]
      sample_in_mem_ok sample_extends
    by (auto simp: sample_states_def is_best_def)
qed

text \<open>C32: Making a block the head whose parent is neither at the height of the best block nor on its chain loses the
  lowest block of the new branch from the index of the best chain: its number has no hash any more, although the new
  best block descends from it.\<close>

theorem apply_head_loses_block:
  assumes "index_ok header_hash g s" "hdr_parent_hash header \<in> in_mem_blocks header_hash s g"
    "hdr_number header = Suc (in_mem_num s (hdr_parent_hash header))"
    "fork_height (in_mem_num s) (stored_par (headers_of s)) (bs_best_hash s) (hdr_parent_hash header) k"
    "k < in_mem_num s (hdr_parent_hash header)" "in_mem_num s (hdr_parent_hash header) < bs_best_number s"
  shows "\<exists>s'. apply_head header_hash header s = Some (Inr (), s') \<and> bs_best_hash s' = header_hash header \<and>
    in_mem_hash (Suc k) s' = None"
  by (rule reorganize_hole [OF assms])

theorem apply_head_loses_block_witness:
  "\<exists>s'. apply_head hdr_state_root (sample_header 7 2 3) sample_storage = Some (Inr (), s') \<and> bs_best_hash s' = 7 \<and>
    in_mem_hash 1 s' = None"
proof -
  have "fork_height (in_mem_num sample_storage) (stored_par (headers_of sample_storage)) 2 3 0"
    using sample_tables(2) [of 1] sample_tables(2) [of 2] sample_tables(2) [of 3]
    by (auto simp: fork_height_def sample_headers sample_tables(1) at_height_def numeral_2_eq_2 le_Suc_eq)
  moreover have "bs_best_hash sample_storage = 2" "bs_best_number sample_storage = 2" by (simp_all add: sample_storage_def)
  ultimately show ?thesis
    using apply_head_loses_block [OF sample_index, of "sample_header 7 2 3" 0] sample_in_mem_blocks
    by (simp add: sample_header_def sample_headers sample_tables(1))
qed

subsection \<open>The leaf set\<close>

text \<open>C29: The operations of the leaf set keep its levels sorted, without empty levels and without a leaf listed twice,
  provided no block is added that is a leaf already, be it the imported block or the parent that a removal puts back;
  a removal may name no parent.  Reverting to a block never runs into its assertion, and leaves the
  leaves up to the height of that block, and the block itself.\<close>

theorem leaf_set_well_formed:
  assumes "leaf_wf ls"
  shows "(\<not> leaf_contains n h ls \<longrightarrow> leaf_wf (snd (leaf_set_import h n p ls))) \<and>
    ((\<forall>q. parent = Some q \<and> n \<noteq> 0 \<longrightarrow> \<not> leaf_contains (n - 1) q ls) \<longrightarrow> leaf_wf (snd (leaf_set_remove h n parent ls))) \<and>
    leaf_wf (remove_displaced_leaves displaced ls) \<and>
    (\<exists>removed ls'. leaf_set_revert h n ls = Some (removed, ls') \<and> leaf_wf ls' \<and>
      (\<forall>m x. leaf_contains m x ls' \<longleftrightarrow> leaf_contains m x ls \<and> m \<le> n \<or> m = n \<and> x = h) \<and>
      set removed = {(x, m). leaf_contains m x ls \<and> n < m})"
  using import_wf [OF assms] remove_wf [OF assms, of parent] remove_displaced_ok [OF assms] revert_ok [OF assms] by simp

theorem leaf_set_well_formed_witness:
  "leaf_wf (snd (leaf_set_import 7 3 2 [(Reverse 2, [2 :: nat]), (Reverse 1, [3])])) \<and>
    (\<exists>removed ls'. leaf_set_revert 1 1 [(Reverse 2, [2 :: nat]), (Reverse 1, [3])] = Some (removed, ls') \<and> leaf_wf ls')"
  using leaf_set_well_formed [of "[(Reverse 2, [2 :: nat]), (Reverse 1, [3])]" 3 7 2 None "[]"]
    leaf_set_well_formed [of "[(Reverse 2, [2 :: nat]), (Reverse 1, [3])]" 1 1 0 None "[]"]
  by (auto simp: leaf_wf_def bt_wf_Cons leaf_contains_def)

text \<open>C27: A leaf set read back from the database is the one that was written, and undoing an import or a removal with
  the outcome it returned gives a well-formed set with the leaves there were before; the imported block was no leaf, and
  the parent that a removal makes a leaf was none.\<close>

theorem leaf_set_round_trips:
  assumes "leaf_wf ls"
  shows "read_from_db (Some (Some (prepare_transaction ls))) = Some ls \<and>
    (\<forall>imported ls1. \<not> leaf_contains n h ls \<and> leaf_set_import h n p ls = (imported, ls1) \<longrightarrow>
      leaf_wf (undo_import imported ls1) \<and> (\<forall>m x. leaf_contains m x (undo_import imported ls1) \<longleftrightarrow> leaf_contains m x ls)) \<and>
    (\<forall>removed ls2. leaf_set_remove h n parent ls = (Some removed, ls2) \<and>
        (\<forall>q. parent = Some q \<and> n \<noteq> 0 \<longrightarrow> \<not> leaf_contains (n - 1) q ls) \<longrightarrow>
      leaf_wf (undo_remove removed ls2) \<and> (\<forall>m x. leaf_contains m x (undo_remove removed ls2) \<longleftrightarrow> leaf_contains m x ls))"
proof -
  have "leaf_wf (undo_import imported ls1) \<and> (\<forall>m x. leaf_contains m x (undo_import imported ls1) \<longleftrightarrow> leaf_contains m x ls)"
    if "\<not> leaf_contains n h ls" "leaf_set_import h n p ls = (imported, ls1)" for imported ls1
    using undo_import_ok [OF assms that] by simp
  moreover have "leaf_wf (undo_remove removed ls2) \<and> (\<forall>m x. leaf_contains m x (undo_remove removed ls2) \<longleftrightarrow> leaf_contains m x ls)"
    if r: "leaf_set_remove h n parent ls = (Some removed, ls2)"
      and q: "\<forall>q. parent = Some q \<and> n \<noteq> 0 \<longrightarrow> \<not> leaf_contains (n - 1) q ls" for removed ls2
    using undo_remove_ok [OF assms r] q by simp
  ultimately show ?thesis using read_written [OF assms] by blast
qed

theorem leaf_set_round_trips_witness:
  "let ls = [(Reverse 2, [2 :: nat]), (Reverse 1, [3])] in
    leaf_wf (undo_import (fst (leaf_set_import 7 3 2 ls)) (snd (leaf_set_import 7 3 2 ls))) \<and>
    leaf_wf (undo_remove (the (fst (leaf_set_remove 2 2 (Some 1) ls))) (snd (leaf_set_remove 2 2 (Some 1) ls)))"
  using leaf_set_round_trips [of "[(Reverse 2, [2 :: nat]), (Reverse 1, [3])]" 3 7 2 None]
    leaf_set_round_trips [of "[(Reverse 2, [2 :: nat]), (Reverse 1, [3])]" 2 2 0 "Some 1"]
  by (simp add: leaf_wf_def bt_wf_Cons leaf_contains_def leaf_set_import_def leaf_set_remove_def remove_leaf_def insert_leaf_def bt_remove_def)

end
