(* ===== verification/Spec2Isabelle.thy ===== *)
theory Spec2Isabelle
  imports Freeing_Bump_Correct Externalities_Props Chain_Props
begin

text \<open>
  A verification library for the part of the Substrate tree in \<open>src/polkadot-sdk/substrate\<close> that keeps the
  state of a chain while its runtime executes and that keeps track of its blocks.  File names below are
  relative to that directory.

  \<^bold>\<open>The parts and how they interact.\<close>  A runtime call executes in a WASM instance whose heap the client manages
  (\<open>client/allocator\<close>).  Its storage calls reach \<open>Ext\<close> (\<open>primitives/state-machine/src/ext.rs\<close>), which reads
  through the changes of the block so far, \<open>OverlayedChanges\<close> (\<open>overlayed_changes/mod.rs\<close>), into the backend's
  tries.  The overlay is made of one \<open>OverlayedMap\<close> (\<open>overlayed_changes/changeset.rs\<close>) for the top trie, one for
  each child trie and one for the offchain storage, with their nested transactions in lockstep; at the
  end of a block it is drained into the database.  On the side of the blocks, header metadata come from
  the client database (\<open>client/db\<close>) or from the in-memory backend (\<open>client/api/src/in_mem.rs\<close>); the lowest
  common ancestor and the route between two blocks (\<open>primitives/blockchain/src/header_metadata.rs\<close>) are
  computed from them, the ancestry test of \<open>client/api/src/lib.rs\<close> from the former, the leaves are in a \<open>LeafSet\<close>
  (\<open>client/api/src/leaves.rs\<close>), and changes announced on competing branches are in a \<open>ForkTree\<close>
  (\<open>utils/fork-tree\<close>), which asks the ancestry test.

  \<^bold>\<open>Conventions\<close> (\<open>Prelude\<close>, \<open>BTree_Map\<close>).  An integer is a word of its width, and \<open>usize\<close> has 64 bits; arithmetic
  wraps as in the release profile unless the source checks or saturates.  Block numbers are naturals.
  A panic is \<open>None\<close> of the type \<open>run\<close>; an error is \<open>Inl\<close>.  State is passed explicitly.  A \<open>BTreeMap\<close> is an
  association list sorted by key (\<open>bt_wf\<close>), a \<open>HashMap\<close> an association list,
  a set of dirty keys the list of its members.  What is not part of the repository is an argument:
  \<open>Compact<u32>\<close> and the fixed-width \<open>u32\<close> of the SCALE codec (\<open>Compact_Codec\<close>, with its laws in the locale
  \<open>compact_laws\<close>, which the SCALE encoding itself is shown to obey), the trie backend (the record
  \<open>backend\<close>, with \<open>serves\<close> saying that it answers from tries), the caches of the database (the locale
  \<open>cache\<close>), the host's answer to growing the memory, the hash of a header.

  \<^bold>\<open>Theories and sources.\<close>

  \<^item> Allocator.  \<open>Freeing_Bump\<close> models \<open>client/allocator/src/freeing_bump.rs\<close>: orders, links and headers, free
    lists, \<open>bump\<close>, and \<open>allocate\<close> and \<open>deallocate\<close> with the poison bomb, over a linear memory of bytes that may grow
    by pages.  \<open>Freeing_Bump_Header\<close> has the encodings, \<open>Freeing_Bump_Inv\<close> the invariant (the heap
    is tiled by chunks that are live or on the free list of their order), \<open>Heap_Contract\<close> what a guest
    relies on (the locale \<open>heap_contract\<close> and the runs \<open>heap_run\<close>, which include failing requests), and
    \<open>Freeing_Bump_Correct\<close> its interpretation and the properties: live blocks are apart, aligned and in the heap, every
    outcome of an operation, errors are final, headers round-trip, and the wrap-around at 4 GiB.

  \<^item> Transactional overlay.  \<open>Changeset\<close> models \<open>changeset.rs\<close> and \<open>StorageAppend\<close> of \<open>ext.rs\<close>: a history of
    versions per key, the dirty keys of the open transactions, appends that move the bytes of the
    enclosing version.  \<open>Changeset_Views\<close> says what a history means, \<open>Txn_Layers\<close> what nested transactions
    mean (a stack of maps; the locale \<open>txn_store\<close>), \<open>Changeset_Layers\<close> relates the two for any kind of entry (the locale
    \<open>versioned_entry\<close>), \<open>Changeset_Correct\<close> interprets both for storage and for offchain entries, and
    \<open>Changeset_Props\<close> states that every sequence of operations refines the stack of maps without a panic, that a
    rollback restores everything, that the runtime cannot touch the client's transactions, and what
    appends and draining give.

  \<^item> Overlayed changes.  \<open>Overlayed_Changes\<close> models \<open>overlayed_changes/mod.rs\<close>, \<open>offchain.rs\<close>, \<open>stats.rs\<close>, the child
    keys of \<open>primitives/storage\<close> and the \<open>Backend\<close> trait with \<open>full_storage_root\<close>.  \<open>Overlayed_Inv\<close> has the
    lockstep invariant and the layers over slots (a key of the top trie, of a child, of the offchain
    storage), \<open>Overlayed_Writes\<close> the effect of each operation, \<open>Overlayed_Correct\<close> the interpretation of \<open>txn_store\<close>,
    \<open>Overlayed_Root\<close> the cached storage root, \<open>Overlayed_Drain\<close> draining, and \<open>Overlayed_Props\<close> the properties:
    refinement of one stack of maps, rollback, the storage root over the visible changes, the stale
    root after an append, and a complete drain.

  \<^item> Externalities.  \<open>Extensions\<close> models \<open>primitives/externalities/src/extensions.rs\<close> and the overlay's store of them,
    \<open>Externalities\<close> the operations of \<open>Ext\<close>.  \<open>Externalities_View\<close> has what the runtime sees (\<open>view\<close>), the reads and
    the next key, \<open>Externalities_Removal\<close> the removals with limit and cursor (\<open>removes\<close>, with every count they
    report), \<open>Externalities_Correct\<close> removal in rounds, the protection of child roots and the commit of
    benchmarks, and \<open>Externalities_Props\<close> the properties.

  \<^item> Fork tree.  \<open>Fork_Tree\<close> models \<open>utils/fork-tree/src/lib.rs\<close> with its loops over stacks, queues and output arrays.
    \<open>Fork_Tree_Shape\<close> and \<open>Fork_Tree_Rebuild\<close> show the loops equal to plain recursion, \<open>Fork_Tree_Ancestry\<close>
    has the contract of the ancestry test (the locale \<open>ancestry\<close>) and the agreement of a tree with it, \<open>Fork_Tree_Search\<close>,
    \<open>Fork_Tree_Import\<close>, \<open>Fork_Tree_Finalize\<close> and \<open>Fork_Tree_Prune\<close> the operations, and \<open>Fork_Tree_Props\<close> the
    properties: import keeps the agreement, a search finds the deepest ancestor, finalizing and pruning
    keep exactly the blocks they should.

  \<^item> Blocks.  \<open>Header_Metadata\<close> models \<open>header_metadata.rs\<close> and the ancestry test of \<open>client/api/src/lib.rs\<close>, and
    \<open>Header_Chain\<close> proves them right over any store with the contract \<open>header_store\<close>, itself over a \<open>block_tree\<close>.
    \<open>Stored_Chain\<close> shows that stored headers make up such a tree, whatever is stored.  \<open>Leaf_Set\<close> models
    \<open>leaves.rs\<close>, \<open>In_Mem_Backend\<close> \<open>in_mem.rs\<close>, and \<open>Blockchain_Db\<close> the header part of \<open>client/db/src/lib.rs\<close>
    with its caches.  \<open>In_Mem_Chain\<close> and \<open>Blockchain_Db\<close> interpret \<open>header_store\<close>, \<open>Block_Ancestry\<close> derives
    from it the contract of the fork tree, so that importing into a fork tree over the
    database needs no assumption on the ancestry test, and \<open>Chain_Props\<close> has the properties.

  \<^bold>\<open>Loops, bounds and fuel.\<close>  The loops of the fork tree are total functions with termination proofs.  The searches
  over stored headers (\<open>jump_loop\<close>, \<open>meet_loop\<close>, \<open>descend_loop\<close>, \<open>descend_both\<close>) may run forever on a
  broken store, and are partial: \<open>None\<close> is not returning, and the properties state that they return.
  \<open>rollback_dangling\<close> and \<open>repeat_close\<close> count down the number of open transactions, which each round lowers by
  one; \<open>shrink_cache\<close> counts down the entries of the cache.  \<open>clear_prefix_rounds\<close> is a caller that asks at most
  a given number of times, and one more than the backend has keys with the prefix is shown to be enough.  The runs of
  the allocator are bounded by the page limit: below 65536 pages no 32-bit sum wraps, and at 65536 pages
  the bumper does (\<open>bumper_wraps_at_4GiB\<close>).

  \<^bold>\<open>Where the code is not as it seems to be meant.\<close>  An append leaves the cached storage root in place
  (\<open>append_keeps_stale_root\<close>), and so does leaving the runtime, which is why neither is among the operations of
  \<open>storage_root_sound\<close>; a cached root keeps its state version when draining asks for another
  (\<open>drained_version\<close>); a reorganization of the in-memory backend to a lower branch loses a block of the index
  (\<open>apply_head_loses_block\<close>), which is the case \<open>commit_operation_keeps_chain\<close> excludes; \<open>storage_append\<close> does not
  refuse the keys of child roots, which is why \<open>child_roots_protected\<close> speaks of \<open>place_storage\<close> and
  \<open>clear_prefix\<close> only; two comments say that transactions left open by the runtime are committed,
  and they are rolled back (\<open>overlay_runtime_isolated\<close>).

  \<^bold>\<open>Not modelled.\<close>  Logging, tracing, metrics, \<open>Debug\<close> and \<open>Clone\<close> implementations, the counters a backend keeps
  for benchmarks; the trie implementation and the write path of the database with its state pruning (the
  backend and the state of a block are arguments); the consensus, network, transaction pool, RPC and
  service crates, which are asynchronous tasks over external libraries; the WASM executor apart from
  its allocator; the runtime pallets, whose storage and dispatch code is generated by macros.
\<close>

end
